(* ===== verification/Rust_Str.thy ===== *)
theory Rust_Str
  imports Safa_Prelude
begin

text \<open>
  The string operations of Rust's standard library that the program uses. A \<open>String\<close> is
  the list of its UTF-8 bytes, so \<open>length\<close> is \<open>len()\<close>. Searching, prefixes and
  splitting at ASCII characters work on bytes exactly as on characters, because no byte
  of a multi-byte character is below 128. \<open>chars()\<close> decodes. What the Unicode tables say
  beyond ASCII is an argument (\<open>unicode\<close>).
\<close>

type_synonym bytes = "char list"

section \<open>Prefixes, suffixes, substrings, splitting\<close>

definition starts_with :: "string \<Rightarrow> string \<Rightarrow> bool" where
  "starts_with s p = prefix p s"

definition ends_with :: "string \<Rightarrow> string \<Rightarrow> bool" where
  "ends_with s p = prefix (rev p) (rev s)"

definition strip_prefix :: "string \<Rightarrow> string \<Rightarrow> string option" where
  "strip_prefix s p = (if prefix p s then Some (drop (length p) s) else None)"

definition strip_suffix :: "string \<Rightarrow> string \<Rightarrow> string option" where
  "strip_suffix s p =
     (if prefix (rev p) (rev s) then Some (take (length s - length p) s) else None)"

fun contains_str :: "string \<Rightarrow> string \<Rightarrow> bool" where
  "contains_str [] p = (p = [])"
| "contains_str (c # cs) p = (prefix p (c # cs) \<or> contains_str cs p)"

fun split_on :: "(char \<Rightarrow> bool) \<Rightarrow> string \<Rightarrow> string list" where
  "split_on P [] = [[]]"
| "split_on P (c # cs) =
     (if P c then [] # split_on P cs
      else (case split_on P cs of [] \<Rightarrow> [[c]] | w # ws \<Rightarrow> (c # w) # ws))"

fun join_with :: "string \<Rightarrow> string list \<Rightarrow> string" where
  "join_with sep [] = []"
| "join_with sep [w] = w"
| "join_with sep (w # ws) = w @ sep @ join_with sep ws"

definition replace_char :: "char \<Rightarrow> char \<Rightarrow> string \<Rightarrow> string" where
  "replace_char a b s = map (\<lambda>c. if c = a then b else c) s"

text \<open>A string between single quotes, as the program's messages print it.\<close>

definition quoted :: "string \<Rightarrow> string" where
  "quoted s = CHR 0x27 # s @ [CHR 0x27]"

text \<open>\<open>str::replace\<close> with a string pattern: left to right, without overlaps.\<close>

function replace_str :: "string \<Rightarrow> string \<Rightarrow> string \<Rightarrow> string" where
  "replace_str pat rep s =
     (if pat = [] then s
      else case s of
        [] \<Rightarrow> []
      | c # cs \<Rightarrow>
          if prefix pat s then rep @ replace_str pat rep (drop (length pat) s)
          else c # replace_str pat rep cs)"
  by pat_completeness auto
termination
  by (relation "measure (\<lambda>(pat, rep, s). length s)") auto

declare replace_str.simps [simp del]

lemma starts_with_append [simp, str_simps]: "starts_with (p @ s) p"
  by (simp add: starts_with_def)

lemma strip_prefix_Some: "strip_prefix s p = Some r \<longleftrightarrow> s = p @ r"
  by (auto simp: strip_prefix_def prefix_def)

lemma strip_suffix_Some: "strip_suffix s p = Some r \<longleftrightarrow> s = r @ p"
proof
  assume "strip_suffix s p = Some r"
  then obtain t where "rev s = rev p @ t" and "r = take (length s - length p) s"
    by (auto simp: strip_suffix_def prefix_def split: if_splits)
  moreover from this(1) have "s = rev t @ p"
    by (metis rev_append rev_rev_ident)
  ultimately show "s = r @ p" by simp
next
  assume "s = r @ p"
  then show "strip_suffix s p = Some r" by (simp add: strip_suffix_def)
qed

lemma contains_str_iff: "contains_str s p \<longleftrightarrow> (\<exists>u v. s = u @ p @ v)"
proof (induction s)
  case Nil
  then show ?case by simp
next
  case (Cons c cs)
  show ?case
  proof
    assume "contains_str (c # cs) p"
    then consider "prefix p (c # cs)" | "contains_str cs p" by auto
    then show "\<exists>u v. c # cs = u @ p @ v"
    proof cases
      case 1
      then show ?thesis by (metis append_Nil prefix_def)
    next
      case 2
      with Cons.IH show ?thesis by (metis append_Cons)
    qed
  next
    assume "\<exists>u v. c # cs = u @ p @ v"
    then obtain u v where uv: "c # cs = u @ p @ v" by blast
    show "contains_str (c # cs) p"
    proof (cases u)
      case Nil
      with uv have "prefix p (c # cs)" by (metis append_Nil prefixI)
      then show ?thesis by simp
    next
      case (Cons d ds)
      with uv have "cs = ds @ p @ v" by simp
      with Cons.IH show ?thesis by auto
    qed
  qed
qed

lemma contains_str_single [simp]: "contains_str s [c] \<longleftrightarrow> c \<in> set s"
  by (induction s) auto

lemma split_on_not_Nil [simp]: "split_on P s \<noteq> []"
  by (induction s) (auto split: list.splits)

lemma split_on_no_sep: "w \<in> set (split_on P s) \<Longrightarrow> c \<in> set w \<Longrightarrow> \<not> P c"
  by (induction s arbitrary: w) (fastforce split: if_splits list.splits)+

lemma split_on_append_sep:
  "P c \<Longrightarrow> split_on P (a @ c # b) = split_on P a @ split_on P b"
  by (induction a) (auto split: list.splits simp: append_eq_Cons_conv)

lemma split_on_single: "\<forall>c \<in> set s. \<not> P c \<Longrightarrow> split_on P s = [s]"
  by (induction s) auto

text \<open>
  The parts of a split string are exactly its maximal separator-free stretches.
\<close>

lemma split_on_parts:
  "split_on P s = v # vs \<Longrightarrow>
     (\<exists>b. s = v @ b \<and> (b = [] \<or> P (hd b))) \<and>
     (\<forall>w \<in> set vs. \<exists>a b. s = a @ w @ b \<and> a \<noteq> [] \<and> P (last a) \<and> (b = [] \<or> P (hd b)))"
proof (induction s arbitrary: v vs)
  case Nil
  then show ?case by simp
next
  case (Cons c cs)
  obtain x xs where x: "split_on P cs = x # xs" by (meson neq_Nil_conv split_on_not_Nil)
  note ih = Cons.IH [OF x]
  have later: "\<exists>a b. c # cs = a @ w @ b \<and> a \<noteq> [] \<and> P (last a) \<and> (b = [] \<or> P (hd b))"
    if "w \<in> set xs" for w
  proof -
    from ih that obtain a b where "cs = a @ w @ b" "a \<noteq> []" "P (last a)" "b = [] \<or> P (hd b)"
      by blast
    then show ?thesis by (intro exI [of _ "c # a"] exI [of _ b]) auto
  qed
  show ?case
  proof (cases "P c")
    case True
    from ih obtain b where "cs = x @ b" "b = [] \<or> P (hd b)" by blast
    with True have "\<exists>a b. c # cs = a @ x @ b \<and> a \<noteq> [] \<and> P (last a) \<and> (b = [] \<or> P (hd b))"
      by (intro exI [of _ "[c]"] exI [of _ b]) auto
    moreover from True Cons.prems x have "v = []" and "vs = x # xs" by auto
    ultimately show ?thesis using later True by (intro conjI ballI) (auto simp del: append_eq_Cons_conv Cons_eq_append_conv)
  next
    case False
    with Cons.prems x have "v = c # x" and "vs = xs" by auto
    with ih later show ?thesis by auto
  qed
qed

lemma split_on_mem_iff:
  "w \<in> set (split_on P s) \<longleftrightarrow>
     (\<exists>a b. s = a @ w @ b \<and> (a = [] \<or> P (last a)) \<and> (b = [] \<or> P (hd b))) \<and> (\<forall>c \<in> set w. \<not> P c)"
  (is "?l \<longleftrightarrow> ?r")
proof
  assume l: ?l
  obtain v vs where v: "split_on P s = v # vs" by (meson neq_Nil_conv split_on_not_Nil)
  from l v consider "w = v" | "w \<in> set vs" by auto
  then have "\<exists>a b. s = a @ w @ b \<and> (a = [] \<or> P (last a)) \<and> (b = [] \<or> P (hd b))"
  proof cases
    case 1
    with split_on_parts [OF v] show ?thesis by (metis append_Nil)
  next
    case 2
    with split_on_parts [OF v] show ?thesis by blast
  qed
  with l split_on_no_sep show ?r by blast
next
  assume ?r
  then obtain a b where s: "s = a @ w @ b" and a: "a = [] \<or> P (last a)" and b: "b = [] \<or> P (hd b)"
    and w: "\<forall>c \<in> set w. \<not> P c" by blast
  have mid: "w \<in> set (split_on P (w @ b))"
  proof (cases b)
    case Nil
    with w show ?thesis by (simp add: split_on_single)
  next
    case (Cons d ds)
    with b w show ?thesis by (simp add: split_on_append_sep split_on_single)
  qed
  show ?l
  proof (cases "a = []")
    case True
    with mid s show ?thesis by simp
  next
    case False
    with a have "s = butlast a @ last a # w @ b" and "P (last a)" using s by simp_all
    with mid show ?thesis by (simp add: split_on_append_sep)
  qed
qed

text \<open>Joining the parts restores the string: splitting loses nothing.\<close>

lemma join_split: "join_with [c] (split_on (\<lambda>x. x = c) s) = s"
proof (induction s)
  case Nil
  then show ?case by simp
next
  case (Cons x xs)
  obtain w ws where ws: "split_on (\<lambda>x. x = c) xs = w # ws"
    by (meson neq_Nil_conv split_on_not_Nil)
  with Cons show ?case by (cases ws) auto
qed

lemma set_split_on: "set (concat (split_on P s)) \<subseteq> set s"
proof (induction s)
  case Nil
  then show ?case by simp
next
  case (Cons c s)
  obtain w ws where ws: "split_on P s = w # ws"
    by (meson neq_Nil_conv split_on_not_Nil)
  with Cons have "set w \<subseteq> set s" and "set (concat ws) \<subseteq> set s" by auto
  with ws show ?case by auto
qed

lemma replace_char_notin: "a \<noteq> b \<Longrightarrow> a \<notin> set (replace_char a b s)"
  by (auto simp: replace_char_def)

lemma replace_char_id: "a \<notin> set s \<Longrightarrow> replace_char a b s = s"
  by (induction s) (auto simp: replace_char_def)

section \<open>Characters\<close>

text \<open>
  What the program asks of the Unicode tables beyond ASCII: \<open>char::is_alphanumeric\<close> and
  \<open>str::to_uppercase\<close> (which may map one character to several).
\<close>

record unicode =
  wide_alphanumeric :: "nat \<Rightarrow> bool"
  wide_upper :: "nat \<Rightarrow> nat list"

definition is_cont :: "char \<Rightarrow> bool" where
  "is_cont c = (of_char c div 64 = (2::nat))"

definition cont_bits :: "char \<Rightarrow> nat" where
  "cont_bits c = of_char c mod 64"

text \<open>
  Well-formed UTF-8 (no overlong forms, no surrogates, at most \<open>0x10FFFF\<close>), decoded one
  character at a time: the continuation bytes first, then the ranges of the lead byte.
\<close>

fun utf8_cont :: "nat \<Rightarrow> nat \<Rightarrow> bytes \<Rightarrow> (nat \<times> bytes) option" where
  "utf8_cont 0 v r = Some (v, r)"
| "utf8_cont (Suc n) v [] = None"
| "utf8_cont (Suc n) v (b # r) =
     (if is_cont b then utf8_cont n (v * 64 + cont_bits b) r else None)"

text \<open>For evaluation, without patterns on numbers.\<close>

lemma utf8_cont_code [code]:
  "utf8_cont n v r =
     (if n = 0 then Some (v, r)
      else (case r of
              [] \<Rightarrow> None
            | b # r' \<Rightarrow> if is_cont b then utf8_cont (n - 1) (v * 64 + cont_bits b) r' else None))"
  by (cases n) (simp_all split: list.splits)

definition utf8_next :: "char \<Rightarrow> bytes \<Rightarrow> (nat \<times> bytes) option" where
  "utf8_next a r =
     (let x = (of_char a :: nat) in
      if x < 128 then Some (x, r)
      else if 194 \<le> x \<and> x \<le> 223 then utf8_cont 1 (x mod 32) r
      else if 224 \<le> x \<and> x \<le> 239 then
        (case utf8_cont 2 (x mod 16) r of
           None \<Rightarrow> None
         | Some (v, r') \<Rightarrow>
             if v < 2048 \<or> (55296 \<le> v \<and> v \<le> 57343) then None else Some (v, r'))
      else if 240 \<le> x \<and> x \<le> 244 then
        (case utf8_cont 3 (x mod 8) r of
           None \<Rightarrow> None
         | Some (v, r') \<Rightarrow> if v < 65536 \<or> 1114111 < v then None else Some (v, r'))
      else None)"

lemma is_cont_ge: "is_cont c \<Longrightarrow> 128 \<le> (of_char c :: nat)"
  by (simp add: is_cont_def)

lemma utf8_cont_parts:
  "utf8_cont n v r = Some (w, r') \<Longrightarrow> \<exists>p. r = p @ r' \<and> (\<forall>c \<in> set p. 128 \<le> (of_char c :: nat))"
proof (induction n v r rule: utf8_cont.induct)
  case (3 n v b r)
  then obtain p where "r = p @ r'" and "\<forall>c \<in> set p. 128 \<le> (of_char c :: nat)"
    and "128 \<le> (of_char b :: nat)"
    by (auto split: if_splits dest: is_cont_ge)
  then show ?case by (intro exI [of _ "b # p"]) auto
qed auto

lemma utf8_next_parts:
  assumes "utf8_next a r = Some (v, r')"
  shows "\<exists>p. r = p @ r' \<and> (\<forall>c \<in> set p. 128 \<le> (of_char c :: nat)) \<and>
             ((of_char a :: nat) < 128 \<longrightarrow> v = of_char a)"
proof (cases "(of_char a :: nat) < 128")
  case True
  with assms show ?thesis by (simp add: utf8_next_def Let_def)
next
  case False
  with assms have "\<exists>n w u. utf8_cont n w r = Some (u, r')"
    unfolding utf8_next_def Let_def by (auto split: if_splits option.splits) blast+
  with False utf8_cont_parts show ?thesis by blast
qed

function utf8_decode :: "bytes \<Rightarrow> nat list option" where
  "utf8_decode [] = Some []"
| "utf8_decode (a # r) =
     (case utf8_next a r of
        None \<Rightarrow> None
      | Some (v, r') \<Rightarrow> map_option (\<lambda>cs. v # cs) (utf8_decode r'))"
  by pat_completeness auto
termination
  by (relation "measure length") (auto dest!: utf8_next_parts)

text \<open>\<open>String::from_utf8\<close> accepts exactly the well-formed byte sequences.\<close>

definition from_utf8 :: "bytes \<Rightarrow> unit + string" where
  "from_utf8 b = (if utf8_decode b = None then Inl () else Inr b)"

text \<open>
  \<open>str::chars\<close>. A Rust string is always well-formed; on other byte lists, which no
  \<open>String\<close> holds, the model yields the null character.
\<close>

definition str_chars :: "string \<Rightarrow> nat list" where
  "str_chars s = (case utf8_decode s of None \<Rightarrow> [0] | Some cs \<Rightarrow> cs)"

definition utf8_encode_char :: "nat \<Rightarrow> bytes" where
  "utf8_encode_char v =
     (if v < 128 then [char_of v]
      else if v < 2048 then [char_of (192 + v div 64), char_of (128 + v mod 64)]
      else if v < 65536 then
        [char_of (224 + v div 4096), char_of (128 + v div 64 mod 64), char_of (128 + v mod 64)]
      else [char_of (240 + v div 262144), char_of (128 + v div 4096 mod 64),
            char_of (128 + v div 64 mod 64), char_of (128 + v mod 64)])"

definition ascii_alphanumeric :: "nat \<Rightarrow> bool" where
  "ascii_alphanumeric v \<longleftrightarrow>
     (48 \<le> v \<and> v \<le> 57) \<or> (65 \<le> v \<and> v \<le> 90) \<or> (97 \<le> v \<and> v \<le> 122)"

definition is_alphanumeric :: "unicode \<Rightarrow> nat \<Rightarrow> bool" where
  "is_alphanumeric U v = (if v < 128 then ascii_alphanumeric v else wide_alphanumeric U v)"

definition upper_char :: "unicode \<Rightarrow> nat \<Rightarrow> nat list" where
  "upper_char U v =
     (if v < 128 then [if 97 \<le> v \<and> v \<le> 122 then v - 32 else v] else wide_upper U v)"

definition to_uppercase :: "unicode \<Rightarrow> string \<Rightarrow> string" where
  "to_uppercase U s = concat (map utf8_encode_char (concat (map (upper_char U) (str_chars s))))"

lemma utf8_decode_ascii_mem:
  "utf8_decode s = Some cs \<Longrightarrow> c \<in> set s \<Longrightarrow> (of_char c :: nat) < 128 \<Longrightarrow> of_char c \<in> set cs"
proof (induction s arbitrary: cs rule: utf8_decode.induct)
  case 1
  then show ?case by simp
next
  case (2 a r)
  from "2.prems"(1) obtain v r' cs' where next_char: "utf8_next a r = Some (v, r')"
    and tl: "utf8_decode r' = Some cs'" and cs: "cs = v # cs'"
    by (auto split: option.splits prod.splits)
  from utf8_next_parts [OF next_char] obtain p where p: "r = p @ r'"
    and wide: "\<forall>c \<in> set p. 128 \<le> (of_char c :: nat)" and v: "(of_char a :: nat) < 128 \<longrightarrow> v = of_char a"
    by blast
  from "2.prems"(2,3) p wide consider "c = a" | "c \<in> set r'" by auto
  then show ?case
    by cases (use v cs "2.prems"(3) "2.IH" [OF next_char _ tl] in auto)
qed

lemma utf8_decode_ascii:
  "\<forall>c \<in> set s. (of_char c :: nat) < 128 \<Longrightarrow> utf8_decode s = Some (map of_char s)"
  by (induction s) (auto simp: utf8_next_def)

lemma str_chars_ascii: "\<forall>c \<in> set s. (of_char c :: nat) < 128 \<Longrightarrow> str_chars s = map of_char s"
  by (simp add: str_chars_def utf8_decode_ascii)

lemma str_chars_all_mem:
  assumes all: "\<forall>v \<in> set (str_chars s). Q v" and c: "c \<in> set s" "(of_char c :: nat) < 128"
    and bad: "\<not> Q 0"
  shows "Q (of_char c)"
proof (cases "utf8_decode s")
  case None
  with all bad show ?thesis by (simp add: str_chars_def)
next
  case (Some cs)
  with all c show ?thesis by (auto simp: str_chars_def dest: utf8_decode_ascii_mem)
qed

section \<open>Decimal numbers\<close>

text \<open>\<open>Display\<close> of an unsigned integer, and \<open>str::parse::<u64>\<close>: an optional plus sign, at least one digit, no overflow.\<close>

fun show_nat :: "nat \<Rightarrow> string" where
  "show_nat n = (if n < 10 then [char_of (48 + n)] else show_nat (n div 10) @ [char_of (48 + n mod 10)])"

declare show_nat.simps [simp del]

definition show_u64 :: "u64 \<Rightarrow> string" where
  "show_u64 w = show_nat (unat w)"

definition digit_val :: "char \<Rightarrow> nat option" where
  "digit_val c =
     (let v = (of_char c :: nat) in if 48 \<le> v \<and> v \<le> 57 then Some (v - 48) else None)"

fun digits_val :: "nat \<Rightarrow> nat \<Rightarrow> string \<Rightarrow> nat option" where
  "digits_val bound acc [] = Some acc"
| "digits_val bound acc (c # cs) =
     (case digit_val c of
        None \<Rightarrow> None
      | Some d \<Rightarrow>
          (let acc' = acc * 10 + d in
           if bound \<le> acc' then None else digits_val bound acc' cs))"

definition parse_nat :: "nat \<Rightarrow> string \<Rightarrow> nat option" where
  "parse_nat bound s =
     (let ds = (case s of [] \<Rightarrow> [] | c # cs \<Rightarrow> if c = CHR ''+'' then cs else s) in
      if ds = [] then None else digits_val bound 0 ds)"

definition parse_u64 :: "string \<Rightarrow> u64 option" where
  "parse_u64 s = map_option word_of_nat (parse_nat (2 ^ 64) s)"

definition parse_usize :: "string \<Rightarrow> nat option" where
  "parse_usize s = parse_nat (2 ^ 64) s"

lemma digits_val_append:
  "digits_val b acc (xs @ ys) =
     (case digits_val b acc xs of None \<Rightarrow> None | Some a \<Rightarrow> digits_val b a ys)"
  by (induction xs arbitrary: acc) (auto simp: Let_def split: option.splits)

lemma digits_val_bound: "acc < b \<Longrightarrow> digits_val b acc s = Some n \<Longrightarrow> n < b"
  by (induction b acc s rule: digits_val.induct) (auto simp: Let_def split: option.splits if_splits)

lemma of_char_digit [simp]: "d < 10 \<Longrightarrow> (of_char (char_of (48 + d) :: char) :: nat) = 48 + d"
  by simp

lemma digit_val_digit: "d < 10 \<Longrightarrow> digit_val (char_of (48 + d)) = Some d"
  by (simp add: digit_val_def Let_def)

lemma digits_val_show: "n < b \<Longrightarrow> digits_val b 0 (show_nat n) = Some n"
proof (induction n rule: show_nat.induct)
  case (1 n)
  show ?case
  proof (cases "n < 10")
    case True
    with 1 show ?thesis by (simp add: show_nat.simps [of n] digit_val_digit)
  next
    case False
    with 1 have "digits_val b 0 (show_nat (n div 10)) = Some (n div 10)" by simp
    with 1(2) False show ?thesis
      by (simp add: show_nat.simps [of n] digits_val_append digit_val_digit)
  qed
qed

lemma show_nat_digits: "c \<in> set (show_nat n) \<Longrightarrow> 48 \<le> (of_char c :: nat) \<and> (of_char c :: nat) \<le> 57"
proof (induction n rule: show_nat.induct)
  case (1 n)
  have d: "48 \<le> (of_char (char_of (48 + m mod 10) :: char) :: nat)
           \<and> (of_char (char_of (48 + m mod 10) :: char) :: nat) \<le> 57" for m :: nat
    by (subst of_char_digit) auto
  show ?case
  proof (cases "n < 10")
    case True
    with 1(2) have "c = char_of (48 + n mod 10)" by (simp add: show_nat.simps [of n])
    with d show ?thesis by simp
  next
    case False
    with 1(2) consider "c \<in> set (show_nat (n div 10))" | "c = char_of (48 + n mod 10)"
      by (auto simp: show_nat.simps [of n])
    then show ?thesis by cases (use 1(1) False d in auto)
  qed
qed

lemma show_nat_not_Nil [simp]: "show_nat n \<noteq> []"
  by (simp add: show_nat.simps [of n])

text \<open>What is printed parses back.\<close>

lemma parse_nat_show: "n < b \<Longrightarrow> parse_nat b (show_nat n) = Some n"
proof -
  assume n: "n < b"
  obtain c cs where c: "show_nat n = c # cs" by (meson neq_Nil_conv show_nat_not_Nil)
  with show_nat_digits [of c n] have "c \<noteq> CHR ''+''" by auto
  with c digits_val_show [OF n] show ?thesis by (simp add: parse_nat_def Let_def)
qed

lemma parse_u64_show [simp]: "parse_u64 (show_u64 w) = Some w"
proof -
  have "unat w < 2 ^ 64" using unsigned_less [of w] by simp
  then have "parse_nat (2 ^ 64) (show_nat (unat w)) = Some (unat w)" by (rule parse_nat_show)
  then show ?thesis unfolding parse_u64_def show_u64_def by simp
qed

end
