(* ===== verification/Unix_Path.thy ===== *)
theory Unix_Path
  imports Rust_Str
begin

text \<open>
  \<open>std::path\<close> on Unix, over path strings: \<open>join\<close>, \<open>components\<close>, \<open>parent\<close>,
  \<open>file_name\<close>, \<open>with_file_name\<close> and \<open>starts_with\<close>. The string is kept (a trailing slash
  changes what the kernel answers); comparison is by components, as in Rust.
\<close>

definition is_sep :: "char \<Rightarrow> bool" where
  "is_sep c = (c = CHR ''/'')"

definition path_segs :: "string \<Rightarrow> string list" where
  "path_segs s = split_on is_sep s"

definition is_absolute :: "string \<Rightarrow> bool" where
  "is_absolute s = (case s of [] \<Rightarrow> False | c # _ \<Rightarrow> is_sep c)"

datatype component = RootDir | CurDir | ParentDir | Normal string

definition seg_component :: "string \<Rightarrow> component list" where
  "seg_component w =
     (if w = [] \<or> w = ''.'' then [] else if w = ''..'' then [ParentDir] else [Normal w])"

definition seg_components :: "string list \<Rightarrow> component list" where
  "seg_components ws = concat (map seg_component ws)"

definition path_components :: "string \<Rightarrow> component list" where
  "path_components s =
     (let ws = path_segs s in
      if is_absolute s then RootDir # seg_components (tl ws)
      else (if hd ws = ''.'' then [CurDir] else seg_component (hd ws)) @ seg_components (tl ws))"

definition path_join :: "string \<Rightarrow> string \<Rightarrow> string" where
  "path_join base rel =
     (if is_absolute rel then rel
      else if base = [] \<or> is_sep (last base) then base @ rel
      else base @ ''/'' @ rel)"

definition path_file_name :: "string \<Rightarrow> string option" where
  "path_file_name s =
     (let cs = path_components s in
      if cs = [] then None else (case last cs of Normal n \<Rightarrow> Some n | _ \<Rightarrow> None))"

text \<open>
  \<open>Path::parent\<close> cuts the last component off and trims what separated it. \<open>trim_tail\<close>
  drops empty and dot segments at the end.
\<close>

definition trim_tail :: "string list \<Rightarrow> string list" where
  "trim_tail ws = rev (dropWhile (\<lambda>w. w = [] \<or> w = ''.'') (rev ws))"

definition path_parent :: "string \<Rightarrow> string option" where
  "path_parent s =
     (let ws = path_segs s; tail = trim_tail (tl ws) in
      if tail = [] then (if is_absolute s \<or> hd ws = [] then None else Some [])
      else (let rest = trim_tail (butlast tail) in
            if is_absolute s \<and> rest = [] then Some ''/''
            else Some (join_with ''/'' (hd ws # rest))))"

definition path_with_file_name :: "string \<Rightarrow> string \<Rightarrow> string" where
  "path_with_file_name s name =
     path_join (if path_file_name s = None then s else unwrap_or s (path_parent s)) name"

definition path_starts_with :: "string \<Rightarrow> string \<Rightarrow> bool" where
  "path_starts_with p q = prefix (path_components q) (path_components p)"

section \<open>Components of joined paths\<close>

lemma seg_components_append [simp]:
  "seg_components (xs @ ys) = seg_components xs @ seg_components ys"
  by (simp add: seg_components_def)

lemma seg_components_Nil [simp]: "seg_components [] = []"
  by (simp add: seg_components_def)

lemma seg_components_Cons [simp]: "seg_components (w # ws) = seg_component w @ seg_components ws"
  by (simp add: seg_components_def)

lemma seg_component_empty [simp]: "seg_component [] = []"
  by (simp add: seg_component_def)

lemma path_segs_not_Nil [simp]: "path_segs s \<noteq> []"
  by (simp add: path_segs_def)

lemma path_segs_sep: "path_segs (a @ ''/'' @ b) = path_segs a @ path_segs b"
  by (simp add: path_segs_def split_on_append_sep is_sep_def)

lemma path_segs_abs: "is_absolute s \<Longrightarrow> \<exists>ws. path_segs s = [] # ws"
  by (cases s) (auto simp: is_absolute_def path_segs_def)

lemma path_components_abs:
  "is_absolute s \<Longrightarrow> path_components s = RootDir # seg_components (path_segs s)"
  using path_segs_abs [of s] by (auto simp: path_components_def)

lemma is_absolute_append: "is_absolute a \<Longrightarrow> is_absolute (a @ b)"
  by (cases a) (auto simp: is_absolute_def)

lemma is_absolute_not_Nil: "is_absolute a \<Longrightarrow> a \<noteq> []"
  by (auto simp: is_absolute_def)

lemma is_absolute_join: "is_absolute a \<Longrightarrow> is_absolute (path_join a b)"
  by (auto simp: path_join_def is_absolute_append)

lemma path_segs_join:
  assumes "is_absolute a" and "\<not> is_absolute b"
  shows "seg_components (path_segs (path_join a b)) =
         seg_components (path_segs a) @ seg_components (path_segs b)"
proof (cases "is_sep (last a)")
  case True
  from assms(1) have "a \<noteq> []" by (rule is_absolute_not_Nil)
  with True have a: "a = butlast a @ ''/''"
    by (metis append_butlast_last_id is_sep_def)
  then have "path_join a b = butlast a @ ''/'' @ b"
    using True assms by (metis append.assoc path_join_def)
  moreover have "path_segs a = path_segs (butlast a) @ path_segs []"
    using path_segs_sep [of "butlast a" "[]"] a by simp
  ultimately show ?thesis
    by (simp only: path_segs_sep seg_components_append) (simp add: path_segs_def)
next
  case False
  with assms is_absolute_not_Nil have "path_join a b = a @ ''/'' @ b"
    by (auto simp: path_join_def)
  then show ?thesis by (simp only: path_segs_sep seg_components_append)
qed

lemma path_components_join:
  assumes "is_absolute a" and "\<not> is_absolute b"
  shows "path_components (path_join a b) = path_components a @ seg_components (path_segs b)"
  using assms by (simp add: path_components_abs is_absolute_join path_segs_join)

lemma path_starts_with_join:
  "is_absolute a \<Longrightarrow> \<not> is_absolute b \<Longrightarrow> path_starts_with (path_join a b) a"
  by (simp add: path_starts_with_def path_components_join)

lemma path_starts_with_refl [simp]: "path_starts_with p p"
  by (simp add: path_starts_with_def)

lemma path_starts_with_trans:
  "path_starts_with p q \<Longrightarrow> path_starts_with q r \<Longrightarrow> path_starts_with p r"
  by (auto simp: path_starts_with_def intro: prefix_order.trans)

lemma ParentDir_in_seg_components: "ParentDir \<in> set (seg_components ws) \<longleftrightarrow> ''..'' \<in> set ws"
  by (induction ws) (auto simp: seg_component_def)

lemma seg_component_name:
  "w \<noteq> [] \<Longrightarrow> w \<noteq> ''.'' \<Longrightarrow> w \<noteq> ''..'' \<Longrightarrow> seg_component w = [Normal w]"
  by (simp add: seg_component_def)

lemma path_segs_name: "CHR ''/'' \<notin> set w \<Longrightarrow> path_segs w = [w]"
  by (auto simp: path_segs_def is_sep_def intro: split_on_single)

text \<open>A name without separators adds exactly one component.\<close>

lemma path_components_join_name:
  assumes "is_absolute a" and "CHR ''/'' \<notin> set w" and "w \<noteq> []" "w \<noteq> ''.''" "w \<noteq> ''..''"
  shows "path_components (path_join a w) = path_components a @ [Normal w]"
proof -
  from assms(2,3) have "\<not> is_absolute w"
    by (cases w) (auto simp: is_absolute_def is_sep_def)
  with assms show ?thesis
    by (simp add: path_components_join path_segs_name seg_component_name)
qed

section \<open>The parent is shorter\<close>

lemma length_join_Cons:
  "length (join_with [c] (w # ws)) = length w + (if ws = [] then 0 else Suc (length (join_with [c] ws)))"
  by (cases ws) auto

lemma length_join_prefix:
  "xs \<noteq> [] \<Longrightarrow> length (join_with [c] xs) < length (join_with [c] (xs @ y # ys))"
proof (induction xs)
  case (Cons w ws)
  then show ?case by (cases "ws = []") (auto simp: length_join_Cons simp del: join_with.simps)
qed simp

lemma trim_tail_prefix: "\<exists>zs. ws = trim_tail ws @ zs"
proof -
  have "rev ws = takeWhile (\<lambda>w. w = [] \<or> w = ''.'') (rev ws) @ dropWhile (\<lambda>w. w = [] \<or> w = ''.'') (rev ws)"
    by simp
  then show ?thesis unfolding trim_tail_def by (metis rev_append rev_rev_ident)
qed

lemma join_path_segs: "join_with ''/'' (path_segs s) = s"
  unfolding path_segs_def is_sep_def by (rule join_split)

lemma path_parent_shorter:
  assumes "path_parent s = Some q"
  shows "length q < length s"
proof -
  obtain h t where ws: "path_segs s = h # t" by (meson neq_Nil_conv path_segs_not_Nil)
  show ?thesis
  proof (cases "trim_tail t = []")
    case True
    with assms ws show ?thesis
      by (auto simp: path_parent_def path_segs_def split: if_splits)
  next
    case False
    define r where "r = trim_tail (butlast (trim_tail t))"
    obtain z1 where z1: "butlast (trim_tail t) = r @ z1"
      using trim_tail_prefix [of "butlast (trim_tail t)"] r_def by blast
    obtain z2 where z2: "t = trim_tail t @ z2" using trim_tail_prefix [of t] by blast
    from False have "trim_tail t = butlast (trim_tail t) @ [last (trim_tail t)]" by simp
    with z1 z2 have "t = r @ z1 @ last (trim_tail t) # z2"
      by (metis append.assoc append_Cons append_Nil)
    then have "\<exists>y ys. t = r @ y # ys" by (cases z1) auto
    then obtain y ys where t: "t = r @ y # ys" by blast
    have s: "s = join_with ''/'' ((h # r) @ y # ys)"
      using join_path_segs [of s] ws t by simp
    have lt: "length (join_with ''/'' (h # r)) < length s"
      unfolding s by (rule length_join_prefix) simp
    have "length ''/'' < length s" if "is_absolute s"
    proof -
      from that ws path_segs_abs [of s] have "h = []" by auto
      moreover have "trim_tail t \<noteq> [] \<Longrightarrow> \<exists>w \<in> set t. w \<noteq> []"
        by (auto simp: trim_tail_def dropWhile_eq_Nil_conv)
      with False obtain w where "w \<in> set t" and "w \<noteq> []" by blast
      then obtain c where "c \<in> set w" by (meson hd_in_set)
      with \<open>w \<in> set t\<close> ws set_split_on [of is_sep s] have "c \<in> set s"
        by (auto simp: path_segs_def)
      moreover have "\<not> is_sep c"
        using split_on_no_sep [of w is_sep s c] \<open>w \<in> set t\<close> \<open>c \<in> set w\<close> ws by (simp add: path_segs_def)
      ultimately show ?thesis
        using that by (cases s; cases "tl s") (auto simp: is_absolute_def)
    qed
    with assms ws False lt show ?thesis
      by (auto simp: path_parent_def r_def Let_def split: if_splits)
  qed
qed

end
