(* ===== verification/Filesystem.thy ===== *)
theory Filesystem
  imports Unix_Path
begin

text \<open>
  The part of a Unix file system the program touches through \<open>std::fs\<close> and \<open>std::path\<close>:
  regular files, directories and symbolic links, path resolution as the kernel does it
  (each link followed, at most 40 of them, dot dot to the parent), and the calls
  \<open>exists\<close>, \<open>canonicalize\<close>, \<open>symlink_metadata\<close>, \<open>create_dir_all\<close>, \<open>set_permissions\<close>,
  \<open>write\<close>, \<open>rename\<close> and \<open>remove_file\<close>. A location is the list of names from the root.
  Failures the tree does not explain (permissions, full disk, a failing device) come from
  \<open>fs_fault\<close>, which is arbitrary.
\<close>

datatype fs_node =
    RegFile (file_data: bytes) (file_mode: nat)
  | Directory (dir_mode: nat)
  | Symlink string

type_synonym location = "string list"

datatype fs_op = OpStat | OpLstat | OpCanonicalize | OpMkdir | OpChmod | OpOpen | OpRead | OpWrite | OpRename | OpRemove

record fs_state =
  fs_nodes :: "location \<Rightarrow> fs_node option"
  fs_cwd :: location
  fs_fault :: "fs_op \<Rightarrow> string \<Rightarrow> string option"
  fs_short_write :: "string \<Rightarrow> nat option"
  fs_dir_mode :: nat
  fs_file_mode :: nat

datatype fs_lookup = Found location | Absent location | Bad string

definition enoent :: string where "enoent = ''No such file or directory (os error 2)''"
definition enotdir :: string where "enotdir = ''Not a directory (os error 20)''"
definition eisdir :: string where "eisdir = ''Is a directory (os error 21)''"
definition eexist :: string where "eexist = ''File exists (os error 17)''"
definition eloop :: string where "eloop = ''Too many levels of symbolic links (os error 40)''"
definition einval_nul :: string where "einval_nul = ''file name contained an unexpected NUL byte''"

definition is_dir_at :: "(location \<Rightarrow> fs_node option) \<Rightarrow> location \<Rightarrow> bool" where
  "is_dir_at N l = (case N l of Some (Directory m) \<Rightarrow> True | _ \<Rightarrow> False)"

section \<open>Path resolution\<close>

text \<open>
  \<open>fs_walk n N follow cur segs\<close>: from directory \<open>cur\<close> along \<open>segs\<close>, following at most
  \<open>n\<close> more links; the last component's link is followed only if \<open>follow\<close>.
\<close>

function fs_walk ::
  "nat \<Rightarrow> (location \<Rightarrow> fs_node option) \<Rightarrow> bool \<Rightarrow> location \<Rightarrow> string list \<Rightarrow> fs_lookup" where
  "fs_walk n N follow cur [] = Found cur"
| "fs_walk n N follow cur (c # cs) =
     (if \<not> is_dir_at N cur then Bad enotdir
      else if c = [] \<or> c = ''.'' then fs_walk n N follow cur cs
      else if c = ''..'' then fs_walk n N follow (butlast cur) cs
      else (case N (cur @ [c]) of
              None \<Rightarrow> if cs = [] then Absent (cur @ [c]) else Bad enoent
            | Some (Symlink t) \<Rightarrow>
                if cs = [] \<and> \<not> follow then Found (cur @ [c])
                else (case n of
                        0 \<Rightarrow> Bad eloop
                      | Suc m \<Rightarrow> fs_walk m N follow (if is_absolute t then [] else cur)
                                   (path_segs t @ cs))
            | Some _ \<Rightarrow> fs_walk n N follow (cur @ [c]) cs))"
  by pat_completeness auto
termination
  by (relation "measures [\<lambda>(n, N, f, cur, cs). n, \<lambda>(n, N, f, cur, cs). length cs]") auto

definition max_links :: nat where
  "max_links = 40"

definition fs_lookup :: "fs_state \<Rightarrow> bool \<Rightarrow> string \<Rightarrow> fs_lookup" where
  "fs_lookup s follow p =
     (if p = [] then Bad enoent
      else if CHR 0x00 \<in> set p then Bad einval_nul
      else fs_walk max_links (fs_nodes s) follow
             (if is_absolute p then [] else fs_cwd s) (path_segs p))"

text \<open>The text of a location: no dots, no doubled or trailing slashes.\<close>

definition render_location :: "location \<Rightarrow> string" where
  "render_location l = (if l = [] then ''/'' else concat (map (\<lambda>c. ''/'' @ c) l))"

section \<open>Queries\<close>

text \<open>\<open>Path::exists\<close> follows links; any error means no.\<close>

definition fs_exists :: "fs_state \<Rightarrow> string \<Rightarrow> bool" where
  "fs_exists s p \<longleftrightarrow>
     fs_fault s OpStat p = None \<and> (case fs_lookup s True p of Found l \<Rightarrow> True | _ \<Rightarrow> False)"

definition fs_is_dir :: "fs_state \<Rightarrow> string \<Rightarrow> bool" where
  "fs_is_dir s p \<longleftrightarrow>
     fs_fault s OpStat p = None \<and>
     (case fs_lookup s True p of Found l \<Rightarrow> is_dir_at (fs_nodes s) l | _ \<Rightarrow> False)"

definition fs_canonicalize :: "fs_state \<Rightarrow> string \<Rightarrow> string + string" where
  "fs_canonicalize s p =
     (case fs_fault s OpCanonicalize p of
        Some e \<Rightarrow> Inl e
      | None \<Rightarrow>
          (case fs_lookup s True p of
             Found l \<Rightarrow> Inr (render_location l)
           | Absent l \<Rightarrow> Inl enoent
           | Bad e \<Rightarrow> Inl e))"

text \<open>\<open>symlink_metadata\<close> (\<open>lstat\<close>): the node itself, not what it links to.\<close>

definition fs_lstat :: "fs_state \<Rightarrow> string \<Rightarrow> string + fs_node" where
  "fs_lstat s p =
     (case fs_fault s OpLstat p of
        Some e \<Rightarrow> Inl e
      | None \<Rightarrow>
          (case fs_lookup s False p of
             Found l \<Rightarrow> ok_or (fs_nodes s l) enoent
           | Absent l \<Rightarrow> Inl enoent
           | Bad e \<Rightarrow> Inl e))"

definition node_is_file :: "fs_node \<Rightarrow> bool" where
  "node_is_file n = (case n of RegFile d m \<Rightarrow> True | _ \<Rightarrow> False)"

definition node_is_symlink :: "fs_node \<Rightarrow> bool" where
  "node_is_symlink n = (case n of Symlink t \<Rightarrow> True | _ \<Rightarrow> False)"

text \<open>\<open>Metadata::len\<close>; only asked of regular files.\<close>

definition node_len :: "fs_node \<Rightarrow> nat" where
  "node_len n = (case n of RegFile d m \<Rightarrow> length d | Directory m \<Rightarrow> 4096 | Symlink t \<Rightarrow> length t)"

text \<open>\<open>File::open\<close> and reading \<open>n\<close> bytes with \<open>read_exact\<close>.\<close>

definition eof_text :: string where
  "eof_text = ''failed to fill whole buffer''"

definition fs_open_read :: "fs_state \<Rightarrow> string \<Rightarrow> string + bytes" where
  "fs_open_read s p =
     (case fs_fault s OpOpen p of
        Some e \<Rightarrow> Inl e
      | None \<Rightarrow>
          (case fs_lookup s True p of
             Found l \<Rightarrow> (case fs_nodes s l of Some (RegFile d m) \<Rightarrow> Inr d | _ \<Rightarrow> Inr [])
           | Absent l \<Rightarrow> Inl enoent
           | Bad e \<Rightarrow> Inl e))"

definition fs_read_exact :: "fs_state \<Rightarrow> string \<Rightarrow> bytes \<Rightarrow> nat \<Rightarrow> string + bytes" where
  "fs_read_exact s p d n =
     (case fs_fault s OpRead p of
        Some e \<Rightarrow> Inl e
      | None \<Rightarrow> if n \<le> length d then Inr (take n d) else Inl eof_text)"

section \<open>Updates\<close>

definition set_node :: "location \<Rightarrow> fs_node option \<Rightarrow> fs_state \<Rightarrow> fs_state" where
  "set_node l n s = s\<lparr>fs_nodes := (fs_nodes s)(l := n)\<rparr>"

definition fs_mkdir :: "fs_state \<Rightarrow> string \<Rightarrow> fs_state \<times> (string + unit)" where
  "fs_mkdir s p =
     (case fs_fault s OpMkdir p of
        Some e \<Rightarrow> (s, Inl e)
      | None \<Rightarrow>
          (case fs_lookup s False p of
             Found l \<Rightarrow> (s, Inl eexist)
           | Absent l \<Rightarrow> (set_node l (Some (Directory (fs_dir_mode s))) s, Inr ())
           | Bad e \<Rightarrow> (s, Inl e)))"

text \<open>
  \<open>create_dir_all\<close>: try to make the directory; when its parent is missing make that
  first, then try again. An entry that is a directory already is fine.
\<close>

definition no_tree :: string where
  "no_tree = ''failed to create whole tree''"

function fs_create_dir_all :: "fs_state \<Rightarrow> string \<Rightarrow> fs_state \<times> (string + unit)" where
  "fs_create_dir_all s p =
     (if p = [] then (s, Inr ())
      else (case fs_mkdir s p of
        (s1, Inr u) \<Rightarrow> (s1, Inr ())
      | (s1, Inl e) \<Rightarrow>
          if e \<noteq> enoent then (if fs_is_dir s1 p then (s1, Inr ()) else (s1, Inl e))
          else (case path_parent p of
            None \<Rightarrow> (s1, Inl no_tree)
          | Some q \<Rightarrow>
              (case fs_create_dir_all s1 q of
                (s2, Inl e2) \<Rightarrow> (s2, Inl e2)
              | (s2, Inr u) \<Rightarrow>
                  (case fs_mkdir s2 p of
                    (s3, Inr u) \<Rightarrow> (s3, Inr ())
                  | (s3, Inl e3) \<Rightarrow> if fs_is_dir s3 p then (s3, Inr ()) else (s3, Inl e3))))))"
  by pat_completeness auto
termination
  by (relation "measure (\<lambda>(s, p). length p)") (auto dest: path_parent_shorter)

declare fs_create_dir_all.simps [simp del]

definition chmod_node :: "nat \<Rightarrow> fs_node \<Rightarrow> fs_node" where
  "chmod_node m n = (case n of RegFile d _ \<Rightarrow> RegFile d m | Directory _ \<Rightarrow> Directory m | Symlink t \<Rightarrow> Symlink t)"

definition fs_set_permissions :: "fs_state \<Rightarrow> string \<Rightarrow> nat \<Rightarrow> fs_state \<times> (string + unit)" where
  "fs_set_permissions s p m =
     (case fs_fault s OpChmod p of
        Some e \<Rightarrow> (s, Inl e)
      | None \<Rightarrow>
          (case fs_lookup s True p of
             Found l \<Rightarrow> (set_node l (map_option (chmod_node m) (fs_nodes s l)) s, Inr ())
           | Absent l \<Rightarrow> (s, Inl enoent)
           | Bad e \<Rightarrow> (s, Inl e)))"

text \<open>
  \<open>fs::write\<close> opens (creating or truncating, through links) and then writes. The write
  may fail part way: \<open>fs_short_write\<close> says after how many bytes.
\<close>

definition fs_write_loc :: "fs_state \<Rightarrow> string \<Rightarrow> string + location" where
  "fs_write_loc s p =
     (case fs_fault s OpOpen p of
        Some e \<Rightarrow> Inl e
      | None \<Rightarrow>
          (case fs_lookup s True p of
             Found l \<Rightarrow> (case fs_nodes s l of Some (RegFile d m) \<Rightarrow> Inr l | _ \<Rightarrow> Inl eisdir)
           | Absent l \<Rightarrow> Inr l
           | Bad e \<Rightarrow> Inl e))"

definition file_with :: "fs_state \<Rightarrow> location \<Rightarrow> bytes \<Rightarrow> fs_node" where
  "file_with s l d = RegFile d (case fs_nodes s l of Some (RegFile _ m) \<Rightarrow> m | _ \<Rightarrow> fs_file_mode s)"

definition fs_write :: "fs_state \<Rightarrow> string \<Rightarrow> bytes \<Rightarrow> fs_state \<times> (string + unit)" where
  "fs_write s p d =
     (case fs_write_loc s p of
        Inl e \<Rightarrow> (s, Inl e)
      | Inr l \<Rightarrow>
          (case fs_fault s OpWrite p of
             None \<Rightarrow> (set_node l (Some (file_with s l d)) s, Inr ())
           | Some e \<Rightarrow>
               (set_node l (Some (file_with s l (take (unwrap_or 0 (fs_short_write s p)) d))) s, Inl e)))"

text \<open>The states a crash may leave behind while \<open>fs::write\<close> runs: any prefix written.\<close>

definition fs_write_states :: "fs_state \<Rightarrow> string \<Rightarrow> bytes \<Rightarrow> fs_state list" where
  "fs_write_states s p d =
     (case fs_write_loc s p of
        Inl e \<Rightarrow> [s]
      | Inr l \<Rightarrow> map (\<lambda>k. set_node l (Some (file_with s l (take k d))) s) [0..<Suc (length d)])"

text \<open>
  \<open>rename\<close> of a regular file: links at the last component are not followed, an existing
  file is replaced in one step, a directory is not.
\<close>

definition fs_rename :: "fs_state \<Rightarrow> string \<Rightarrow> string \<Rightarrow> fs_state \<times> (string + unit)" where
  "fs_rename s a b =
     (case fs_fault s OpRename b of
        Some e \<Rightarrow> (s, Inl e)
      | None \<Rightarrow>
          (case fs_lookup s False a of
             Found l \<Rightarrow>
               (case fs_lookup s False b of
                  Found l' \<Rightarrow>
                    if is_dir_at (fs_nodes s) l' \<and> \<not> is_dir_at (fs_nodes s) l then (s, Inl eisdir)
                    else if l = l' then (s, Inr ())
                    else (set_node l None (set_node l' (fs_nodes s l) s), Inr ())
                | Absent l' \<Rightarrow> (set_node l None (set_node l' (fs_nodes s l) s), Inr ())
                | Bad e \<Rightarrow> (s, Inl e))
           | Absent l \<Rightarrow> (s, Inl enoent)
           | Bad e \<Rightarrow> (s, Inl e)))"

definition fs_remove_file :: "fs_state \<Rightarrow> string \<Rightarrow> fs_state \<times> (string + unit)" where
  "fs_remove_file s p =
     (case fs_fault s OpRemove p of
        Some e \<Rightarrow> (s, Inl e)
      | None \<Rightarrow>
          (case fs_lookup s False p of
             Found l \<Rightarrow> if is_dir_at (fs_nodes s) l then (s, Inl eisdir) else (set_node l None s, Inr ())
           | Absent l \<Rightarrow> (s, Inl enoent)
           | Bad e \<Rightarrow> (s, Inl e)))"

section \<open>Concrete file systems\<close>

text \<open>A file system from a list of its entries, without failures.\<close>

definition fs_of_list :: "(location \<times> fs_node) list \<Rightarrow> fs_state" where
  "fs_of_list nodes =
     \<lparr>fs_nodes = map_of (([], Directory 493) # nodes), fs_cwd = [], fs_fault = (\<lambda>_ _. None),
      fs_short_write = (\<lambda>_. None), fs_dir_mode = 493, fs_file_mode = 420\<rparr>"

end
