(* ===== verification/Hash_Map.thy ===== *)
theory Hash_Map
  imports Safa_Prelude
begin

text \<open>
  Hash maps (\<open>HashMap\<close>, \<open>DashMap\<close>) as association lists with distinct keys, in the
  order in which the map would be iterated. Nothing is assumed about that order, so a
  theorem for every such list covers every iteration order. The interface the rest of the
  development relies on is the locale \<open>hash_map\<close>.
\<close>

type_synonym ('k, 'v) hmap = "('k \<times> 'v) list"

definition hm_wf :: "('k, 'v) hmap \<Rightarrow> bool" where
  "hm_wf m = distinct (map fst m)"

definition hm_get :: "('k, 'v) hmap \<Rightarrow> 'k \<Rightarrow> 'v option" where
  "hm_get m k = map_of m k"

definition hm_insert :: "'k \<Rightarrow> 'v \<Rightarrow> ('k, 'v) hmap \<Rightarrow> ('k, 'v) hmap" where
  "hm_insert k v m = AList.update k v m"

definition hm_remove :: "'k \<Rightarrow> ('k, 'v) hmap \<Rightarrow> ('k, 'v) hmap" where
  "hm_remove k m = filter (\<lambda>(k', v). k' \<noteq> k) m"

definition hm_retain :: "('k \<Rightarrow> 'v \<Rightarrow> bool) \<Rightarrow> ('k, 'v) hmap \<Rightarrow> ('k, 'v) hmap" where
  "hm_retain P m = filter (\<lambda>(k, v). P k v) m"

definition hm_keys :: "('k, 'v) hmap \<Rightarrow> 'k list" where
  "hm_keys m = map fst m"

definition hm_len :: "('k, 'v) hmap \<Rightarrow> nat" where
  "hm_len m = length m"

text \<open>\<open>iter().collect()\<close> into a map: later pairs overwrite earlier ones.\<close>

definition hm_collect :: "('k \<times> 'v) list \<Rightarrow> ('k, 'v) hmap" where
  "hm_collect ps = foldl (\<lambda>m (k, v). hm_insert k v m) [] ps"

text \<open>\<open>entry(k).or_insert_with(v)\<close>.\<close>

definition hm_or_insert :: "'k \<Rightarrow> 'v \<Rightarrow> ('k, 'v) hmap \<Rightarrow> ('k, 'v) hmap" where
  "hm_or_insert k v m = (case hm_get m k of None \<Rightarrow> hm_insert k v m | Some _ \<Rightarrow> m)"

section \<open>The interface of a map\<close>

locale hash_map =
  fixes get :: "'m \<Rightarrow> 'k \<Rightarrow> 'v option"
    and insert :: "'k \<Rightarrow> 'v \<Rightarrow> 'm \<Rightarrow> 'm"
    and remove :: "'k \<Rightarrow> 'm \<Rightarrow> 'm"
    and len :: "'m \<Rightarrow> nat"
    and keys :: "'m \<Rightarrow> 'k list"
    and wf :: "'m \<Rightarrow> bool"
  assumes get_insert: "get (insert k v m) k' = (if k' = k then Some v else get m k')"
    and get_remove: "get (remove k m) k' = (if k' = k then None else get m k')"
    and wf_insert: "wf m \<Longrightarrow> wf (insert k v m)"
    and wf_remove: "wf m \<Longrightarrow> wf (remove k m)"
    and len_insert: "len (insert k v m) = (if get m k = None then Suc (len m) else len m)"
    and len_remove: "wf m \<Longrightarrow> len (remove k m) = (if get m k = None then len m else len m - 1)"
    and keys_get: "k \<in> set (keys m) \<longleftrightarrow> get m k \<noteq> None"
    and len_keys: "len m = length (keys m)"
begin

lemma get_insert_same: "get (insert k v m) k = Some v"
  by (simp add: get_insert)

lemma get_insert_other: "k' \<noteq> k \<Longrightarrow> get (insert k v m) k' = get m k'"
  by (simp add: get_insert)

lemma len_pos: "get m k = Some v \<Longrightarrow> 0 < len m"
  by (metis keys_get len_keys length_pos_if_in_set option.distinct(1))

text \<open>
  The bounded insertion used by caches: when the map is full, some entry is evicted
  first. The bound is kept whatever entry is chosen, and every other entry survives.
\<close>

lemma evict_insert_len:
  assumes "wf m" and "len m \<le> bound" and "0 < bound"
    and "get m victim \<noteq> None"
  shows "len (insert k v (if bound \<le> len m then remove victim m else m)) \<le> bound"
  using assms by (auto simp: len_insert len_remove get_remove split: if_splits)

lemma evict_insert_get:
  assumes "k' \<noteq> victim"
  shows "get (insert k v (if full then remove victim m else m)) k' =
         (if k' = k then Some v else get m k')"
  using assms by (auto simp: get_insert get_remove)

end

section \<open>Association lists provide it\<close>

lemma hm_get_insert [hmap_simps]: "hm_get (hm_insert k v m) k' = (if k' = k then Some v else hm_get m k')"
  by (simp add: hm_get_def hm_insert_def AList.update_conv')

lemma hm_get_remove [hmap_simps]: "hm_get (hm_remove k m) k' = (if k' = k then None else hm_get m k')"
  by (induction m) (auto simp: hm_get_def hm_remove_def)

lemma hm_get_Nil [hmap_simps]: "hm_get [] k = None"
  by (simp add: hm_get_def)

lemma hm_get_Cons [hmap_simps]: "hm_get ((k', v) # m) k = (if k' = k then Some v else hm_get m k)"
  by (simp add: hm_get_def)

lemma hm_keys_get: "k \<in> set (hm_keys m) \<longleftrightarrow> hm_get m k \<noteq> None"
  by (auto simp: hm_keys_def hm_get_def dom_map_of_conv_image_fst map_of_eq_None_iff)

lemma hm_get_mem: "hm_get m k = Some v \<Longrightarrow> (k, v) \<in> set m"
  by (simp add: hm_get_def map_of_SomeD)

lemma hm_mem_get: "hm_wf m \<Longrightarrow> (k, v) \<in> set m \<longleftrightarrow> hm_get m k = Some v"
  by (simp add: hm_wf_def hm_get_def)

lemma hm_wf_Nil [simp]: "hm_wf []"
  by (simp add: hm_wf_def)

lemma hm_wf_insert [simp]: "hm_wf m \<Longrightarrow> hm_wf (hm_insert k v m)"
  by (simp add: hm_wf_def hm_insert_def AList.distinct_update)

lemma hm_wf_retain [simp]: "hm_wf m \<Longrightarrow> hm_wf (hm_retain P m)"
  by (auto simp: hm_wf_def hm_retain_def distinct_map intro: inj_on_subset)

lemma hm_wf_remove [simp]: "hm_wf m \<Longrightarrow> hm_wf (hm_remove k m)"
  by (auto simp: hm_wf_def hm_remove_def distinct_map intro: inj_on_subset)

lemma hm_get_retain [hmap_simps]:
  "hm_wf m \<Longrightarrow> hm_get (hm_retain P m) k =
     (case hm_get m k of None \<Rightarrow> None | Some v \<Rightarrow> if P k v then Some v else None)"
  by (induction m) (force simp: hm_wf_def hm_get_def hm_retain_def map_of_eq_None_iff
      split: option.splits)+

lemma hm_len_insert [hmap_simps]:
  "hm_len (hm_insert k v m) = (if hm_get m k = None then Suc (hm_len m) else hm_len m)"
  by (induction m) (auto simp: hm_len_def hm_insert_def hm_get_def)

lemma hm_len_retain [hmap_simps]: "hm_len (hm_retain P m) \<le> hm_len m"
  by (simp add: hm_len_def hm_retain_def)

lemma hm_len_remove [hmap_simps]:
  "hm_wf m \<Longrightarrow> hm_len (hm_remove k m) = (if hm_get m k = None then hm_len m else hm_len m - 1)"
proof (induction m)
  case Nil
  then show ?case by (simp add: hm_len_def hm_remove_def)
next
  case (Cons p m)
  obtain k' v where p: "p = (k', v)" by fastforce
  show ?case
  proof (cases "k' = k")
    case True
    with Cons.prems p have "filter (\<lambda>(k', v). k' \<noteq> k) m = m"
      by (auto simp: hm_wf_def filter_id_conv rev_image_eqI)
    with True p show ?thesis by (simp add: hm_len_def hm_remove_def hm_get_def)
  next
    case False
    with Cons p have ih: "hm_len (hm_remove k m) = (if hm_get m k = None then hm_len m else hm_len m - 1)"
      by (simp add: hm_wf_def)
    have "0 < length m" if "hm_get m k \<noteq> None"
      using that by (cases m) (auto simp: hm_get_def)
    with ih False p show ?thesis by (auto simp: hm_len_def hm_remove_def hm_get_def)
  qed
qed

interpretation hm: hash_map hm_get hm_insert hm_remove hm_len hm_keys hm_wf
  by unfold_locales
    (simp_all add: hmap_simps hm_keys_get, simp add: hm_len_def hm_keys_def)

section \<open>Collecting and default entries\<close>

lemma hm_wf_foldl_insert:
  "hm_wf m \<Longrightarrow> hm_wf (foldl (\<lambda>m (k, v). hm_insert k v m) m ps)"
  by (induction ps arbitrary: m) (auto split: prod.splits)

lemma hm_wf_collect [simp]: "hm_wf (hm_collect ps)"
  by (simp add: hm_collect_def hm_wf_foldl_insert)

text \<open>The last pair for a key wins.\<close>

lemma hm_get_foldl_insert:
  "hm_get (foldl (\<lambda>m (k, v). hm_insert k v m) m ps) k =
     (case map_of (rev ps) k of Some v \<Rightarrow> Some v | None \<Rightarrow> hm_get m k)"
  by (induction ps arbitrary: m)
    (auto simp: hmap_simps map_add_def split: option.splits)

lemma hm_get_collect_last: "hm_get (hm_collect ps) k = map_of (rev ps) k"
  by (simp add: hm_collect_def hm_get_foldl_insert hmap_simps split: option.splits)

lemma map_of_rev_distinct: "distinct (map fst ps) \<Longrightarrow> map_of (rev ps) k = map_of ps k"
proof (induction ps)
  case (Cons p ps)
  obtain k' v where p: "p = (k', v)" by fastforce
  with Cons.prems have "map_of ps k' = None" by (auto simp: map_of_eq_None_iff)
  with Cons p show ?case by (auto simp: map_add_def split: option.splits)
qed simp

lemma hm_get_collect: "hm_wf ps \<Longrightarrow> hm_get (hm_collect ps) k = hm_get ps k"
  unfolding hm_get_collect_last hm_wf_def
  by (simp add: map_of_rev_distinct hm_get_def)

lemma hm_get_or_insert [hmap_simps]:
  "hm_get (hm_or_insert k v m) k' =
     (if k' = k \<and> hm_get m k = None then Some v else hm_get m k')"
  by (auto simp: hm_or_insert_def hmap_simps split: option.splits)

lemma hm_wf_or_insert [simp]: "hm_wf m \<Longrightarrow> hm_wf (hm_or_insert k v m)"
  by (simp add: hm_or_insert_def split: option.splits)

end
