(* ===== verification/Errors.thy ===== *)
theory Errors
  imports Rust_Str Hash_Map
begin

text \<open>
  \<open>safa-core/src/errors.rs\<close>: the error type, its display strings and the HTTP status
  and JSON body each error is answered with. JSON values are \<open>serde_json::Value\<close>s;
  their text is produced by \<open>serde_json\<close>, which is not part of the repository.
\<close>

datatype json =
    JNull
  | JBool bool
  | JNum int
  | JStr string
  | JArr "json list"
  | JObj "(string \<times> json) list"

datatype ama_error =
    BadRequest string
  | Impossible
  | Validation string string
  | Conflict string
  | PayloadTooLarge
  | UnsupportedMediaType
  | RateLimited
  | ServiceUnavailable string

definition error_body :: "string \<Rightarrow> string \<Rightarrow> json" where
  "error_body cls msg =
     JObj [(''status'', JStr ''error''), (''error_class'', JStr cls), (''message'', JStr msg)]"

fun http_status_and_body :: "ama_error \<Rightarrow> nat \<times> json" where
  "http_status_and_body Impossible = (403, JObj [(''status'', JStr ''impossible'')])"
| "http_status_and_body (BadRequest m) = (400, error_body ''bad_request'' m)"
| "http_status_and_body (Validation c m) = (422, error_body c m)"
| "http_status_and_body (Conflict m) = (409, error_body ''conflict'' m)"
| "http_status_and_body PayloadTooLarge =
     (413, error_body ''payload_too_large'' ''payload exceeds limit'')"
| "http_status_and_body UnsupportedMediaType =
     (415, error_body ''unsupported_media_type'' ''expected application/json'')"
| "http_status_and_body RateLimited = (429, error_body ''rate_limited'' ''rate limit exceeded'')"
| "http_status_and_body (ServiceUnavailable m) = (503, error_body ''service_unavailable'' m)"

text \<open>The \<open>Display\<close> text the \<open>#[error(..)]\<close> attributes define.\<close>

fun ama_error_display :: "ama_error \<Rightarrow> string" where
  "ama_error_display (BadRequest m) = ''malformed request: '' @ m"
| "ama_error_display Impossible = ''impossible''"
| "ama_error_display (Validation c m) = ''validation error: '' @ m"
| "ama_error_display (Conflict m) = ''conflict: '' @ m"
| "ama_error_display PayloadTooLarge = ''payload too large''"
| "ama_error_display UnsupportedMediaType = ''unsupported media type''"
| "ama_error_display RateLimited = ''rate limit exceeded''"
| "ama_error_display (ServiceUnavailable m) = ''service unavailable: '' @ m"

definition http_status :: "ama_error \<Rightarrow> nat" where
  "http_status e = fst (http_status_and_body e)"

lemma http_status_range: "http_status e \<in> {400, 403, 409, 413, 415, 422, 429, 503}"
  by (cases e) (simp_all add: http_status_def)

lemma http_status_403_iff: "http_status e = 403 \<longleftrightarrow> e = Impossible"
  by (cases e) (simp_all add: http_status_def)

text \<open>
  A 403 answer carries nothing but the word \<open>impossible\<close>: two denials, for whatever reason,
  cannot be told apart by the client.
\<close>

lemma denial_opaque:
  "fst (http_status_and_body e) = 403 \<longleftrightarrow> http_status_and_body e = (403, JObj [(''status'', JStr ''impossible'')])"
  by (cases e) simp_all

end
