(* ===== verification/Config_Types.thy ===== *)
theory Config_Types
  imports Errors
begin

text \<open>
  The data of \<open>safa-core/src/config.rs\<close>: the structs the TOML files are read into, the
  validated configuration, and the defaults the \<open>#[serde(default)]\<close> attributes name.
  Numbers declared \<open>u64\<close> are words; \<open>usize\<close> limits, which are only compared with
  lengths, are natural numbers.
\<close>

section \<open>What is read from TOML\<close>

text \<open>
  The \<open>toml\<close> crate and the code \<open>serde\<close> derives turn text into these documents; an optional
  field is one the file may leave out.
\<close>

record raw_domain_policy =
  rdp_enabled :: bool
  rdp_max_magnitude :: u64

record raw_agent_doc =
  doc_agent_id :: string
  doc_max_capacity :: u64
  doc_rate_limit_per_window :: "u64 option"
  doc_rate_limit_window_secs :: "u64 option"
  doc_secret :: "string option"
  doc_domains :: "(string, raw_domain_policy) hmap"

record raw_agent =
  ra_agent_id :: string
  ra_max_capacity :: u64
  ra_rate_limit_per_window :: u64
  ra_rate_limit_window_secs :: u64
  ra_secret :: "string option"
  ra_domains :: "(string, raw_domain_policy) hmap"

definition default_rate_limit_per_window :: u64 where
  "default_rate_limit_per_window = 60"

definition default_rate_limit_window_secs :: u64 where
  "default_rate_limit_window_secs = 60"

definition raw_agent_of_doc :: "raw_agent_doc \<Rightarrow> raw_agent" where
  "raw_agent_of_doc d =
     \<lparr>ra_agent_id = doc_agent_id d,
      ra_max_capacity = doc_max_capacity d,
      ra_rate_limit_per_window =
        unwrap_or default_rate_limit_per_window (doc_rate_limit_per_window d),
      ra_rate_limit_window_secs =
        unwrap_or default_rate_limit_window_secs (doc_rate_limit_window_secs d),
      ra_secret = doc_secret d,
      ra_domains = doc_domains d\<rparr>"

section \<open>The validated configuration\<close>

record domain_policy =
  dp_enabled :: bool
  dp_max_magnitude :: u64

record domain_mapping =
  dm_domain_id :: string
  dm_max_payload_bytes :: "nat option"
  dm_validator :: "string option"
  dm_requires_intent :: bool

record intent_mapping =
  im_binary :: string
  im_args_template :: "string list"
  im_validators :: "string list"
  im_working_dir :: "string option"

record allowlist_entry =
  al_pattern :: string
  al_methods :: "string list"
  al_max_body_bytes :: "nat option"

record agent_config =
  ac_agent_id :: string
  ac_max_capacity :: u64
  ac_rate_limit_per_window :: u64
  ac_rate_limit_window_secs :: u64
  ac_domain_policies :: "(string, domain_policy) hmap"
  ac_secret :: "string option"

record boot_hashes =
  bh_config :: string
  bh_domains :: string
  bh_intents :: string
  bh_allowlist :: string
  bh_agents :: string

record ama_config =
  cf_workspace_root :: string
  cf_bind_host :: string
  cf_bind_port :: nat
  cf_log_level :: string
  cf_log_output :: string
  cf_slime_mode :: string
  cf_max_capacity :: u64
  cf_domain_policies :: "(string, domain_policy) hmap"
  cf_domain_mappings :: "(string, domain_mapping) hmap"
  cf_intents :: "(string, intent_mapping) hmap"
  cf_allowlist :: "allowlist_entry list"
  cf_agents :: "(string, agent_config) hmap"
  cf_default_agent_id :: "string option"
  cf_boot_hashes :: boot_hashes

end
