(* ===== verification/Newtypes.thy ===== *)
theory Newtypes
  imports Filesystem Config_Types
begin

text \<open>
  \<open>safa-core/src/newtypes.rs\<close>: the types whose values exist only when the checks of
  their constructors passed. Each constructor is modelled check by check, in the code's
  order, with its error class and message.
\<close>

definition invalid_target :: "string \<Rightarrow> ama_error" where
  "invalid_target msg = Validation ''invalid_target'' msg"

section \<open>Workspace paths\<close>

record workspace_path =
  wp_canonical :: string
  wp_relative :: string

text \<open>The separators the segment loop splits at: slash and backslash.\<close>

definition either_sep :: "char \<Rightarrow> bool" where
  "either_sep c \<longleftrightarrow> c = CHR ''/'' \<or> c = CHR 0x5C"

text \<open>The segment loop, over the remaining segments.\<close>

fun check_segments :: "string \<Rightarrow> string list \<Rightarrow> ama_error + unit" where
  "check_segments relative [] = Inr ()"
| "check_segments relative (seg # rest) =
     (if seg = ''..'' then Inl (invalid_target ''path traversal forbidden'')
      else if seg = [] \<and> contains_str relative ''//'' then
        Inl (invalid_target ''ambiguous path segment'')
      else check_segments relative rest)"

definition check_relative :: "string \<Rightarrow> ama_error + unit" where
  "check_relative relative =
     (if relative = [] then Inl (invalid_target ''empty path'')
      else if starts_with relative ''/'' \<or> starts_with relative [CHR 0x5C] \<or> CHR '':'' \<in> set relative then
        Inl (invalid_target ''absolute paths forbidden'')
      else check_segments relative (split_on either_sep relative))"

definition effective_root :: "string \<Rightarrow> string option \<Rightarrow> string" where
  "effective_root workspace_root agent_id =
     (case agent_id of Some aid \<Rightarrow> path_join workspace_root aid | None \<Rightarrow> workspace_root)"

text \<open>
  Resolution of the joined path: the path itself when it exists, else its parent plus the
  file name, else the joined path as written.
\<close>

definition resolve_joined :: "fs_state \<Rightarrow> string \<Rightarrow> ama_error + string" where
  "resolve_joined s joined =
     (if fs_exists s joined then
        map_err (\<lambda>e. invalid_target (''cannot resolve path: '' @ e)) (fs_canonicalize s joined)
      else (case path_parent joined of
        Some parent \<Rightarrow>
          if fs_exists s parent then
            rbind (map_err (\<lambda>e. invalid_target (''cannot resolve parent: '' @ e))
                     (fs_canonicalize s parent)) (\<lambda>canon_parent.
              case path_file_name joined of
                Some name \<Rightarrow> Inr (path_join canon_parent name)
              | None \<Rightarrow> Inl (invalid_target ''path has no filename component''))
          else Inr joined
      | None \<Rightarrow> Inr joined))"

definition effective_root_canon :: "fs_state \<Rightarrow> string \<Rightarrow> string" where
  "effective_root_canon s root =
     (if fs_exists s root then
        (case fs_canonicalize s root of Inr c \<Rightarrow> c | Inl e \<Rightarrow> root)
      else root)"

definition new_with_agent ::
  "fs_state \<Rightarrow> string \<Rightarrow> string \<Rightarrow> string option \<Rightarrow> ama_error + workspace_path" where
  "new_with_agent s relative workspace_root agent_id =
     rbind (check_relative relative) (\<lambda>_.
     (let root = effective_root workspace_root agent_id;
          joined = path_join root relative in
      rbind (resolve_joined s joined) (\<lambda>canonical.
        if \<not> path_starts_with canonical (effective_root_canon s root) then
          Inl (invalid_target ''path escapes workspace boundary (symlink detected)'')
        else Inr \<lparr>wp_canonical = canonical, wp_relative = relative\<rparr>)))"

definition workspace_path_new :: "fs_state \<Rightarrow> string \<Rightarrow> string \<Rightarrow> ama_error + workspace_path" where
  "workspace_path_new s relative workspace_root = new_with_agent s relative workspace_root None"

section \<open>Bounded bytes, shell arguments, intent ids\<close>

datatype bounded_bytes = BoundedBytes (bounded_str: string)

definition bounded_bytes_new :: "string \<Rightarrow> nat \<Rightarrow> ama_error + bounded_bytes" where
  "bounded_bytes_new data max_bytes =
     (if length data > max_bytes then
        Inl (Validation ''payload_too_large''
          (''payload '' @ show_nat (length data) @ '' bytes exceeds limit '' @ show_nat max_bytes))
      else Inr (BoundedBytes data))"

datatype safe_arg = SafeArg (safe_arg_str: string)

definition safe_arg_new :: "string \<Rightarrow> ama_error + safe_arg" where
  "safe_arg_new arg =
     (if arg = [] then Inl (Validation ''invalid_args'' ''empty argument'')
      else if CHR 0x00 \<in> set arg then Inl (Validation ''invalid_args'' ''null byte in argument'')
      else Inr (SafeArg arg))"

datatype intent_id = IntentId (intent_str: string)

definition intent_id_new :: "unicode \<Rightarrow> string \<Rightarrow> ama_error + intent_id" where
  "intent_id_new U iid =
     (if iid = [] then Inl (invalid_target ''empty intent id'')
      else if \<not> list_all (\<lambda>c. is_alphanumeric U c \<or> c = 95) (str_chars iid) then
        Inl (invalid_target ''intent id must be alphanumeric/underscore'')
      else Inr (IntentId iid))"

section \<open>Allowlisted URLs and methods\<close>

datatype allowlisted_url = AllowlistedUrl (url_str: string)

definition glob_match :: "string \<Rightarrow> string \<Rightarrow> bool" where
  "glob_match pat url =
     (case strip_suffix pat ''*'' of
        Some pre \<Rightarrow> starts_with url pre
      | None \<Rightarrow> url = pat)"

definition https_prefix :: string where
  "https_prefix = ''https://''"

definition allowlisted_url_new :: "string \<Rightarrow> allowlist_entry list \<Rightarrow> ama_error + allowlisted_url" where
  "allowlisted_url_new url allowlist =
     (if \<not> starts_with url https_prefix then Inl (invalid_target ''only https URLs allowed'')
      else if (case strip_prefix url https_prefix of
                 Some authority \<Rightarrow> CHR ''@'' \<in> set authority | None \<Rightarrow> False) then
        Inl (invalid_target ''userinfo in URL forbidden'')
      else if CHR ''#'' \<in> set url then Inl (invalid_target ''fragments in URL forbidden'')
      else if \<not> list_ex (\<lambda>e. glob_match (al_pattern e) url) allowlist then
        Inl (invalid_target ''URL not in allowlist'')
      else Inr (AllowlistedUrl url))"

datatype http_method = Get | Post

definition http_method_parse :: "unicode \<Rightarrow> string \<Rightarrow> ama_error + http_method" where
  "http_method_parse U s =
     (if to_uppercase U s = ''GET'' then Inr Get
      else if to_uppercase U s = ''POST'' then Inr Post
      else Inl (Validation ''invalid_method'' (''unsupported method: '' @ s)))"

section \<open>What the constructors guarantee\<close>

lemma check_segments_Inr_iff:
  "check_segments rel segs = Inr u \<longleftrightarrow>
     ''..'' \<notin> set segs \<and> ([] \<in> set segs \<longrightarrow> \<not> contains_str rel ''//'')"
  by (induction rel segs rule: check_segments.induct) auto

text \<open>Splitting at more separators cuts at least as finely.\<close>

lemma split_on_finer:
  assumes "\<And>c. P c \<Longrightarrow> Q c" and "\<forall>c \<in> set w. \<not> Q c" and "w \<in> set (split_on P s)"
  shows "w \<in> set (split_on Q s)"
  using assms by (auto simp: split_on_mem_iff)

lemma check_relative_Inr_iff:
  "check_relative rel = Inr u \<longleftrightarrow>
     rel \<noteq> [] \<and> hd rel \<noteq> CHR ''/'' \<and> hd rel \<noteq> CHR 0x5C \<and> CHR '':'' \<notin> set rel \<and>
     ''..'' \<notin> set (split_on either_sep rel) \<and>
     ([] \<in> set (split_on either_sep rel) \<longrightarrow> \<not> contains_str rel ''//'')"
  by (cases rel) (auto simp: check_relative_def starts_with_def check_segments_Inr_iff)

lemma check_relative_lexical:
  assumes "check_relative rel = Inr u"
  shows "\<not> is_absolute rel" and "''..'' \<notin> set (path_segs rel)"
proof -
  from assms show "\<not> is_absolute rel"
    by (cases rel) (auto simp: check_relative_Inr_iff is_absolute_def is_sep_def)
  from assms have "''..'' \<notin> set (split_on either_sep rel)"
    by (simp add: check_relative_Inr_iff)
  then show "''..'' \<notin> set (path_segs rel)"
    unfolding path_segs_def
    using split_on_finer [of is_sep either_sep "''..''" rel]
    by (auto simp: is_sep_def either_sep_def)
qed

lemma new_with_agent_Inr_iff:
  "new_with_agent s rel ws aid = Inr wp \<longleftrightarrow>
     check_relative rel = Inr () \<and>
     resolve_joined s (path_join (effective_root ws aid) rel) = Inr (wp_canonical wp) \<and>
     path_starts_with (wp_canonical wp) (effective_root_canon s (effective_root ws aid)) \<and>
     wp_relative wp = rel"
  by (auto simp: new_with_agent_def Let_def result_simps)

text \<open>
  The path as written never leaves the effective root: lexically, every component after
  the root's own is a name or vanishes.
\<close>

lemma joined_components:
  assumes "check_relative rel = Inr u" and "is_absolute root"
  shows "path_components (path_join root rel) = path_components root @ seg_components (path_segs rel)"
    and "ParentDir \<notin> set (seg_components (path_segs rel))"
  using check_relative_lexical [OF assms(1)] assms(2)
  by (auto simp: path_components_join ParentDir_in_seg_components)

lemma bounded_bytes_new_Inr_iff:
  "bounded_bytes_new data m = Inr b \<longleftrightarrow> b = BoundedBytes data \<and> length data \<le> m"
  by (auto simp: bounded_bytes_new_def)

lemma safe_arg_new_Inr_iff:
  "safe_arg_new arg = Inr a \<longleftrightarrow> a = SafeArg arg \<and> arg \<noteq> [] \<and> CHR 0x00 \<notin> set arg"
  by (auto simp: safe_arg_new_def)

lemma intent_id_new_Inr_iff:
  "intent_id_new U i = Inr x \<longleftrightarrow>
     x = IntentId i \<and> i \<noteq> [] \<and> (\<forall>c \<in> set (str_chars i). is_alphanumeric U c \<or> c = 95)"
  by (auto simp: intent_id_new_def list_all_iff)

lemma glob_match_iff:
  "glob_match pat url \<longleftrightarrow>
     (\<exists>pre rest. pat = pre @ ''*'' \<and> url = pre @ rest) \<or> ((\<forall>pre. pat \<noteq> pre @ ''*'') \<and> url = pat)"
proof (cases "strip_suffix pat ''*''")
  case None
  then have "\<forall>pre. pat \<noteq> pre @ ''*''" by (metis option.distinct(1) strip_suffix_Some)
  with None show ?thesis by (auto simp: glob_match_def)
next
  case (Some pre)
  then have "pat = pre @ ''*''" by (simp add: strip_suffix_Some)
  with Some show ?thesis by (auto simp: glob_match_def starts_with_def prefix_def)
qed

lemma allowlisted_url_new_Inr_iff:
  "allowlisted_url_new url al = Inr u \<longleftrightarrow>
     u = AllowlistedUrl url \<and> (\<exists>rest. url = https_prefix @ rest \<and> CHR ''@'' \<notin> set rest) \<and>
     CHR ''#'' \<notin> set url \<and> (\<exists>e \<in> set al. glob_match (al_pattern e) url)"
  by (auto simp: allowlisted_url_new_def starts_with_def prefix_def list_ex_iff strip_prefix_Some
      split: option.splits) (auto simp: strip_prefix_def)

end
