(* ===== verification/Actuator_File.thy ===== *)
theory Actuator_File
  imports Newtypes
begin

text \<open>
  \<open>safa-core/src/actuator/file.rs\<close>: the symlink check, the atomic write (temporary file, then
  rename), the bounded read and the removal of orphaned temporary files. Each operation takes
  and returns the file system; \<open>file_write_states\<close> lists what a crash during a write may
  leave. Paths are taken to be UTF-8, as the strings they are built from are.
\<close>

definition unavailable :: "string \<Rightarrow> ama_error" where
  "unavailable msg = ServiceUnavailable msg"

text \<open>\<open>0o755\<close> and \<open>0o644\<close>.\<close>

definition mode_755 :: nat where
  "mode_755 = 7 * 64 + 5 * 8 + 5"

definition mode_644 :: nat where
  "mode_644 = 6 * 64 + 4 * 8 + 4"

section \<open>The symlink check\<close>

text \<open>The text \<open>PathBuf::push\<close> appends for a component.\<close>

fun component_str :: "component \<Rightarrow> string" where
  "component_str RootDir = ''/''"
| "component_str CurDir = ''.''"
| "component_str ParentDir = ''..''"
| "component_str (Normal n) = n"

fun verify_components :: "fs_state \<Rightarrow> string \<Rightarrow> component list \<Rightarrow> ama_error + unit" where
  "verify_components s check [] = Inr ()"
| "verify_components s check (c # cs) =
     (let check' = path_join check (component_str c) in
      if fs_exists s check' then
        rbind (map_err (\<lambda>e. unavailable (''lstat failed on '' @ check' @ '': '' @ e)) (fs_lstat s check'))
          (\<lambda>meta.
            if node_is_symlink meta then Inl (invalid_target (''symlink in path: '' @ check'))
            else verify_components s check' cs)
      else verify_components s check' cs)"

definition verify_no_symlinks :: "fs_state \<Rightarrow> string \<Rightarrow> ama_error + unit" where
  "verify_no_symlinks s path = verify_components s [] (path_components path)"

section \<open>Writing\<close>

text \<open>The checks before anything is changed.\<close>

definition write_checks :: "fs_state \<Rightarrow> string \<Rightarrow> ama_error + unit" where
  "write_checks s target =
     rbind (verify_no_symlinks s target) (\<lambda>_.
       if fs_exists s target then
         rbind (map_err (\<lambda>e. unavailable (''cannot stat target: '' @ e)) (fs_lstat s target))
           (\<lambda>meta. if node_is_file meta then Inr ()
                    else Inl (invalid_target ''target is not a regular file''))
       else Inr ())"

definition ensure_parent :: "fs_state \<Rightarrow> string \<Rightarrow> fs_state \<times> (ama_error + unit)" where
  "ensure_parent s target =
     (case path_parent target of
        None \<Rightarrow> (s, Inr ())
      | Some parent \<Rightarrow>
          if fs_exists s parent then (s, Inr ())
          else (case fs_create_dir_all s parent of
            (s1, Inl e) \<Rightarrow> (s1, Inl (unavailable (''cannot create directories: '' @ e)))
          | (s1, Inr u) \<Rightarrow>
              (case fs_set_permissions s1 parent mode_755 of
                (s2, Inl e) \<Rightarrow> (s2, Inl (unavailable (''cannot set dir permissions: '' @ e)))
              | (s2, Inr u) \<Rightarrow> (s2, Inr ()))))"

definition tmp_path :: "string \<Rightarrow> string \<Rightarrow> string" where
  "tmp_path target action_id =
     path_with_file_name target
       (unwrap_or [] (path_file_name target) @ ''.ama.'' @ action_id @ ''.tmp'')"

text \<open>Write, set the mode (whose failure is ignored), rename; the temporary file is removed on failure.\<close>

definition write_and_rename ::
  "fs_state \<Rightarrow> string \<Rightarrow> string \<Rightarrow> string \<Rightarrow> fs_state \<times> (ama_error + u64)" where
  "write_and_rename s target tmp content =
     (case fs_write s tmp content of
        (s1, Inl e) \<Rightarrow> (fst (fs_remove_file s1 tmp), Inl (unavailable (''write failed: '' @ e)))
      | (s1, Inr u) \<Rightarrow>
          (let s2 = fst (fs_set_permissions s1 tmp mode_644) in
           case fs_rename s2 tmp target of
             (s3, Inl e) \<Rightarrow> (fst (fs_remove_file s3 tmp), Inl (unavailable (''atomic rename failed: '' @ e)))
           | (s3, Inr u) \<Rightarrow> (s3, Inr (word_of_nat (length content)))))"

definition file_write ::
  "fs_state \<Rightarrow> workspace_path \<Rightarrow> bounded_bytes \<Rightarrow> string \<Rightarrow> fs_state \<times> (ama_error + u64)" where
  "file_write s path content action_id =
     (let target = wp_canonical path in
      case write_checks s target of
        Inl e \<Rightarrow> (s, Inl e)
      | Inr u \<Rightarrow>
          (case ensure_parent s target of
            (s1, Inl e) \<Rightarrow> (s1, Inl e)
          | (s1, Inr u) \<Rightarrow>
              write_and_rename s1 target (tmp_path target action_id) (bounded_str content)))"

text \<open>
  The states a crash may leave: before anything, after the directories, while and after the
  temporary file is written, after its mode is set, and after each way the call can end.
\<close>

definition file_write_states ::
  "fs_state \<Rightarrow> workspace_path \<Rightarrow> bounded_bytes \<Rightarrow> string \<Rightarrow> fs_state list" where
  "file_write_states s path content action_id =
     (let target = wp_canonical path; tmp = tmp_path target action_id in
      case write_checks s target of
        Inl e \<Rightarrow> [s]
      | Inr u \<Rightarrow>
          (case ensure_parent s target of
            (s1, Inl e) \<Rightarrow> [s, s1]
          | (s1, Inr u) \<Rightarrow>
              [s, s1] @ fs_write_states s1 tmp (bounded_str content) @
              (case fs_write s1 tmp (bounded_str content) of
                 (s2, Inl e) \<Rightarrow> [s2]
               | (s2, Inr u) \<Rightarrow> [s2, fst (fs_set_permissions s2 tmp mode_644)]) @
              [fst (file_write s path content action_id)]))"

section \<open>Reading\<close>

record file_read_result =
  fr_content :: string
  fr_bytes_returned :: u64
  fr_total_bytes :: u64
  fr_truncated :: bool

definition file_read :: "fs_state \<Rightarrow> workspace_path \<Rightarrow> nat \<Rightarrow> ama_error + file_read_result" where
  "file_read s path max_bytes =
     (let target = wp_canonical path in
      rbind (verify_no_symlinks s target) (\<lambda>_.
      if \<not> fs_exists s target then Inl (unavailable ''file does not exist'')
      else
      rbind (map_err (\<lambda>e. unavailable (''cannot stat: '' @ e)) (fs_lstat s target)) (\<lambda>meta.
      if \<not> node_is_file meta then Inl (invalid_target ''not a regular file'')
      else
      let total_bytes = node_len meta in
      rbind (map_err (\<lambda>e. unavailable (''cannot open: '' @ e)) (fs_open_read s target)) (\<lambda>file.
      let read_size = min total_bytes max_bytes in
      rbind (map_err (\<lambda>e. unavailable (''read error: '' @ e)) (fs_read_exact s target file read_size))
        (\<lambda>buf.
      rbind (map_err (\<lambda>_. Validation ''encoding_error''
               ''file content is not valid UTF-8 (P0 is text-only)'') (from_utf8 buf)) (\<lambda>content.
      Inr \<lparr>fr_content = content, fr_bytes_returned = word_of_nat (length content),
           fr_total_bytes = word_of_nat total_bytes, fr_truncated = (total_bytes > max_bytes)\<rparr>))))))"

section \<open>Removing orphaned temporary files\<close>

text \<open>
  \<open>ls\<close> is \<open>fs::read_dir\<close>: an error, or the entries in the order the kernel returns them,
  each a name or an error. The recursion follows directory links as \<open>is_dir\<close> does, so its
  depth is bounded only by the tree and the kernel's link limit: it takes fuel.
\<close>

type_synonym lister = "fs_state \<Rightarrow> string \<Rightarrow> string + (string + string) list"

fun walk_entries ::
  "(string \<Rightarrow> (string + string list) option) \<Rightarrow> fs_state \<Rightarrow> string \<Rightarrow> (string + string) list
    \<Rightarrow> string list \<Rightarrow> (string + string list) option" where
  "walk_entries walk s dir [] results = Some (Inr results)"
| "walk_entries walk s dir (Inl e # es) results = Some (Inl e)"
| "walk_entries walk s dir (Inr name # es) results =
     (let path = path_join dir name in
      if fs_is_dir s path then
        (case walk path of
           None \<Rightarrow> None
         | Some (Inl e) \<Rightarrow> Some (Inl e)
         | Some (Inr sub) \<Rightarrow> walk_entries walk s dir es (results @ sub))
      else walk_entries walk s dir es (results @ [path]))"

fun walkdir :: "nat \<Rightarrow> lister \<Rightarrow> fs_state \<Rightarrow> string \<Rightarrow> (string + string list) option" where
  "walkdir 0 ls s dir = None"
| "walkdir (Suc n) ls s dir =
     (if fs_is_dir s dir then
        (case ls s dir of
           Inl e \<Rightarrow> Some (Inl e)
         | Inr entries \<Rightarrow> walk_entries (walkdir n ls s) s dir entries [])
      else Some (Inr []))"

lemma walkdir_code [code]:
  "walkdir n ls s dir =
     (if n = 0 then None
      else if fs_is_dir s dir then
        (case ls s dir of
           Inl e \<Rightarrow> Some (Inl e)
         | Inr entries \<Rightarrow> walk_entries (walkdir (n - 1) ls s) s dir entries [])
      else Some (Inr []))"
  by (cases n) (simp_all split: sum.splits)

definition is_orphan_name :: "string \<Rightarrow> bool" where
  "is_orphan_name path =
     (case path_file_name path of
        Some name \<Rightarrow> contains_str name ''.ama.'' \<and> ends_with name ''.tmp''
      | None \<Rightarrow> False)"

fun remove_orphans :: "fs_state \<Rightarrow> string list \<Rightarrow> nat \<Rightarrow> fs_state \<times> nat" where
  "remove_orphans s [] cleaned = (s, cleaned)"
| "remove_orphans s (path # paths) cleaned =
     (if is_orphan_name path then
        (case fs_remove_file s path of
           (s1, Inr u) \<Rightarrow> remove_orphans s1 paths (cleaned + 1)
         | (s1, Inl e) \<Rightarrow> remove_orphans s1 paths cleaned)
      else remove_orphans s paths cleaned)"

definition cleanup_orphan_temps ::
  "nat \<Rightarrow> lister \<Rightarrow> fs_state \<Rightarrow> string \<Rightarrow> (fs_state \<times> nat) option" where
  "cleanup_orphan_temps fuel ls s workspace_root =
     (case walkdir fuel ls s workspace_root of
        None \<Rightarrow> None
      | Some (Inl e) \<Rightarrow> Some (s, 0)
      | Some (Inr entries) \<Rightarrow> Some (remove_orphans s entries 0))"

end
