(* ===== verification/Agent_Config.thy ===== *)
theory Agent_Config
  imports Config_Types
begin

text \<open>
  \<open>AgentConfig::from_toml_str\<close> and \<open>load_agent_configs\<close> of \<open>safa-core/src/config.rs\<close>:
  the checks an agent file passes before the daemon boots, in the code's order.
\<close>

definition agent_id_char :: "unicode \<Rightarrow> nat \<Rightarrow> bool" where
  "agent_id_char U v \<longleftrightarrow> is_alphanumeric U v \<or> v = 95 \<or> v = 45"

definition policy_of_raw :: "raw_domain_policy \<Rightarrow> domain_policy" where
  "policy_of_raw r = \<lparr>dp_enabled = rdp_enabled r, dp_max_magnitude = rdp_max_magnitude r\<rparr>"

text \<open>The loop over the raw domains, in the map's iteration order.\<close>

fun agent_domains ::
  "string \<Rightarrow> u64 \<Rightarrow> (string, raw_domain_policy) hmap \<Rightarrow> (string, domain_policy) hmap
    \<Rightarrow> ama_error + (string, domain_policy) hmap" where
  "agent_domains aid cap [] acc = Inr acc"
| "agent_domains aid cap ((key, raw) # rest) acc =
     (let domain_id = replace_char CHR ''_'' CHR ''.'' key in
      if rdp_max_magnitude raw = 0 then
        Inl (ServiceUnavailable
          (''agent '' @ quoted aid @ '' domain '' @ quoted domain_id
             @ '': max_magnitude_per_action must be > 0''))
      else if rdp_max_magnitude raw > cap then
        Inl (ServiceUnavailable
          (''agent '' @ quoted aid @ '' domain '' @ quoted domain_id
             @ '': max_magnitude_per_action (''
             @ show_u64 (rdp_max_magnitude raw) @ '') > max_capacity ('' @ show_u64 cap @ '')''))
      else agent_domains aid cap rest (hm_insert domain_id (policy_of_raw raw) acc))"

definition check_secret :: "string \<Rightarrow> string option \<Rightarrow> ama_error + unit" where
  "check_secret aid secret =
     (case secret of
        None \<Rightarrow> Inr ()
      | Some s \<Rightarrow>
          if s = [] then
            Inl (ServiceUnavailable
              (''agent '' @ quoted aid @ '': secret must not be empty if specified''))
          else if length s < 32 then
            Inl (ServiceUnavailable
              (''agent '' @ quoted aid @ '': secret must be at least 32 characters''))
          else Inr ())"

definition agent_of_raw :: "unicode \<Rightarrow> raw_agent \<Rightarrow> ama_error + agent_config" where
  "agent_of_raw U agent =
     (if ra_agent_id agent = [] then
        Inl (ServiceUnavailable ''agent_id must not be empty'')
      else if \<not> list_all (agent_id_char U) (str_chars (ra_agent_id agent)) then
        Inl (ServiceUnavailable
          (''agent_id '' @ quoted (ra_agent_id agent)
             @ '' contains invalid characters (only alphanumeric, _, -)''))
      else if ra_max_capacity agent = 0 then
        Inl (ServiceUnavailable ''agent max_capacity must be > 0'')
      else if ra_rate_limit_per_window agent = 0 then
        Inl (ServiceUnavailable ''agent rate_limit_per_window must be > 0'')
      else if ra_rate_limit_window_secs agent = 0 then
        Inl (ServiceUnavailable ''agent rate_limit_window_secs must be > 0'')
      else
        rbind (agent_domains (ra_agent_id agent) (ra_max_capacity agent) (ra_domains agent) [])
          (\<lambda>policies.
        rbind (check_secret (ra_agent_id agent) (ra_secret agent)) (\<lambda>_.
        Inr \<lparr>ac_agent_id = ra_agent_id agent,
             ac_max_capacity = ra_max_capacity agent,
             ac_rate_limit_per_window = ra_rate_limit_per_window agent,
             ac_rate_limit_window_secs = ra_rate_limit_window_secs agent,
             ac_domain_policies = policies,
             ac_secret = ra_secret agent\<rparr>)))"

text \<open>\<open>toml\<close> is the TOML reader: an error text, or the document.\<close>

definition from_toml_str ::
  "unicode \<Rightarrow> (string \<Rightarrow> string + raw_agent_doc) \<Rightarrow> string \<Rightarrow> ama_error + agent_config" where
  "from_toml_str U toml s =
     rbind (map_err (\<lambda>e. ServiceUnavailable (''agent config parse error: '' @ e)) (toml s))
       (\<lambda>doc. agent_of_raw U (raw_agent_of_doc doc))"

text \<open>
  The loop of \<open>load_agent_configs\<close> over the \<open>.toml\<close> entries of the directory: a file is its
  path and either the error of reading it or its contents.
\<close>

type_synonym toml_file = "string \<times> (string + string)"

fun load_agent_files ::
  "unicode \<Rightarrow> (string \<Rightarrow> string + raw_agent_doc) \<Rightarrow> toml_file list \<Rightarrow> (string, agent_config) hmap
    \<Rightarrow> ama_error + (string, agent_config) hmap" where
  "load_agent_files U toml [] agents = Inr agents"
| "load_agent_files U toml ((path, contents) # rest) agents =
     rbind (map_err (\<lambda>e. ServiceUnavailable (''cannot read '' @ path @ '': '' @ e)) contents)
       (\<lambda>body.
     rbind (from_toml_str U toml body) (\<lambda>ac.
       if hm_get agents (ac_agent_id ac) \<noteq> None then
         Inl (ServiceUnavailable
           (''duplicate agent_id '' @ quoted (ac_agent_id ac) @ '' in agents directory''))
       else load_agent_files U toml rest (hm_insert (ac_agent_id ac) ac agents)))"

definition load_agent_configs ::
  "unicode \<Rightarrow> (string \<Rightarrow> string + raw_agent_doc) \<Rightarrow> string + toml_file list
    \<Rightarrow> ama_error + (string, agent_config) hmap" where
  "load_agent_configs U toml dir =
     rbind (map_err (\<lambda>e. ServiceUnavailable (''cannot read agents directory: '' @ e)) dir)
       (\<lambda>entries.
     if entries = [] then
       Inl (ServiceUnavailable ''agents directory contains no .toml files'')
     else load_agent_files U toml entries [])"

section \<open>What a loaded agent satisfies\<close>

definition wf_policy :: "u64 \<Rightarrow> domain_policy \<Rightarrow> bool" where
  "wf_policy cap p \<longleftrightarrow> 0 < dp_max_magnitude p \<and> dp_max_magnitude p \<le> cap"

definition wf_agent :: "unicode \<Rightarrow> agent_config \<Rightarrow> bool" where
  "wf_agent U a \<longleftrightarrow>
     ac_agent_id a \<noteq> [] \<and> list_all (agent_id_char U) (str_chars (ac_agent_id a)) \<and>
     0 < ac_max_capacity a \<and> 0 < ac_rate_limit_per_window a \<and> 0 < ac_rate_limit_window_secs a \<and>
     hm_wf (ac_domain_policies a) \<and>
     (\<forall>d p. hm_get (ac_domain_policies a) d = Some p \<longrightarrow>
        wf_policy (ac_max_capacity a) p \<and> CHR ''_'' \<notin> set d) \<and>
     (\<forall>s. ac_secret a = Some s \<longrightarrow> 32 \<le> length s)"

definition normal_policies :: "(string, raw_domain_policy) hmap \<Rightarrow> (string \<times> domain_policy) list" where
  "normal_policies raws = map (\<lambda>(k, r). (replace_char CHR ''_'' CHR ''.'' k, policy_of_raw r)) raws"

lemma agent_domains_Inr_iff:
  "agent_domains aid cap raws acc = Inr pols \<longleftrightarrow>
     (\<forall>(k, r) \<in> set raws. rdp_max_magnitude r \<noteq> 0 \<and> rdp_max_magnitude r \<le> cap) \<and>
     pols = foldl (\<lambda>m (k, v). hm_insert k v m) acc (normal_policies raws)"
  by (induction aid cap raws acc rule: agent_domains.induct)
    (auto simp: Let_def not_less normal_policies_def)

lemma agent_domains_Inl_class:
  "agent_domains aid cap raws acc = Inl e \<Longrightarrow> \<exists>m. e = ServiceUnavailable m"
  by (induction aid cap raws acc rule: agent_domains.induct) (auto simp: Let_def split: if_splits)

lemma check_secret_Inr_iff:
  "check_secret aid sec = Inr u \<longleftrightarrow> (\<forall>s. sec = Some s \<longrightarrow> 32 \<le> length s)"
  by (auto simp: check_secret_def split: option.splits)

lemma agent_domains_wf:
  assumes "agent_domains aid cap raws [] = Inr pols"
  shows "hm_wf pols"
    and "hm_get pols d = Some p \<Longrightarrow> wf_policy cap p \<and> CHR ''_'' \<notin> set d"
proof -
  from assms have pols: "pols = hm_collect (normal_policies raws)"
    and ok: "\<forall>(k, r) \<in> set raws. rdp_max_magnitude r \<noteq> 0 \<and> rdp_max_magnitude r \<le> cap"
    by (auto simp: agent_domains_Inr_iff hm_collect_def)
  from pols show "hm_wf pols" by simp
  assume "hm_get pols d = Some p"
  with pols have "(d, p) \<in> set (normal_policies raws)"
    by (auto simp: hm_get_collect_last dest: map_of_SomeD)
  then obtain k r where "(k, r) \<in> set raws" and "p = policy_of_raw r"
    and "d = replace_char CHR ''_'' CHR ''.'' k"
    by (auto simp: normal_policies_def)
  with ok show "wf_policy cap p \<and> CHR ''_'' \<notin> set d"
    by (auto simp: wf_policy_def policy_of_raw_def replace_char_notin word_gt_0)
qed

lemma agent_of_raw_Inr_iff:
  "agent_of_raw U r = Inr a \<longleftrightarrow>
     ra_agent_id r \<noteq> [] \<and> list_all (agent_id_char U) (str_chars (ra_agent_id r)) \<and>
     ra_max_capacity r \<noteq> 0 \<and> ra_rate_limit_per_window r \<noteq> 0 \<and> ra_rate_limit_window_secs r \<noteq> 0 \<and>
     (\<forall>(k, p) \<in> set (ra_domains r).
        rdp_max_magnitude p \<noteq> 0 \<and> rdp_max_magnitude p \<le> ra_max_capacity r) \<and>
     (\<forall>s. ra_secret r = Some s \<longrightarrow> 32 \<le> length s) \<and>
     a = \<lparr>ac_agent_id = ra_agent_id r, ac_max_capacity = ra_max_capacity r,
          ac_rate_limit_per_window = ra_rate_limit_per_window r,
          ac_rate_limit_window_secs = ra_rate_limit_window_secs r,
          ac_domain_policies = hm_collect (normal_policies (ra_domains r)),
          ac_secret = ra_secret r\<rparr>"
  unfolding agent_of_raw_def hm_collect_def
  by (auto simp: result_simps agent_domains_Inr_iff check_secret_Inr_iff)

lemma agent_of_raw_wf: "agent_of_raw U r = Inr a \<Longrightarrow> wf_agent U a"
proof -
  assume ok: "agent_of_raw U r = Inr a"
  then have "agent_domains (ra_agent_id r) (ra_max_capacity r) (ra_domains r) [] =
      Inr (ac_domain_policies a)" and "ac_max_capacity a = ra_max_capacity r"
    by (auto simp: agent_of_raw_Inr_iff agent_domains_Inr_iff hm_collect_def)
  note doms = agent_domains_wf [OF this(1)] this(2)
  from ok doms show ?thesis
    unfolding wf_agent_def by (auto simp: agent_of_raw_Inr_iff word_gt_0)
qed

lemma from_toml_str_wf: "from_toml_str U toml s = Inr a \<Longrightarrow> wf_agent U a"
  by (auto simp: from_toml_str_def result_simps dest: agent_of_raw_wf)

text \<open>An agent id names one directory: it has no separator and is not a dot entry.\<close>

lemma wf_agent_id_chars:
  assumes "wf_agent U a" and "(of_char c :: nat) < 128" and "c \<in> set (ac_agent_id a)"
  shows "agent_id_char U (of_char c)"
proof (rule str_chars_all_mem [of "ac_agent_id a"])
  show "\<forall>v \<in> set (str_chars (ac_agent_id a)). agent_id_char U v"
    using assms(1) by (simp add: wf_agent_def list_all_iff)
  show "\<not> agent_id_char U 0"
    by (simp add: agent_id_char_def is_alphanumeric_def ascii_alphanumeric_def)
qed (use assms in auto)

lemma wf_agent_id_no_sep:
  assumes "wf_agent U a"
  shows "CHR ''/'' \<notin> set (ac_agent_id a)" and "CHR ''.'' \<notin> set (ac_agent_id a)"
    and "ac_agent_id a \<noteq> []"
  using wf_agent_id_chars [OF assms, of "CHR ''/''"] wf_agent_id_chars [OF assms, of "CHR ''.''"] assms
  by (auto simp: agent_id_char_def is_alphanumeric_def ascii_alphanumeric_def wf_agent_def)

definition wf_agents :: "unicode \<Rightarrow> (string, agent_config) hmap \<Rightarrow> bool" where
  "wf_agents U agents \<longleftrightarrow>
     hm_wf agents \<and> (\<forall>aid a. hm_get agents aid = Some a \<longrightarrow> wf_agent U a \<and> ac_agent_id a = aid)"

lemma load_agent_files_wf:
  "wf_agents U agents \<Longrightarrow> load_agent_files U toml files agents = Inr agents' \<Longrightarrow> wf_agents U agents'"
proof (induction U toml files agents rule: load_agent_files.induct)
  case (2 U toml path contents rest agents)
  from "2.prems"(2) obtain doc ac where doc: "contents = Inr doc"
    and ac: "from_toml_str U toml doc = Inr ac" and new: "hm_get agents (ac_agent_id ac) = None"
    and rest: "load_agent_files U toml rest (hm_insert (ac_agent_id ac) ac agents) = Inr agents'"
    by (auto simp: result_simps split: if_splits)
  from "2.prems"(1) from_toml_str_wf [OF ac]
  have "wf_agents U (hm_insert (ac_agent_id ac) ac agents)"
    by (auto simp: wf_agents_def hmap_simps)
  with 2 doc ac new rest show ?case by auto
qed auto

section \<open>Properties\<close>

text \<open>Exactly which agent files are accepted: a non-empty id of letters, digits, underscores and
  hyphens, positive capacity and rate limits, every domain's magnitude limit between 1 and the
  capacity, enabled or not, and a secret, if there is one, of at least 32 bytes. Whatever is
  rejected is rejected as unavailable service.\<close>

theorem agent_accepted_iff:
  "((\<exists>a. agent_of_raw U r = Inr a) \<longleftrightarrow>
     ra_agent_id r \<noteq> [] \<and>
     list_all (\<lambda>c. is_alphanumeric U c \<or> c = of_char CHR ''_'' \<or> c = of_char CHR ''-'') (str_chars (ra_agent_id r)) \<and>
     0 < ra_max_capacity r \<and> 0 < ra_rate_limit_per_window r \<and> 0 < ra_rate_limit_window_secs r \<and>
     list_all (\<lambda>(k, p). 0 < rdp_max_magnitude p \<and> rdp_max_magnitude p \<le> ra_max_capacity r) (ra_domains r) \<and>
     (case ra_secret r of None \<Rightarrow> True | Some s \<Rightarrow> 32 \<le> length s)) \<and>
   (\<forall>e. agent_of_raw U r = Inl e \<longrightarrow> http_status e = 503)"
proof
  have chars: "agent_id_char U = (\<lambda>c. is_alphanumeric U c \<or> c = of_char CHR ''_'' \<or> c = of_char CHR ''-'')"
    by (auto simp: agent_id_char_def fun_eq_iff)
  show "(\<exists>a. agent_of_raw U r = Inr a) \<longleftrightarrow>
     ra_agent_id r \<noteq> [] \<and>
     list_all (\<lambda>c. is_alphanumeric U c \<or> c = of_char CHR ''_'' \<or> c = of_char CHR ''-'') (str_chars (ra_agent_id r)) \<and>
     0 < ra_max_capacity r \<and> 0 < ra_rate_limit_per_window r \<and> 0 < ra_rate_limit_window_secs r \<and>
     list_all (\<lambda>(k, p). 0 < rdp_max_magnitude p \<and> rdp_max_magnitude p \<le> ra_max_capacity r) (ra_domains r) \<and>
     (case ra_secret r of None \<Rightarrow> True | Some s \<Rightarrow> 32 \<le> length s)"
    unfolding agent_of_raw_Inr_iff chars word_gt_0 by (auto simp: list_all_iff split: option.splits)
  show "\<forall>e. agent_of_raw U r = Inl e \<longrightarrow> http_status e = 503"
    by (auto simp: agent_of_raw_def check_secret_def result_simps http_status_def
        split: if_splits option.splits dest!: agent_domains_Inl_class)
qed

text \<open>An accepted agent, and one rejected for the length of its secret.\<close>

theorem agent_accepted_iff_witness:
  "let U = \<lparr>wide_alphanumeric = (\<lambda>_. False), wide_upper = (\<lambda>c. [c])\<rparr>;
       r = \<lparr>ra_agent_id = ''ci-bot_1'', ra_max_capacity = 10, ra_rate_limit_per_window = 60,
            ra_rate_limit_window_secs = 60, ra_secret = Some ''short'',
            ra_domains = [(''fs_write'', \<lparr>rdp_enabled = True, rdp_max_magnitude = 5\<rparr>)]\<rparr>
   in agent_of_raw U r = Inl (ServiceUnavailable
        (''agent '' @ quoted ''ci-bot_1'' @ '': secret must be at least 32 characters'')) \<and>
      http_status (ServiceUnavailable
        (''agent '' @ quoted ''ci-bot_1'' @ '': secret must be at least 32 characters'')) = 503"
proof -
  let ?U = "\<lparr>wide_alphanumeric = (\<lambda>_. False), wide_upper = (\<lambda>c. [c])\<rparr>"
  let ?r = "\<lparr>ra_agent_id = ''ci-bot_1'', ra_max_capacity = 10, ra_rate_limit_per_window = 60,
            ra_rate_limit_window_secs = 60, ra_secret = Some ''short'',
            ra_domains = [(''fs_write'', \<lparr>rdp_enabled = True, rdp_max_magnitude = 5\<rparr>)]\<rparr>"
  let ?e = "ServiceUnavailable (''agent '' @ quoted ''ci-bot_1'' @ '': secret must be at least 32 characters'')"
  have "agent_of_raw ?U ?r = Inl ?e" by code_simp
  moreover have "http_status ?e = 503"
    using conjunct2 [OF agent_accepted_iff [of ?U ?r]] calculation by blast
  ultimately show ?thesis unfolding Let_def by blast
qed

text \<open>\<open>config/agents/readonly.toml\<close> as the TOML reader returns it.\<close>

definition readonly_toml :: raw_agent_doc where
  "readonly_toml =
     \<lparr>doc_agent_id = ''readonly'', doc_max_capacity = 1000, doc_rate_limit_per_window = Some 10,
      doc_rate_limit_window_secs = Some 60,
      doc_secret = Some ''safa-readonly-agent-secret-key-2026-change-me'',
      doc_domains = [(''fs_read_workspace'', \<lparr>rdp_enabled = True, rdp_max_magnitude = 500\<rparr>),
                     (''fs_write_workspace'', \<lparr>rdp_enabled = False, rdp_max_magnitude = 0\<rparr>),
                     (''proc_exec_bounded'', \<lparr>rdp_enabled = False, rdp_max_magnitude = 0\<rparr>),
                     (''net_out_http'', \<lparr>rdp_enabled = False, rdp_max_magnitude = 0\<rparr>)]\<rparr>"

text \<open>The repository's own \<open>config/agents/readonly.toml\<close> does not boot. It disables three domains
  with a magnitude limit of 0, and the loader rejects a zero limit whether or not the domain is
  enabled, whichever of the domains it meets first.\<close>

theorem shipped_readonly_rejected:
  assumes "set doms = set (doc_domains readonly_toml)"
  shows "\<not> is_ok (agent_of_raw U ((raw_agent_of_doc readonly_toml)\<lparr>ra_domains := doms\<rparr>))"
proof -
  let ?d = "(''net_out_http'', \<lparr>rdp_enabled = False, rdp_max_magnitude = 0\<rparr>)"
  have "?d \<in> set doms" unfolding assms by (simp add: readonly_toml_def)
  then have "\<not> (\<forall>(k, p) \<in> set doms. rdp_max_magnitude p \<noteq> 0)" by force
  then show ?thesis by (auto simp: is_ok_iff agent_of_raw_Inr_iff)
qed

text \<open>The file's own order of the domains.\<close>

theorem shipped_readonly_rejected_witness:
  "\<not> is_ok (agent_of_raw \<lparr>wide_alphanumeric = (\<lambda>_. False), wide_upper = (\<lambda>c. [c])\<rparr>
       ((raw_agent_of_doc readonly_toml)\<lparr>ra_domains := doc_domains readonly_toml\<rparr>))"
  by (rule shipped_readonly_rejected) (rule refl)

end
