(* ===== verification/Config_Load.thy ===== *)
theory Config_Load
  imports Actuator_File Agent_Config "HOL-Library.List_Lexorder" "HOL-Library.Char_ord"
begin

text \<open>
  \<open>AmaConfig::load\<close> in \<open>safa-core/src/config.rs\<close>: the boot checks. The TOML reader with the
  code \<open>serde\<close> derives, the hash and the texts of UTF-8 errors are the record \<open>toml_reader\<close>;
  a field with a serde default is optional in the document. Directories are listed by a
  \<open>lister\<close>, in any order.
\<close>

section \<open>Documents\<close>

record raw_safa_doc =
  sd_workspace_root :: string
  sd_bind_host :: "string option"
  sd_bind_port :: "nat option"
  sd_log_level :: "string option"
  sd_log_output :: "string option"

record raw_slime_doc =
  ld_mode :: string
  ld_max_capacity :: "u64 option"
  ld_domains :: "(string, raw_domain_policy) hmap"

record raw_config =
  rc_safa :: raw_safa_doc
  rc_slime :: raw_slime_doc

record raw_domain_entry =
  de_domain_id :: string
  de_max_payload_bytes :: "nat option"
  de_validator :: "string option"
  de_requires_intent :: "bool option"

record raw_domains =
  do_schema_version :: string
  do_domains :: "(string, raw_domain_entry) hmap"

record raw_intent_entry =
  ie_binary :: string
  ie_args_template :: "string list"
  ie_validators :: "string list"
  ie_working_dir :: "string option"

record raw_intents =
  ri_schema_version :: string
  ri_intents :: "(string, raw_intent_entry) hmap"

record raw_allowlist =
  rw_schema_version :: string
  rw_urls :: "allowlist_entry list"

definition default_host :: string where "default_host = ''127.0.0.1''"
definition default_port :: nat where "default_port = 8787"
definition default_log_level :: string where "default_log_level = ''info''"
definition default_log_output :: string where "default_log_output = ''stderr''"

record toml_reader =
  tr_config :: "string \<Rightarrow> string + raw_config"
  tr_domains :: "string \<Rightarrow> string + raw_domains"
  tr_intents :: "string \<Rightarrow> string + raw_intents"
  tr_allowlist :: "string \<Rightarrow> string + raw_allowlist"
  tr_agent :: "string \<Rightarrow> string + raw_agent_doc"
  tr_utf8_error :: "bytes \<Rightarrow> string"
  tr_sha256_hex :: "bytes \<Rightarrow> string"
  tr_unicode :: unicode

section \<open>Files\<close>

definition boot_err :: "string \<Rightarrow> ama_error" where
  "boot_err msg = ServiceUnavailable msg"

text \<open>\<open>fs::read\<close>.\<close>

definition fs_read :: "fs_state \<Rightarrow> string \<Rightarrow> string + bytes" where
  "fs_read s p =
     rbind (fs_open_read s p) (\<lambda>d.
       if fs_is_dir s p then Inl eisdir
       else (case fs_fault s OpRead p of Some e \<Rightarrow> Inl e | None \<Rightarrow> Inr d))"

definition read_file :: "fs_state \<Rightarrow> string \<Rightarrow> string \<Rightarrow> ama_error + bytes" where
  "read_file s dir name =
     (let path = path_join dir name in
      map_err (\<lambda>e. boot_err (''cannot read '' @ path @ '': '' @ e)) (fs_read s path))"

definition check_schema :: "string \<Rightarrow> string \<Rightarrow> string \<Rightarrow> ama_error + unit" where
  "check_schema expected got file =
     (if got \<noteq> expected then
        Inl (boot_err (file @ '': unrecognized schema_version '' @ quoted got @ '' (expected ''
               @ quoted expected @ '')''))
      else Inr ())"

text \<open>UTF-8 validation and parsing of one file.\<close>

definition parse_file ::
  "toml_reader \<Rightarrow> (string \<Rightarrow> string + 'a) \<Rightarrow> string \<Rightarrow> bytes \<Rightarrow> ama_error + 'a" where
  "parse_file T parse file b =
     rbind (map_err (\<lambda>_. boot_err (file @ '' not UTF-8: '' @ tr_utf8_error T b)) (from_utf8 b)) (\<lambda>t.
     map_err (\<lambda>e. boot_err (file @ '' parse error: '' @ e)) (parse t))"

text \<open>\<open>Path::extension\<close>: what follows the last dot of the file name, unless that dot is its first byte.\<close>

definition path_extension :: "string \<Rightarrow> string option" where
  "path_extension p =
     (case path_file_name p of
        None \<Rightarrow> None
      | Some name \<Rightarrow>
          (let parts = split_on (\<lambda>c. c = CHR ''.'') name in
           if length parts < 2 \<or> parts = [[], last parts] then None else Some (last parts)))"

text \<open>The readable \<open>.toml\<close> entries of a directory, in the order they are listed.\<close>

definition toml_entries :: "lister \<Rightarrow> fs_state \<Rightarrow> string \<Rightarrow> string + string list" where
  "toml_entries ls s dir =
     (case ls s dir of
        Inl e \<Rightarrow> Inl e
      | Inr es \<Rightarrow>
          Inr (filter (\<lambda>p. path_extension p = Some ''toml'')
            (map (path_join dir) (concat (map (\<lambda>e. case e of Inr n \<Rightarrow> [n] | Inl _ \<Rightarrow> []) es)))))"

definition read_to_string :: "fs_state \<Rightarrow> string \<Rightarrow> string + string" where
  "read_to_string s p =
     rbind (fs_read s p) (\<lambda>b. map_err (\<lambda>_. ''stream did not contain valid UTF-8'') (from_utf8 b))"

section \<open>Agents\<close>

text \<open>The result of either way to obtain the agents.\<close>

record agents_part =
  ap_agents :: "(string, agent_config) hmap"
  ap_default_agent_id :: "string option"
  ap_domain_policies :: "(string, domain_policy) hmap"
  ap_max_capacity :: u64
  ap_agents_hash :: string

fun hash_files :: "toml_reader \<Rightarrow> fs_state \<Rightarrow> string list \<Rightarrow> ama_error + string list" where
  "hash_files T s [] = Inr []"
| "hash_files T s (p # ps) =
     rbind (map_err (\<lambda>e. boot_err (''cannot read '' @ p @ '': '' @ e)) (fs_read s p)) (\<lambda>b.
     rbind (hash_files T s ps) (\<lambda>hs. Inr (tr_sha256_hex T b # hs)))"

text \<open>Sorted by path; within one directory that is by name, byte by byte.\<close>

definition agents_hash :: "toml_reader \<Rightarrow> lister \<Rightarrow> fs_state \<Rightarrow> string \<Rightarrow> ama_error + string" where
  "agents_hash T ls s dir =
     rbind (map_err (\<lambda>e. boot_err (''cannot read agents dir: '' @ e)) (toml_entries ls s dir)) (\<lambda>paths.
     rbind (hash_files T s (sort paths)) (\<lambda>hs. Inr (tr_sha256_hex T (concat hs))))"

text \<open>The union of the agents' policies: for a domain several agents have, the first one met stays.\<close>

definition union_policies :: "agent_config list \<Rightarrow> (string, domain_policy) hmap" where
  "union_policies agents =
     foldl (\<lambda>m (d, p). hm_or_insert d p m) [] (concat (map ac_domain_policies agents))"

definition max_agent_capacity :: "agent_config list \<Rightarrow> u64" where
  "max_agent_capacity agents =
     foldl (\<lambda>mx a. if ac_max_capacity a > mx then ac_max_capacity a else mx) 0 agents"

text \<open>The first pair of agent and domain that \<open>domains.toml\<close> does not define.\<close>

fun undefined_domain :: "string list \<Rightarrow> (string \<times> string) list \<Rightarrow> (string \<times> string) option" where
  "undefined_domain known [] = None"
| "undefined_domain known ((aid, d) # rest) =
     (if d \<in> set known then undefined_domain known rest else Some (aid, d))"

definition agent_domain_pairs :: "agent_config list \<Rightarrow> (string \<times> string) list" where
  "agent_domain_pairs agents =
     concat (map (\<lambda>a. map (\<lambda>d. (ac_agent_id a, d)) (hm_keys (ac_domain_policies a))) agents)"

definition agents_from_dir ::
  "toml_reader \<Rightarrow> lister \<Rightarrow> fs_state \<Rightarrow> string \<Rightarrow> raw_domains \<Rightarrow> ama_error + agents_part" where
  "agents_from_dir T ls s dir doms =
     rbind (load_agent_configs (tr_unicode T) (tr_agent T)
              (map_err id (rbind (toml_entries ls s dir) (\<lambda>ps. Inr (map (\<lambda>p. (p, read_to_string s p)) ps)))))
       (\<lambda>agents.
     rbind (agents_hash T ls s dir) (\<lambda>h.
     let values = map snd agents in
     case undefined_domain (map (de_domain_id \<circ> snd) (do_domains doms)) (agent_domain_pairs values) of
       Some (aid, d) \<Rightarrow>
         Inl (boot_err (''agent '' @ quoted aid @ '' references domain '' @ quoted d
                @ '' not defined in domains.toml''))
     | None \<Rightarrow>
         Inr \<lparr>ap_agents = agents,
              ap_default_agent_id = (if hm_len agents = 1 then Some (hd (hm_keys agents)) else None),
              ap_domain_policies = union_policies values,
              ap_max_capacity = max_agent_capacity values,
              ap_agents_hash = h\<rparr>))"

fun slime_policies ::
  "u64 \<Rightarrow> (string, raw_domain_policy) hmap \<Rightarrow> (string, domain_policy) hmap
    \<Rightarrow> ama_error + (string, domain_policy) hmap" where
  "slime_policies cap [] acc = Inr acc"
| "slime_policies cap ((key, raw) # rest) acc =
     (let domain_id = replace_char CHR ''_'' CHR ''.'' key in
      if rdp_max_magnitude raw = 0 then
        Inl (boot_err (''domain '' @ quoted domain_id @ '': max_magnitude_per_action must be > 0''))
      else if rdp_max_magnitude raw > cap then
        Inl (boot_err (''domain '' @ quoted domain_id @ '': max_magnitude_per_action (''
               @ show_u64 (rdp_max_magnitude raw) @ '') > max_capacity ('' @ show_u64 cap @ '')''))
      else slime_policies cap rest (hm_insert domain_id (policy_of_raw raw) acc))"

definition default_agent :: "u64 \<Rightarrow> (string, domain_policy) hmap \<Rightarrow> agent_config" where
  "default_agent cap policies =
     \<lparr>ac_agent_id = ''default'', ac_max_capacity = cap, ac_rate_limit_per_window = 60,
      ac_rate_limit_window_secs = 60, ac_domain_policies = policies, ac_secret = None\<rparr>"

definition agents_from_slime :: "raw_slime_doc \<Rightarrow> ama_error + agents_part" where
  "agents_from_slime slime =
     rbind (ok_or (ld_max_capacity slime)
              (boot_err ''slime.max_capacity is required when no agents/ directory exists'')) (\<lambda>cap.
     if cap = 0 then Inl (boot_err ''slime.max_capacity must be > 0'')
     else if ld_domains slime = [] then
       Inl (boot_err ''slime.domains is required when no agents/ directory exists'')
     else rbind (slime_policies cap (ld_domains slime) []) (\<lambda>policies.
       Inr \<lparr>ap_agents = [(''default'', default_agent cap policies)],
            ap_default_agent_id = Some ''default'',
            ap_domain_policies = policies,
            ap_max_capacity = cap,
            ap_agents_hash = []\<rparr>))"

section \<open>Mappings\<close>

fun domain_mappings ::
  "(string, domain_policy) hmap \<Rightarrow> (string, raw_domain_entry) hmap \<Rightarrow> (string, domain_mapping) hmap
    \<Rightarrow> ama_error + (string, domain_mapping) hmap" where
  "domain_mappings policies [] acc = Inr acc"
| "domain_mappings policies ((action, entry) # rest) acc =
     (if hm_get policies (de_domain_id entry) = None then
        Inl (boot_err (''domains.toml action '' @ quoted action @ '' references domain_id ''
               @ quoted (de_domain_id entry) @ '' not in config.toml''))
      else domain_mappings policies rest
             (hm_insert action
               \<lparr>dm_domain_id = de_domain_id entry, dm_max_payload_bytes = de_max_payload_bytes entry,
                dm_validator = de_validator entry,
                dm_requires_intent = unwrap_or False (de_requires_intent entry)\<rparr> acc))"

definition intent_of_raw :: "string \<Rightarrow> raw_intent_entry \<Rightarrow> intent_mapping" where
  "intent_of_raw root raw =
     \<lparr>im_binary = ie_binary raw, im_args_template = ie_args_template raw,
      im_validators = ie_validators raw,
      im_working_dir = map_option (\<lambda>wd. replace_str wd ''{{workspace_root}}'' root) (ie_working_dir raw)\<rparr>"

fun intent_mappings ::
  "fs_state \<Rightarrow> string \<Rightarrow> (string, raw_intent_entry) hmap \<Rightarrow> (string, intent_mapping) hmap
    \<Rightarrow> ama_error + (string, intent_mapping) hmap" where
  "intent_mappings s root [] acc = Inr acc"
| "intent_mappings s root ((name, raw) # rest) acc =
     (if \<not> fs_exists s (ie_binary raw) then
        Inl (boot_err (''intent '' @ quoted name @ '': binary '' @ quoted (ie_binary raw)
               @ '' does not exist''))
      else intent_mappings s root rest (hm_insert name (intent_of_raw root raw) acc))"

section \<open>Loading\<close>

record raw_files =
  rf_config :: raw_config
  rf_domains :: raw_domains
  rf_intents :: raw_intents
  rf_allowlist :: raw_allowlist
  rf_hashes :: boot_hashes

text \<open>All files are read first, then hashed, then parsed in order.\<close>

definition load_files :: "toml_reader \<Rightarrow> fs_state \<Rightarrow> string \<Rightarrow> ama_error + raw_files" where
  "load_files T s dir =
     rbind (read_file s dir ''config.toml'') (\<lambda>cb.
     rbind (read_file s dir ''domains.toml'') (\<lambda>db.
     rbind (read_file s dir ''intents.toml'') (\<lambda>ib.
     rbind (read_file s dir ''allowlist.toml'') (\<lambda>ab.
     rbind (parse_file T (tr_config T) ''config.toml'' cb) (\<lambda>c.
     rbind (parse_file T (tr_domains T) ''domains.toml'' db) (\<lambda>d.
     rbind (parse_file T (tr_intents T) ''intents.toml'' ib) (\<lambda>i.
     rbind (parse_file T (tr_allowlist T) ''allowlist.toml'' ab) (\<lambda>a.
     Inr \<lparr>rf_config = c, rf_domains = d, rf_intents = i, rf_allowlist = a,
          rf_hashes = \<lparr>bh_config = tr_sha256_hex T cb, bh_domains = tr_sha256_hex T db,
                       bh_intents = tr_sha256_hex T ib, bh_allowlist = tr_sha256_hex T ab,
                       bh_agents = []\<rparr>\<rparr>))))))))"

definition check_boot :: "fs_state \<Rightarrow> raw_files \<Rightarrow> ama_error + unit" where
  "check_boot s f =
     rbind (check_schema ''safa-domains-v1'' (do_schema_version (rf_domains f)) ''domains.toml'') (\<lambda>_.
     rbind (check_schema ''safa-intents-v1'' (ri_schema_version (rf_intents f)) ''intents.toml'') (\<lambda>_.
     rbind (check_schema ''safa-allowlist-v1'' (rw_schema_version (rf_allowlist f)) ''allowlist.toml'') (\<lambda>_.
     let safa = rc_safa (rf_config f); root = sd_workspace_root safa;
         host = unwrap_or default_host (sd_bind_host safa); mode = ld_mode (rc_slime (rf_config f))
     in if \<not> is_absolute root then Inl (boot_err ''workspace_root must be absolute'')
        else if \<not> fs_is_dir s root then
          Inl (boot_err (''workspace_root does not exist or is not a directory: '' @ root))
        else if host \<noteq> ''127.0.0.1'' then
          Inl (boot_err (''P0 requires bind_host = 127.0.0.1, got '' @ quoted host))
        else if mode \<noteq> ''embedded'' then
          Inl (boot_err (''P0 requires slime.mode = embedded, got '' @ quoted mode))
        else Inr ())))"

definition load_agents ::
  "toml_reader \<Rightarrow> lister \<Rightarrow> fs_state \<Rightarrow> string \<Rightarrow> raw_files \<Rightarrow> ama_error + agents_part" where
  "load_agents T ls s dir f =
     (let agents_dir = path_join dir ''agents'' in
      if fs_is_dir s agents_dir then agents_from_dir T ls s agents_dir (rf_domains f)
      else agents_from_slime (rc_slime (rf_config f)))"

text \<open>The configuration from its parts.\<close>

definition assemble_config ::
  "raw_files \<Rightarrow> agents_part \<Rightarrow> (string, domain_mapping) hmap \<Rightarrow> (string, intent_mapping) hmap \<Rightarrow> ama_config" where
  "assemble_config f ap maps intents =
     (let safa = rc_safa (rf_config f)
     in \<lparr>cf_workspace_root = sd_workspace_root safa,
          cf_bind_host = unwrap_or default_host (sd_bind_host safa),
          cf_bind_port = unwrap_or default_port (sd_bind_port safa),
          cf_log_level = unwrap_or default_log_level (sd_log_level safa),
          cf_log_output = unwrap_or default_log_output (sd_log_output safa),
          cf_slime_mode = ld_mode (rc_slime (rf_config f)),
          cf_max_capacity = ap_max_capacity ap,
          cf_domain_policies = ap_domain_policies ap,
          cf_domain_mappings = maps,
          cf_intents = intents,
          cf_allowlist = rw_urls (rf_allowlist f),
          cf_agents = ap_agents ap,
          cf_default_agent_id = ap_default_agent_id ap,
          cf_boot_hashes = (rf_hashes f)\<lparr>bh_agents := ap_agents_hash ap\<rparr>\<rparr>)"

definition load_config ::
  "toml_reader \<Rightarrow> lister \<Rightarrow> fs_state \<Rightarrow> string \<Rightarrow> ama_error + ama_config" where
  "load_config T ls s dir =
     rbind (load_files T s dir) (\<lambda>f.
     rbind (check_boot s f) (\<lambda>_.
     rbind (load_agents T ls s dir f) (\<lambda>ap.
     rbind (domain_mappings (ap_domain_policies ap) (do_domains (rf_domains f)) []) (\<lambda>maps.
     rbind (intent_mappings s (sd_workspace_root (rc_safa (rf_config f))) (ri_intents (rf_intents f)) [])
       (\<lambda>intents.
     Inr (assemble_config f ap maps intents))))))"

section \<open>What a loaded configuration satisfies\<close>

lemma slime_policies_Inr_iff:
  "slime_policies cap raws acc = Inr pols \<longleftrightarrow>
     (\<forall>(k, r) \<in> set raws. rdp_max_magnitude r \<noteq> 0 \<and> rdp_max_magnitude r \<le> cap) \<and>
     pols = foldl (\<lambda>m (k, v). hm_insert k v m) acc (normal_policies raws)"
  by (induction cap raws acc rule: slime_policies.induct)
    (auto simp: Let_def not_less normal_policies_def)

text \<open>Both ways to read policies accept the same maps, and give the same result.\<close>

lemma slime_policies_agent_domains:
  "slime_policies cap raws acc = Inr pols \<longleftrightarrow> agent_domains aid cap raws acc = Inr pols"
  by (simp add: slime_policies_Inr_iff agent_domains_Inr_iff)

lemma default_agent_wf:
  assumes "slime_policies cap raws [] = Inr pols" and "cap \<noteq> 0"
  shows "wf_agent U (default_agent cap pols)"
proof -
  from assms(1) have "agent_domains ''default'' cap raws [] = Inr pols"
    by (simp add: slime_policies_agent_domains [of _ _ _ _ "''default''"])
  note doms = agent_domains_wf [OF this]
  have "str_chars ''default'' = map of_char ''default''" by (rule str_chars_ascii) simp
  then have "list_all (agent_id_char U) (str_chars ''default'')"
    by (simp add: agent_id_char_def is_alphanumeric_def ascii_alphanumeric_def)
  with doms assms(2) show ?thesis by (simp add: wf_agent_def default_agent_def word_gt_0)
qed

lemma hm_or_insert_all_keys:
  "hm_get (foldl (\<lambda>m (d, p). hm_or_insert d p m) m ps) d \<noteq> None \<longleftrightarrow>
     hm_get m d \<noteq> None \<or> d \<in> fst ` set ps"
  by (induction ps arbitrary: m) (auto simp: hmap_simps split: if_splits)

lemma union_policies_get:
  "hm_get (union_policies agents) d \<noteq> None \<longleftrightarrow>
     (\<exists>a \<in> set agents. hm_get (ac_domain_policies a) d \<noteq> None)"
proof -
  have "hm_get m d \<noteq> None \<longleftrightarrow> d \<in> fst ` set m" for m :: "(string, domain_policy) hmap"
    using hm_keys_get [of d m] by (simp add: hm_keys_def)
  then show ?thesis
    unfolding union_policies_def hm_or_insert_all_keys by (auto simp: hmap_simps)
qed

lemma max_agent_capacity_foldl:
  "(a \<in> set agents \<longrightarrow> ac_max_capacity a \<le> foldl (\<lambda>mx a. if ac_max_capacity a > mx then ac_max_capacity a else mx) m agents) \<and>
   m \<le> foldl (\<lambda>mx a. if ac_max_capacity a > mx then ac_max_capacity a else mx) m agents"
proof (induction agents arbitrary: m)
  case (Cons b agents)
  let ?m = "if ac_max_capacity b > m then ac_max_capacity b else m"
  from Cons.IH [of ?m] show ?case by (auto split: if_splits intro: order.trans less_imp_le)
qed simp

lemma max_agent_capacity_ge: "a \<in> set agents \<Longrightarrow> ac_max_capacity a \<le> max_agent_capacity agents"
  using max_agent_capacity_foldl [of a agents 0] by (simp add: max_agent_capacity_def)

text \<open>The agents of a configuration and its global view of them.\<close>

definition agents_part_ok :: "unicode \<Rightarrow> agents_part \<Rightarrow> bool" where
  "agents_part_ok U ap \<longleftrightarrow>
     wf_agents U (ap_agents ap) \<and> ap_agents ap \<noteq> [] \<and>
     (\<forall>aid. ap_default_agent_id ap = Some aid \<longrightarrow> hm_get (ap_agents ap) aid \<noteq> None) \<and>
     (\<forall>aid a. hm_get (ap_agents ap) aid = Some a \<longrightarrow>
        ac_max_capacity a \<le> ap_max_capacity ap \<and>
        (\<forall>d. hm_get (ac_domain_policies a) d \<noteq> None \<longrightarrow> hm_get (ap_domain_policies ap) d \<noteq> None))"

lemma load_agent_files_not_empty:
  "load_agent_files U toml files agents = Inr agents' \<Longrightarrow> files \<noteq> [] \<or> agents \<noteq> [] \<Longrightarrow> agents' \<noteq> []"
proof (induction U toml files agents rule: load_agent_files.induct)
  case (2 U toml path contents rest agents)
  from "2.prems"(1) obtain doc ac where "contents = Inr doc" "from_toml_str U toml doc = Inr ac"
    "hm_get agents (ac_agent_id ac) = None"
    "load_agent_files U toml rest (hm_insert (ac_agent_id ac) ac agents) = Inr agents'"
    by (auto simp: result_simps split: if_splits)
  moreover have "hm_insert (ac_agent_id ac) ac agents \<noteq> []"
    by (cases agents) (auto simp: hm_insert_def)
  ultimately show ?case using "2.IH" by auto
qed simp

lemma load_agent_configs_ok:
  assumes "load_agent_configs U toml dir = Inr agents"
  shows "wf_agents U agents" and "agents \<noteq> []"
proof -
  from assms obtain files where files: "files \<noteq> []" "load_agent_files U toml files [] = Inr agents"
    by (auto simp: load_agent_configs_def result_simps split: if_splits)
  have "wf_agents U []" by (simp add: wf_agents_def hmap_simps)
  with load_agent_files_wf files(2) show "wf_agents U agents" by blast
  from load_agent_files_not_empty files show "agents \<noteq> []" by blast
qed

lemma hm_get_values: "hm_get m k = Some v \<Longrightarrow> v \<in> set (map snd m)"
  using hm_get_mem [of m k v] by force

lemma agents_from_dir_ok:
  assumes "agents_from_dir T ls s dir doms = Inr ap"
  shows "agents_part_ok (tr_unicode T) ap"
proof -
  from assms obtain agents h dirv where
    load: "load_agent_configs (tr_unicode T) (tr_agent T) dirv = Inr agents"
    and ap: "ap = \<lparr>ap_agents = agents,
              ap_default_agent_id = (if hm_len agents = 1 then Some (hd (hm_keys agents)) else None),
              ap_domain_policies = union_policies (map snd agents),
              ap_max_capacity = max_agent_capacity (map snd agents),
              ap_agents_hash = h\<rparr>"
    by (auto simp: agents_from_dir_def result_simps Let_def split: option.splits prod.splits)
  note ok = load_agent_configs_ok [OF load]
  from ok(2) have "hm_get agents (hd (hm_keys agents)) \<noteq> None"
    by (cases agents) (auto simp: hm_keys_def hm_get_def)
  moreover have "hm_get (union_policies (map snd agents)) d \<noteq> None"
    if "hm_get agents aid = Some a" "hm_get (ac_domain_policies a) d \<noteq> None" for aid a d
    by (rule union_policies_get [THEN iffD2, OF bexI, OF that(2) hm_get_values [OF that(1)]])
  moreover have "ac_max_capacity a \<le> max_agent_capacity (map snd agents)"
    if "hm_get agents aid = Some a" for aid a
    by (intro max_agent_capacity_ge hm_get_values [OF that])
  ultimately show ?thesis using ok unfolding agents_part_ok_def ap agents_part.simps
    by (auto split: if_splits)
qed

lemma agents_from_slime_ok:
  assumes "agents_from_slime slime = Inr ap"
  shows "agents_part_ok U ap"
proof -
  from assms obtain cap pols where pols: "slime_policies cap (ld_domains slime) [] = Inr pols" "cap \<noteq> 0"
    and ap: "ap = \<lparr>ap_agents = [(''default'', default_agent cap pols)],
      ap_default_agent_id = Some ''default'', ap_domain_policies = pols, ap_max_capacity = cap,
      ap_agents_hash = []\<rparr>"
    by (auto simp: agents_from_slime_def result_simps split: if_splits)
  from default_agent_wf [OF pols, of U] show ?thesis
    by (simp add: agents_part_ok_def ap wf_agents_def hm_wf_def hmap_simps)
      (simp add: default_agent_def)
qed

lemma domain_mappings_ok:
  assumes "domain_mappings pols raws acc = Inr maps"
    and "\<And>a m. hm_get acc a = Some m \<Longrightarrow> hm_get pols (dm_domain_id m) \<noteq> None"
    and "hm_get maps a = Some m"
  shows "hm_get pols (dm_domain_id m) \<noteq> None"
  using assms
proof (induction pols raws acc rule: domain_mappings.induct)
  case (2 pols action entry rest acc)
  from "2.prems"(1) have known: "hm_get pols (de_domain_id entry) \<noteq> None" by (auto split: if_splits)
  show ?case
    by (rule "2.IH" [OF known _ _ "2.prems"(3)])
      (use "2.prems"(1,2) known in \<open>auto simp: hmap_simps split: if_splits\<close>)
qed simp

lemma intent_mappings_ok:
  assumes "intent_mappings s root raws acc = Inr maps"
    and "\<And>a m. hm_get acc a = Some m \<Longrightarrow> fs_exists s (im_binary m)"
    and "hm_get maps a = Some m"
  shows "fs_exists s (im_binary m)"
  using assms
proof (induction s root raws acc rule: intent_mappings.induct)
  case (2 s root name raw rest acc)
  from "2.prems"(1) have there: "\<not> \<not> fs_exists s (ie_binary raw)" by (auto split: if_splits)
  show ?case
    by (rule "2.IH" [OF there _ _ "2.prems"(3)])
      (use "2.prems"(1,2) there in \<open>auto simp: hmap_simps intent_of_raw_def split: if_splits\<close>)
qed simp

definition wf_config :: "unicode \<Rightarrow> ama_config \<Rightarrow> bool" where
  "wf_config U cfg \<longleftrightarrow>
     is_absolute (cf_workspace_root cfg) \<and> cf_bind_host cfg = ''127.0.0.1'' \<and>
     cf_slime_mode cfg = ''embedded'' \<and>
     wf_agents U (cf_agents cfg) \<and> cf_agents cfg \<noteq> [] \<and>
     (\<forall>aid. cf_default_agent_id cfg = Some aid \<longrightarrow> hm_get (cf_agents cfg) aid \<noteq> None) \<and>
     (\<forall>aid a. hm_get (cf_agents cfg) aid = Some a \<longrightarrow>
        ac_max_capacity a \<le> cf_max_capacity cfg \<and>
        (\<forall>d. hm_get (ac_domain_policies a) d \<noteq> None \<longrightarrow> hm_get (cf_domain_policies cfg) d \<noteq> None)) \<and>
     (\<forall>action m. hm_get (cf_domain_mappings cfg) action = Some m \<longrightarrow>
        hm_get (cf_domain_policies cfg) (dm_domain_id m) \<noteq> None)"

lemma check_boot_Inr_iff:
  "check_boot s f = Inr u \<longleftrightarrow>
     do_schema_version (rf_domains f) = ''safa-domains-v1'' \<and>
     ri_schema_version (rf_intents f) = ''safa-intents-v1'' \<and>
     rw_schema_version (rf_allowlist f) = ''safa-allowlist-v1'' \<and>
     is_absolute (sd_workspace_root (rc_safa (rf_config f))) \<and>
     fs_is_dir s (sd_workspace_root (rc_safa (rf_config f))) \<and>
     unwrap_or default_host (sd_bind_host (rc_safa (rf_config f))) = ''127.0.0.1'' \<and>
     ld_mode (rc_slime (rf_config f)) = ''embedded''"
  by (auto simp: check_boot_def check_schema_def result_simps Let_def)

lemma load_agents_ok: "load_agents T ls s dir f = Inr ap \<Longrightarrow> agents_part_ok (tr_unicode T) ap"
  by (auto simp: load_agents_def Let_def split: if_splits dest: agents_from_dir_ok agents_from_slime_ok)

lemma load_config_parts:
  assumes "load_config T ls s dir = Inr cfg"
  obtains f ap where "check_boot s f = Inr ()" and "load_agents T ls s dir f = Inr ap"
    and "domain_mappings (ap_domain_policies ap) (do_domains (rf_domains f)) [] = Inr (cf_domain_mappings cfg)"
    and "intent_mappings s (cf_workspace_root cfg) (ri_intents (rf_intents f)) [] = Inr (cf_intents cfg)"
    and "cf_workspace_root cfg = sd_workspace_root (rc_safa (rf_config f))"
    and "cf_bind_host cfg = unwrap_or default_host (sd_bind_host (rc_safa (rf_config f)))"
    and "cf_slime_mode cfg = ld_mode (rc_slime (rf_config f))"
    and "cf_max_capacity cfg = ap_max_capacity ap" and "cf_domain_policies cfg = ap_domain_policies ap"
    and "cf_agents cfg = ap_agents ap" and "cf_default_agent_id cfg = ap_default_agent_id ap"
  using assms by (auto simp: load_config_def assemble_config_def result_simps Let_def)

lemma load_config_wf:
  assumes "load_config T ls s dir = Inr cfg"
  shows "wf_config (tr_unicode T) cfg \<and> fs_is_dir s (cf_workspace_root cfg) \<and>
     (\<forall>name im. hm_get (cf_intents cfg) name = Some im \<longrightarrow> fs_exists s (im_binary im))"
proof (rule load_config_parts [OF assms])
  fix f ap
  assume parts: "check_boot s f = Inr ()" "load_agents T ls s dir f = Inr ap"
    "domain_mappings (ap_domain_policies ap) (do_domains (rf_domains f)) [] = Inr (cf_domain_mappings cfg)"
    "intent_mappings s (cf_workspace_root cfg) (ri_intents (rf_intents f)) [] = Inr (cf_intents cfg)"
    "cf_workspace_root cfg = sd_workspace_root (rc_safa (rf_config f))"
    "cf_bind_host cfg = unwrap_or default_host (sd_bind_host (rc_safa (rf_config f)))"
    "cf_slime_mode cfg = ld_mode (rc_slime (rf_config f))"
    "cf_max_capacity cfg = ap_max_capacity ap" "cf_domain_policies cfg = ap_domain_policies ap"
    "cf_agents cfg = ap_agents ap" "cf_default_agent_id cfg = ap_default_agent_id ap"
  have maps: "\<forall>a m. hm_get (cf_domain_mappings cfg) a = Some m \<longrightarrow>
      hm_get (cf_domain_policies cfg) (dm_domain_id m) \<noteq> None"
    using domain_mappings_ok [OF parts(3)] by (force simp: hmap_simps parts(9))
  have intents: "\<forall>name im. hm_get (cf_intents cfg) name = Some im \<longrightarrow> fs_exists s (im_binary im)"
    using intent_mappings_ok [OF parts(4)] by (force simp: hmap_simps)
  from parts(1) have boot: "is_absolute (cf_workspace_root cfg)" "fs_is_dir s (cf_workspace_root cfg)"
    "cf_bind_host cfg = ''127.0.0.1''" "cf_slime_mode cfg = ''embedded''"
    by (simp_all add: check_boot_Inr_iff parts(5-7))
  from load_agents_ok [OF parts(2)] maps boot intents show ?thesis
    unfolding agents_part_ok_def wf_config_def parts(8-11) by blast
qed

section \<open>Properties\<close>

text \<open>C23: a configuration the daemon boots with is sound: the workspace root is an absolute path of
  an existing directory, the daemon binds to the loopback address only, every agent passed its
  checks and is stored under its own id, a default agent exists, every agent's capacity is within
  the global one, every domain an agent or an action uses has a global policy, and every intent's
  binary existed.\<close>

theorem loaded_config_sound:
  assumes "load_config T ls s dir = Inr cfg"
  shows "wf_config (tr_unicode T) cfg \<and> fs_is_dir s (cf_workspace_root cfg) \<and>
     (\<forall>name im. hm_get (cf_intents cfg) name = Some im \<longrightarrow> fs_exists s (im_binary im))"
  using assms by (rule load_config_wf)

text \<open>A minimal boot: one action, one agent synthesized from the slime section.\<close>

definition sample_boot_fs :: fs_state where
  "sample_boot_fs = fs_of_list
     [([''ws''], Directory 493), ([''etc''], Directory 493),
      ([''etc'', ''config.toml''], RegFile ''c'' 420), ([''etc'', ''domains.toml''], RegFile ''d'' 420),
      ([''etc'', ''intents.toml''], RegFile ''i'' 420), ([''etc'', ''allowlist.toml''], RegFile ''a'' 420)]"

definition sample_reader :: toml_reader where
  "sample_reader =
     \<lparr>tr_config = (\<lambda>_. Inr \<lparr>rc_safa = \<lparr>sd_workspace_root = ''/ws'', sd_bind_host = None, sd_bind_port = None,
                                        sd_log_level = None, sd_log_output = None\<rparr>,
                          rc_slime = \<lparr>ld_mode = ''embedded'', ld_max_capacity = Some 10,
                                      ld_domains = [(''fs_write'', \<lparr>rdp_enabled = True, rdp_max_magnitude = 5\<rparr>)]\<rparr>\<rparr>),
      tr_domains = (\<lambda>_. Inr \<lparr>do_schema_version = ''safa-domains-v1'',
                           do_domains = [(''file_write'', \<lparr>de_domain_id = ''fs.write'', de_max_payload_bytes = None,
                                                          de_validator = None, de_requires_intent = None\<rparr>)]\<rparr>),
      tr_intents = (\<lambda>_. Inr \<lparr>ri_schema_version = ''safa-intents-v1'', ri_intents = []\<rparr>),
      tr_allowlist = (\<lambda>_. Inr \<lparr>rw_schema_version = ''safa-allowlist-v1'', rw_urls = []\<rparr>),
      tr_agent = (\<lambda>_. Inl ''no agents''),
      tr_utf8_error = (\<lambda>_. ''utf-8''), tr_sha256_hex = (\<lambda>b. b),
      tr_unicode = \<lparr>wide_alphanumeric = (\<lambda>_. False), wide_upper = (\<lambda>c. [c])\<rparr>\<rparr>"

theorem loaded_config_sound_witness:
  "\<exists>cfg. load_config sample_reader (\<lambda>_ _. Inr []) sample_boot_fs ''/etc'' = Inr cfg \<and>
     hm_get (cf_domain_mappings cfg) ''file_write'' \<noteq> None \<and> wf_config (tr_unicode sample_reader) cfg"
proof -
  let ?r = "load_config sample_reader (\<lambda>_ _. Inr []) sample_boot_fs ''/etc''"
  have "(case ?r of Inl e \<Rightarrow> False | Inr cfg \<Rightarrow> hm_get (cf_domain_mappings cfg) ''file_write'' \<noteq> None)"
    by code_simp
  then obtain cfg where "?r = Inr cfg" "hm_get (cf_domain_mappings cfg) ''file_write'' \<noteq> None"
    by (auto split: sum.splits)
  with loaded_config_sound [of sample_reader "\<lambda>_ _. Inr []" sample_boot_fs "''/etc''" cfg]
  show ?thesis by blast
qed

end
