(* ===== verification/Schema.thy ===== *)
theory Schema
  imports Newtypes
begin

text \<open>
  \<open>safa-core/src/schema.rs\<close>, \<open>canonical.rs\<close> and \<open>mapper.rs\<close>: requests and responses,
  the magnitude check, the typed actions and results, and the map from actions to domains.
\<close>

record action_request =
  rq_adapter :: string
  rq_action :: string
  rq_target :: string
  rq_magnitude :: u64
  rq_dry_run :: bool
  rq_method :: "string option"
  rq_payload :: "string option"
  rq_args :: "string list option"

record action_response =
  rs_status :: string
  rs_action_id :: string
  rs_dry_run :: bool
  rs_result :: "json option"

definition validate_magnitude :: "u64 \<Rightarrow> ama_error + unit" where
  "validate_magnitude m =
     (if \<not> (1 \<le> m \<and> m \<le> 1000) then
        Inl (Validation ''invalid_magnitude'' (''magnitude must be 1-1000, got '' @ show_u64 m))
      else Inr ())"

datatype canonical_action =
    CFileWrite workspace_path bounded_bytes
  | CFileRead workspace_path
  | CShellExec intent_id "safe_arg list"
  | CHttpRequest http_method allowlisted_url "bounded_bytes option"

datatype action_result =
    RFileWrite (res_bytes_written: u64)
  | RFileRead (res_content: string) (res_bytes_returned: u64) (res_total_bytes: u64) (res_read_truncated: bool)
  | RShellExec (res_stdout: string) (res_stderr: string) (res_exit_code: int) (res_shell_truncated: bool)
  | RHttpResponse (res_status_code: nat) (res_body: string) (res_http_truncated: bool)

fun is_truncated :: "action_result \<Rightarrow> bool" where
  "is_truncated (RFileWrite b) = False"
| "is_truncated (RFileRead c r t tr) = tr"
| "is_truncated (RShellExec so se x tr) = tr"
| "is_truncated (RHttpResponse s b tr) = tr"

text \<open>What \<open>#[derive(Serialize)]\<close> with the tag and rename attributes makes of a result.\<close>

fun action_result_json :: "action_result \<Rightarrow> json" where
  "action_result_json (RFileWrite b) =
     JObj [(''type'', JStr ''file_write''), (''bytes_written'', JNum (uint b))]"
| "action_result_json (RFileRead c r t tr) =
     JObj [(''type'', JStr ''file_read''), (''content'', JStr c), (''bytes_returned'', JNum (uint r)),
           (''total_bytes'', JNum (uint t)), (''truncated'', JBool tr)]"
| "action_result_json (RShellExec so se x tr) =
     JObj [(''type'', JStr ''shell_exec''), (''stdout'', JStr so), (''stderr'', JStr se),
           (''exit_code'', JNum x), (''truncated'', JBool tr)]"
| "action_result_json (RHttpResponse s b tr) =
     JObj [(''type'', JStr ''http_response''), (''status_code'', JNum (int s)), (''body'', JStr b),
           (''truncated'', JBool tr)]"

section \<open>The mapper\<close>

record mapped_domain =
  md_domain_id :: string
  md_magnitude :: u64

definition map_action :: "string \<Rightarrow> u64 \<Rightarrow> ama_config \<Rightarrow> ama_error + mapped_domain" where
  "map_action action magnitude cfg =
     rbind (ok_or (hm_get (cf_domain_mappings cfg) action)
              (Validation ''unknown_action'' (''action '' @ quoted action @ '' not in domains.toml'')))
       (\<lambda>entry. Inr \<lparr>md_domain_id = dm_domain_id entry, md_magnitude = magnitude\<rparr>)"

lemma validate_magnitude_Inr_iff: "validate_magnitude m = Inr u \<longleftrightarrow> 1 \<le> m \<and> m \<le> 1000"
  by (auto simp: validate_magnitude_def)

lemma validate_magnitude_unat: "validate_magnitude m = Inr u \<Longrightarrow> 0 < unat m \<and> unat m \<le> 1000"
  by (auto simp: validate_magnitude_Inr_iff word_le_nat_alt)

lemma map_action_Inr_iff:
  "map_action a m cfg = Inr md \<longleftrightarrow>
     (\<exists>e. hm_get (cf_domain_mappings cfg) a = Some e \<and>
          md = \<lparr>md_domain_id = dm_domain_id e, md_magnitude = m\<rparr>)"
  by (auto simp: map_action_def result_simps)

end
