(* ===== verification/Slime.thy ===== *)
theory Slime
  imports Config_Types
begin

text \<open>
  \<open>safa-core/src/slime.rs\<close>: the capacity authorizer of one agent and the registry of
  authorizers. The trait \<open>SlimeAuthorizer\<close> is the locale \<open>slime_authorizer\<close>: what a
  client of \<open>try_reserve\<close> and \<open>check_only\<close> may rely on.
\<close>

datatype slime_verdict = VAuthorized | VImpossible

record p0_authorizer =
  pa_capacity :: u64
  pa_max_capacity :: u64
  pa_domains :: "(string, domain_policy) hmap"
  pa_session_id :: string

text \<open>The session id is a fresh UUID, so it is an argument here.\<close>

definition p0_new :: "u64 \<Rightarrow> (string \<times> domain_policy) list \<Rightarrow> string \<Rightarrow> p0_authorizer" where
  "p0_new max_capacity domains session =
     \<lparr>pa_capacity = 0, pa_max_capacity = max_capacity,
      pa_domains = hm_collect domains, pa_session_id = session\<rparr>"

definition check_policy :: "p0_authorizer \<Rightarrow> string \<Rightarrow> u64 \<Rightarrow> slime_verdict + domain_policy" where
  "check_policy a domain_id magnitude =
     (case hm_get (pa_domains a) domain_id of
        None \<Rightarrow> Inl VImpossible
      | Some policy \<Rightarrow>
          if \<not> dp_enabled policy then Inl VImpossible
          else if magnitude > dp_max_magnitude policy then Inl VImpossible
          else Inr policy)"

text \<open>The test both operations make on a loaded counter value.\<close>

definition admit :: "u64 \<Rightarrow> u64 \<Rightarrow> u64 \<Rightarrow> u64 option" where
  "admit current magnitude max_capacity =
     (case checked_add current magnitude of
        Some new \<Rightarrow> if new \<le> max_capacity then Some new else None
      | None \<Rightarrow> None)"

text \<open>
  Without interference the compare-and-exchange loop stores the new value the first time
  it is tried strongly; \<open>Slime_Concurrent\<close> models the loop itself, with failed exchanges.
\<close>

definition try_reserve :: "p0_authorizer \<Rightarrow> string \<Rightarrow> u64 \<Rightarrow> slime_verdict \<times> p0_authorizer" where
  "try_reserve a domain_id magnitude =
     (case check_policy a domain_id magnitude of
        Inl v \<Rightarrow> (v, a)
      | Inr _ \<Rightarrow>
          (case admit (pa_capacity a) magnitude (pa_max_capacity a) of
             Some new \<Rightarrow> (VAuthorized, a\<lparr>pa_capacity := new\<rparr>)
           | None \<Rightarrow> (VImpossible, a)))"

definition check_only :: "p0_authorizer \<Rightarrow> string \<Rightarrow> u64 \<Rightarrow> slime_verdict" where
  "check_only a domain_id magnitude =
     (case check_policy a domain_id magnitude of
        Inl v \<Rightarrow> v
      | Inr _ \<Rightarrow>
          (case admit (pa_capacity a) magnitude (pa_max_capacity a) of
             Some new \<Rightarrow> VAuthorized
           | None \<Rightarrow> VImpossible))"

definition capacity_used :: "p0_authorizer \<Rightarrow> u64" where
  "capacity_used a = pa_capacity a"

definition capacity_max :: "p0_authorizer \<Rightarrow> u64" where
  "capacity_max a = pa_max_capacity a"

definition capacity_ok :: "p0_authorizer \<Rightarrow> bool" where
  "capacity_ok a \<longleftrightarrow> pa_capacity a \<le> pa_max_capacity a"

section \<open>The trait as an interface\<close>

locale slime_authorizer =
  fixes reserve :: "'a \<Rightarrow> string \<Rightarrow> u64 \<Rightarrow> slime_verdict \<times> 'a"
    and check :: "'a \<Rightarrow> string \<Rightarrow> u64 \<Rightarrow> slime_verdict"
    and used :: "'a \<Rightarrow> u64"
    and limit :: "'a \<Rightarrow> u64"
    and inv :: "'a \<Rightarrow> bool"
  assumes reserve_verdict: "fst (reserve a d m) = check a d m"
    and reserve_inv: "inv a \<Longrightarrow> inv (snd (reserve a d m))"
    and reserve_limit: "limit (snd (reserve a d m)) = limit a"
    and reserve_authorized:
      "fst (reserve a d m) = VAuthorized \<Longrightarrow>
         unat (used (snd (reserve a d m))) = unat (used a) + unat m"
    and reserve_impossible: "fst (reserve a d m) = VImpossible \<Longrightarrow> snd (reserve a d m) = a"
    and inv_limit: "inv a \<Longrightarrow> unat (used a) \<le> unat (limit a)"
begin

text \<open>A run of requests against one authorizer: the verdicts and the authorizer left.\<close>

fun run :: "'a \<Rightarrow> (string \<times> u64) list \<Rightarrow> slime_verdict list \<times> 'a" where
  "run a [] = ([], a)"
| "run a ((d, m) # reqs) =
     (let (v, a') = reserve a d m; (vs, a'') = run a' reqs in (v # vs, a''))"

definition granted :: "(string \<times> u64) list \<Rightarrow> slime_verdict list \<Rightarrow> nat" where
  "granted reqs vs =
     sum_list (map (\<lambda>((d, m), v). if v = VAuthorized then unat m else 0) (zip reqs vs))"

lemma run_length: "length (fst (run a reqs)) = length reqs"
  by (induction a reqs rule: run.induct) (auto simp: Let_def split: prod.splits)

lemma run_inv: "inv a \<Longrightarrow> inv (snd (run a reqs)) \<and> limit (snd (run a reqs)) = limit a"
proof (induction a reqs rule: run.induct)
  case (2 a d m reqs)
  obtain v a' where va: "reserve a d m = (v, a')" by fastforce
  with reserve_inv [of a d m] reserve_limit [of a d m] "2.prems"
  have "inv a'" and "limit a' = limit a" by simp_all
  with 2 va show ?case by (auto split: prod.splits)
qed simp

text \<open>The counter is exactly what was there plus what was granted.\<close>

lemma run_used: "unat (used (snd (run a reqs))) = unat (used a) + granted reqs (fst (run a reqs))"
proof (induction a reqs rule: run.induct)
  case (1 a)
  then show ?case by (simp add: granted_def)
next
  case (2 a d m reqs)
  obtain v a' where va: "reserve a d m = (v, a')" by fastforce
  have "unat (used a') = unat (used a) + (if v = VAuthorized then unat m else 0)"
    using reserve_authorized [of a d m] reserve_impossible [of a d m] va by (cases v) auto
  with 2 va show ?case by (auto simp: granted_def split: prod.splits)
qed

theorem run_bounded:
  assumes "inv a"
  shows "unat (used a) + granted reqs (fst (run a reqs)) \<le> unat (limit a)"
  using run_inv [OF assms, of reqs] inv_limit [of "snd (run a reqs)"] run_used [of a reqs] by simp

end

section \<open>The capacity authorizer provides it\<close>

lemma admit_Some_iff:
  "admit c m mx = Some n \<longleftrightarrow> unat c + unat m \<le> unat mx \<and> n = c + m"
proof -
  have "unat mx < 2 ^ 64" using unsigned_less [of mx] by simp
  then show ?thesis
    by (auto simp: admit_def checked_add_def word_le_nat_alt unat_word_ariths split: option.splits)
qed

lemma admit_None_iff: "admit c m mx = None \<longleftrightarrow> unat mx < unat c + unat m"
proof -
  have "admit c m mx \<noteq> None \<longleftrightarrow> unat c + unat m \<le> unat mx"
    using admit_Some_iff by blast
  then show ?thesis by auto
qed

lemma admit_unat: "admit c m mx = Some n \<Longrightarrow> unat n = unat c + unat m \<and> n \<le> mx"
proof -
  assume a: "admit c m mx = Some n"
  then have "checked_add c m = Some n" and "n \<le> mx"
    by (auto simp: admit_def split: option.splits if_splits)
  then show ?thesis by (simp add: unat_checked_add)
qed

definition policy_admits :: "p0_authorizer \<Rightarrow> string \<Rightarrow> u64 \<Rightarrow> bool" where
  "policy_admits a d m \<longleftrightarrow>
     (\<exists>p. hm_get (pa_domains a) d = Some p \<and> dp_enabled p \<and> m \<le> dp_max_magnitude p)"

lemma check_policy_Inr: "(\<exists>p. check_policy a d m = Inr p) \<longleftrightarrow> policy_admits a d m"
  by (auto simp: check_policy_def policy_admits_def not_less split: option.splits)

lemma check_policy_Inl: "check_policy a d m = Inl v \<Longrightarrow> v = VImpossible"
  by (auto simp: check_policy_def split: option.splits if_splits)

text \<open>A reservation is granted exactly when the policy admits it and it fits.\<close>

lemma check_only_iff:
  "check_only a d m = VAuthorized \<longleftrightarrow>
     policy_admits a d m \<and> unat (pa_capacity a) + unat m \<le> unat (pa_max_capacity a)"
  using check_policy_Inr [of a d m] check_policy_Inl [of a d m]
  by (auto simp: check_only_def admit_Some_iff admit_None_iff not_less split: sum.splits option.splits)

lemma try_reserve_fst: "fst (try_reserve a d m) = check_only a d m"
  by (auto simp: try_reserve_def check_only_def split: sum.splits option.splits)

lemma try_reserve_cases:
  obtains (granted) n where "try_reserve a d m = (VAuthorized, a\<lparr>pa_capacity := n\<rparr>)"
      "admit (pa_capacity a) m (pa_max_capacity a) = Some n"
  | (denied) "try_reserve a d m = (VImpossible, a)"
proof (cases "check_policy a d m")
  case (Inl v)
  with check_policy_Inl [OF Inl] denied show ?thesis by (simp add: try_reserve_def)
next
  case (Inr p)
  with granted denied show ?thesis
    by (cases "admit (pa_capacity a) m (pa_max_capacity a)") (auto simp: try_reserve_def)
qed

interpretation p0: slime_authorizer try_reserve check_only capacity_used capacity_max capacity_ok
proof unfold_locales
  fix a d m
  show "fst (try_reserve a d m) = check_only a d m" by (rule try_reserve_fst)
  show "capacity_ok a \<Longrightarrow> capacity_ok (snd (try_reserve a d m))"
    by (cases rule: try_reserve_cases [of a d m]) (auto simp: capacity_ok_def dest: admit_unat)
  show "capacity_max (snd (try_reserve a d m)) = capacity_max a"
    by (cases rule: try_reserve_cases [of a d m]) (auto simp: capacity_max_def)
  show "unat (capacity_used (snd (try_reserve a d m))) = unat (capacity_used a) + unat m"
    if "fst (try_reserve a d m) = VAuthorized"
    using that by (cases rule: try_reserve_cases [of a d m]) (auto simp: capacity_used_def dest: admit_unat)
  show "snd (try_reserve a d m) = a" if "fst (try_reserve a d m) = VImpossible"
    using that by (cases rule: try_reserve_cases [of a d m]) auto
next
  fix a
  show "capacity_ok a \<Longrightarrow> unat (capacity_used a) \<le> unat (capacity_max a)"
    by (simp add: capacity_ok_def capacity_used_def capacity_max_def word_le_nat_alt)
qed

section \<open>The registry\<close>

type_synonym agent_registry = "(string, p0_authorizer) hmap"

text \<open>\<open>session\<close> gives the fresh UUID of each authorizer.\<close>

definition registry_new :: "(string \<Rightarrow> string) \<Rightarrow> agent_config list \<Rightarrow> agent_registry" where
  "registry_new session configs =
     hm_collect (map (\<lambda>c. (ac_agent_id c,
       p0_new (ac_max_capacity c) (ac_domain_policies c) (session (ac_agent_id c)))) configs)"

definition registry_get :: "agent_registry \<Rightarrow> string \<Rightarrow> p0_authorizer option" where
  "registry_get r aid = hm_get r aid"

definition registry_agent_ids :: "agent_registry \<Rightarrow> string list" where
  "registry_agent_ids r = hm_keys r"

definition registry_len :: "agent_registry \<Rightarrow> nat" where
  "registry_len r = hm_len r"

text \<open>The one operation that changes a registry: an agent's reservation, through its authorizer.\<close>

definition registry_reserve ::
  "agent_registry \<Rightarrow> string \<Rightarrow> string \<Rightarrow> u64 \<Rightarrow> slime_verdict option \<times> agent_registry" where
  "registry_reserve r aid d m =
     (case registry_get r aid of
        None \<Rightarrow> (None, r)
      | Some a \<Rightarrow> (let (v, a') = try_reserve a d m in (Some v, hm_insert aid a' r)))"

lemma capacity_ok_new: "capacity_ok (p0_new cap doms s)"
  by (simp add: capacity_ok_def p0_new_def)

lemma registry_reserve_other:
  "aid' \<noteq> aid \<Longrightarrow> registry_get (snd (registry_reserve r aid d m)) aid' = registry_get r aid'"
  by (auto simp: registry_reserve_def registry_get_def hmap_simps split: option.splits prod.splits)

section \<open>Properties\<close>

text \<open>C9: an agent's capacity is never exceeded. Whatever sequence of reservations is made
  against a new authorizer, the counter equals the sum of the magnitudes granted (no wrap-around)
  and that sum is at most the agent's maximum.\<close>

theorem capacity_never_exceeded:
  "unat (capacity_used (snd (p0.run (p0_new cap doms session) reqs))) =
     p0.granted reqs (fst (p0.run (p0_new cap doms session) reqs)) \<and>
   p0.granted reqs (fst (p0.run (p0_new cap doms session) reqs)) \<le> unat cap"
  using p0.run_used [of "p0_new cap doms session" reqs]
    p0.run_bounded [OF capacity_ok_new, of cap doms session reqs]
  by (simp add: capacity_used_def capacity_max_def p0_new_def)

text \<open>A reservation is decided exactly: authorized iff the domain is configured, enabled,
  the magnitude is within the domain's limit and the new total fits the capacity, computed
  without wrap-around. Then the counter moves by the magnitude; otherwise nothing changes. The
  dry run gives the same verdict.\<close>

theorem try_reserve_exact:
  "try_reserve a d m =
     (if (\<exists>p. hm_get (pa_domains a) d = Some p \<and> dp_enabled p \<and> m \<le> dp_max_magnitude p) \<and>
         unat (pa_capacity a) + unat m \<le> unat (pa_max_capacity a)
      then (VAuthorized, a\<lparr>pa_capacity := pa_capacity a + m\<rparr>) else (VImpossible, a)) \<and>
   check_only a d m = fst (try_reserve a d m)"
proof -
  note v = check_only_iff [of a d m, folded try_reserve_fst]
  show ?thesis
  proof (cases rule: try_reserve_cases [of a d m])
    case (granted n)
    then have "n = pa_capacity a + m" by (simp add: admit_Some_iff)
    with granted v show ?thesis by (simp add: policy_admits_def try_reserve_fst [symmetric])
  next
    case denied
    with v show ?thesis by (auto simp: policy_admits_def try_reserve_fst [symmetric])
  qed
qed

text \<open>Agents have separate capacities: a reservation by one agent leaves every other
  agent's authorizer, and so its remaining capacity and verdicts, as it was, and adds no agent.\<close>

theorem agents_isolated:
  "(\<forall>aid' \<in> - {aid}. registry_get (snd (registry_reserve r aid d m)) aid' = registry_get r aid') \<and>
   (registry_get r aid = None \<longrightarrow> snd (registry_reserve r aid d m) = r)"
  using registry_reserve_other [of _ aid r d m]
  by (auto simp: registry_reserve_def split: option.splits)

text \<open>Two agents; the first exhausts its capacity, the second keeps all of its own.\<close>

theorem agents_isolated_witness:
  "registry_get (snd (registry_reserve
       [(''a'', p0_new 5 [(''fs'', \<lparr>dp_enabled = True, dp_max_magnitude = 5\<rparr>)] ''s''),
        (''b'', p0_new 7 [] ''t'')] ''a'' ''fs'' 5)) ''b'' = Some (p0_new 7 [] ''t'')"
proof -
  let ?r = "[(''a'', p0_new 5 [(''fs'', \<lparr>dp_enabled = True, dp_max_magnitude = 5\<rparr>)] ''s''),
             (''b'', p0_new 7 [] ''t'')]"
  have "registry_get (snd (registry_reserve ?r ''a'' ''fs'' 5)) ''b'' = registry_get ?r ''b''"
    by (rule bspec [OF conjunct1 [OF agents_isolated [of "''a''" ?r "''fs''" 5]]]) simp
  then show ?thesis by (simp add: registry_get_def hmap_simps)
qed

end
