(* ===== verification/Proof_Store.thy ===== *)
theory Proof_Store
  imports Errors
begin

text \<open>
  \<open>safa-core/src/audit.rs\<close>: the audit entry, the proof records behind \<open>/ama/proof\<close>, and the
  request hash. Hashing is the \<open>sha2\<close> crate's: \<open>sha256_hex\<close> stands for the digest of a byte
  string printed in lower-case hexadecimal. \<open>log_audit\<close> hands the fields of an entry to
  \<open>tracing\<close>; the model keeps the emitted entries as a list where the pipeline emits them.
\<close>

record audit_entry =
  ae_timestamp :: string
  ae_session_id :: string
  ae_action_id :: string
  ae_adapter :: string
  ae_action :: string
  ae_domain_id :: string
  ae_magnitude_effective :: u64
  ae_duration_ms :: nat
  ae_status :: string
  ae_request_hash :: string
  ae_truncated :: bool

record proof_record =
  pr_request_id :: string
  pr_agent_id :: string
  pr_action :: string
  pr_verdict :: string
  pr_manifest_hash :: string
  pr_timestamp :: string

record proof_store =
  ps_records :: "(string, proof_record) hmap"
  ps_max_entries :: nat

definition proof_store_new :: "nat \<Rightarrow> proof_store" where
  "proof_store_new max_entries = \<lparr>ps_records = [], ps_max_entries = max_entries\<rparr>"

text \<open>
  The evicted entry is the first key the map iterates over. The standard library promises
  nothing about that key but that it is one of the map's; \<open>first\<close> is any such choice.
\<close>

definition proof_insert :: "(string list \<Rightarrow> string) \<Rightarrow> proof_store \<Rightarrow> proof_record \<Rightarrow> proof_store" where
  "proof_insert first ps r =
     (let records = ps_records ps;
          records' =
            (if ps_max_entries ps \<le> hm_len records then
               (if hm_keys records = [] then records
                else hm_remove (first (hm_keys records)) records)
             else records)
      in ps\<lparr>ps_records := hm_insert (pr_request_id r) r records'\<rparr>)"

definition proof_get :: "proof_store \<Rightarrow> string \<Rightarrow> proof_record option" where
  "proof_get ps request_id = hm_get (ps_records ps) request_id"

text \<open>\<open>u64::to_le_bytes\<close>.\<close>

definition to_le_bytes :: "u64 \<Rightarrow> bytes" where
  "to_le_bytes w = map (\<lambda>i. char_of (unat (drop_bit (8 * i) w))) [0..<8]"

text \<open>The bytes fed to the hasher, in the order of the \<open>update\<close> calls.\<close>

definition request_preimage :: "string \<Rightarrow> string \<Rightarrow> u64 \<Rightarrow> bytes" where
  "request_preimage action target magnitude =
     action @ ''|'' @ target @ ''|'' @ to_le_bytes magnitude"

definition compute_request_hash :: "(bytes \<Rightarrow> string) \<Rightarrow> string \<Rightarrow> string \<Rightarrow> u64 \<Rightarrow> string" where
  "compute_request_hash sha256_hex action target magnitude =
     sha256_hex (request_preimage action target magnitude)"

text \<open>The event \<open>log_audit\<close> hands to \<open>tracing\<close>: its fields and its message.\<close>

definition log_audit :: "audit_entry \<Rightarrow> (string \<times> json) list \<times> string" where
  "log_audit entry =
     ([(''timestamp'', JStr (ae_timestamp entry)),
       (''session_id'', JStr (ae_session_id entry)),
       (''action_id'', JStr (ae_action_id entry)),
       (''adapter'', JStr (ae_adapter entry)),
       (''action'', JStr (ae_action entry)),
       (''domain_id'', JStr (ae_domain_id entry)),
       (''magnitude'', JNum (uint (ae_magnitude_effective entry))),
       (''duration_ms'', JNum (int (ae_duration_ms entry))),
       (''status'', JStr (ae_status entry)),
       (''request_hash'', JStr (ae_request_hash entry)),
       (''truncated'', JBool (ae_truncated entry))],
      ''SAFA_AUDIT'')"

text \<open>Nothing of an entry is lost on the way to the log.\<close>

lemma log_audit_inj: "log_audit e = log_audit e' \<longleftrightarrow> e = e'"
  by (cases e, cases e') (auto simp: log_audit_def word_uint_eq_iff)

section \<open>The proof store\<close>

definition proof_store_inv :: "proof_store \<Rightarrow> bool" where
  "proof_store_inv ps \<longleftrightarrow>
     hm_wf (ps_records ps) \<and> hm_len (ps_records ps) \<le> ps_max_entries ps \<and>
     (\<forall>k r. hm_get (ps_records ps) k = Some r \<longrightarrow> pr_request_id r = k)"

text \<open>A choice of an element of every list that has one.\<close>

definition picks :: "('a list \<Rightarrow> 'a) \<Rightarrow> bool" where
  "picks first \<longleftrightarrow> (\<forall>xs. xs \<noteq> [] \<longrightarrow> first xs \<in> set xs)"

lemma picks_hd: "picks hd"
  by (simp add: picks_def)

lemma proof_insert_records:
  assumes "picks first" and "proof_store_inv ps" and "0 < ps_max_entries ps"
  obtains victim where "hm_get (ps_records ps) victim \<noteq> None \<or> hm_len (ps_records ps) < ps_max_entries ps"
    and "ps_records (proof_insert first ps r) =
      hm_insert (pr_request_id r) r
        (if ps_max_entries ps \<le> hm_len (ps_records ps) then hm_remove victim (ps_records ps)
         else ps_records ps)"
proof
  let ?keys = "hm_keys (ps_records ps)"
  have full: "?keys \<noteq> []" if "ps_max_entries ps \<le> hm_len (ps_records ps)"
    using that assms(3) hm.len_keys [of "ps_records ps"] by auto
  then show "hm_get (ps_records ps) (first ?keys) \<noteq> None \<or> hm_len (ps_records ps) < ps_max_entries ps"
    using assms(1) unfolding picks_def by (metis hm_keys_get not_less)
  from full show "ps_records (proof_insert first ps r) =
      hm_insert (pr_request_id r) r
        (if ps_max_entries ps \<le> hm_len (ps_records ps) then hm_remove (first ?keys) (ps_records ps)
         else ps_records ps)"
    by (simp add: proof_insert_def Let_def)
qed

lemma proof_insert_max [simp]: "ps_max_entries (proof_insert first ps r) = ps_max_entries ps"
  by (simp add: proof_insert_def Let_def)

lemma proof_insert_inv:
  assumes "picks first" and "proof_store_inv ps" and "0 < ps_max_entries ps"
  shows "proof_store_inv (proof_insert first ps r)"
proof (rule proof_insert_records [OF assms, of r])
  fix victim
  assume victim: "hm_get (ps_records ps) victim \<noteq> None \<or> hm_len (ps_records ps) < ps_max_entries ps"
    and eq: "ps_records (proof_insert first ps r) =
      hm_insert (pr_request_id r) r
        (if ps_max_entries ps \<le> hm_len (ps_records ps) then hm_remove victim (ps_records ps)
         else ps_records ps)"
  have inv: "hm_wf (ps_records ps)" "hm_len (ps_records ps) \<le> ps_max_entries ps"
    using assms(2) by (simp_all add: proof_store_inv_def)
  from victim have "hm_len (ps_records (proof_insert first ps r)) \<le> ps_max_entries ps"
  proof
    assume "hm_get (ps_records ps) victim \<noteq> None"
    from hm.evict_insert_len [OF inv assms(3) this] show ?thesis unfolding eq .
  next
    assume "hm_len (ps_records ps) < ps_max_entries ps"
    then show ?thesis unfolding eq by (simp add: hmap_simps)
  qed
  with assms(2) show ?thesis
    unfolding proof_store_inv_def eq by (auto simp: hmap_simps)
qed

fun proof_insert_all ::
  "(string list \<Rightarrow> string) \<Rightarrow> proof_store \<Rightarrow> proof_record list \<Rightarrow> proof_store" where
  "proof_insert_all first ps [] = ps"
| "proof_insert_all first ps (r # rs) = proof_insert_all first (proof_insert first ps r) rs"

lemma proof_insert_all_inv:
  "picks first \<Longrightarrow> proof_store_inv ps \<Longrightarrow> 0 < ps_max_entries ps \<Longrightarrow>
     proof_store_inv (proof_insert_all first ps rs) \<and>
     ps_max_entries (proof_insert_all first ps rs) = ps_max_entries ps"
  by (induction rs arbitrary: ps) (auto simp: proof_insert_inv)

lemma proof_store_inv_new: "proof_store_inv (proof_store_new n)"
  by (simp add: proof_store_inv_def proof_store_new_def hm_len_def hmap_simps)

text \<open>A record that is returned was inserted, under the identifier it is asked for.\<close>

lemma proof_get_insert:
  "proof_get (proof_insert first ps r) k =
     (if k = pr_request_id r then Some r
      else if ps_max_entries ps \<le> hm_len (ps_records ps) \<and> hm_keys (ps_records ps) \<noteq> [] \<and>
              k = first (hm_keys (ps_records ps)) then None
      else proof_get ps k)"
  by (auto simp: proof_get_def proof_insert_def Let_def hmap_simps)

lemma proof_get_insert_all:
  "proof_get (proof_insert_all first ps rs) k = Some r \<Longrightarrow>
     r \<in> set rs \<and> pr_request_id r = k \<or> proof_get ps k = Some r"
proof (induction rs arbitrary: ps)
  case (Cons a rs)
  from Cons.IH [of "proof_insert first ps a"] Cons.prems show ?case
    by (auto simp: proof_get_insert split: if_splits)
qed simp

section \<open>The hashed bytes\<close>

lemma to_le_bytes_length [simp]: "length (to_le_bytes w) = 8"
  by (simp add: to_le_bytes_def)

lemma to_le_bytes_inj: "to_le_bytes v = to_le_bytes w \<Longrightarrow> v = w"
proof -
  assume eq: "to_le_bytes v = to_le_bytes w"
  have byte: "take_bit 8 (drop_bit (8 * i) v) = take_bit 8 (drop_bit (8 * i) w)" if "i < 8" for i
  proof -
    have char: "to_le_bytes u ! i = char_of (unat (drop_bit (8 * i) u))" for u
      using that by (simp add: to_le_bytes_def)
    have "(of_char (char_of (unat (drop_bit (8 * i) v)) :: char) :: nat) =
          of_char (char_of (unat (drop_bit (8 * i) w)) :: char)"
      using eq by (metis char)
    then have "unat (drop_bit (8 * i) v) mod 256 = unat (drop_bit (8 * i) w) mod 256"
      by simp
    then have "take_bit 8 (unat (drop_bit (8 * i) v)) = take_bit 8 (unat (drop_bit (8 * i) w))"
      by (simp add: take_bit_eq_mod)
    then have "unat (take_bit 8 (drop_bit (8 * i) v)) = unat (take_bit 8 (drop_bit (8 * i) w))"
      by (simp only: unsigned_take_bit_eq)
    then show ?thesis by (simp only: word_unat_eq_iff)
  qed
  show "v = w"
  proof (rule bit_word_eqI)
    fix n assume "n < LENGTH(64)"
    then have i: "n div 8 < 8" by (simp add: less_mult_imp_div_less)
    have "bit u n = bit (take_bit 8 (drop_bit (8 * (n div 8)) u)) (n mod 8)" for u :: u64
      by (simp add: bit_take_bit_iff bit_drop_bit_eq)
    with byte [OF i] show "bit v n = bit w n" by metis
  qed
qed

text \<open>The separator splits off the action when the action does not contain it.\<close>

lemma sep_split:
  assumes "a @ c # x = a' @ c # x'" and "c \<notin> set a" and "c \<notin> set a'"
  shows "a = a' \<and> x = x'"
  using assms
proof (induction a arbitrary: a')
  case Nil
  then show ?case by (cases a') auto
next
  case (Cons y a)
  then show ?case by (cases a') auto
qed

lemma request_preimage_inj:
  assumes "request_preimage a t m = request_preimage a' t' m'"
    and "CHR ''|'' \<notin> set a" and "CHR ''|'' \<notin> set a'"
  shows "a = a' \<and> t = t' \<and> m = m'"
proof -
  from assms(1) have "a @ CHR ''|'' # (t @ ''|'' @ to_le_bytes m) =
      a' @ CHR ''|'' # (t' @ ''|'' @ to_le_bytes m')" by (simp add: request_preimage_def)
  from sep_split [OF this assms(2,3)]
  have a: "a = a'" and rest: "(t @ ''|'') @ to_le_bytes m = (t' @ ''|'') @ to_le_bytes m'" by simp_all
  from rest have "to_le_bytes m = to_le_bytes m'" and "t @ ''|'' = t' @ ''|''"
    by (simp_all add: append_eq_append_conv del: append_assoc)
  with a to_le_bytes_inj show ?thesis by auto
qed

section \<open>Properties\<close>

text \<open>The proof store stays bounded and honest. After any sequence of insertions, whichever
  entries the map's iteration order evicts, it holds at most its maximum of records, every record
  it returns for an identifier is one that was inserted under that identifier, and the record
  inserted last is there.\<close>

theorem proof_store_bounded:
  assumes "picks first" and "0 < n"
  shows "hm_len (ps_records (proof_insert_all first (proof_store_new n) rs)) \<le> n \<and>
     (\<forall>k r. proof_get (proof_insert_all first (proof_store_new n) rs) k = Some r \<longrightarrow>
        r \<in> set rs \<and> pr_request_id r = k) \<and>
     proof_get (proof_insert first (proof_insert_all first (proof_store_new n) rs) r') (pr_request_id r') =
       Some r'"
proof -
  have "ps_max_entries (proof_store_new n) = n" by (simp add: proof_store_new_def)
  with proof_insert_all_inv [OF assms(1) proof_store_inv_new, of n rs] assms(2)
  have "hm_len (ps_records (proof_insert_all first (proof_store_new n) rs)) \<le> n"
    by (simp add: proof_store_inv_def)
  moreover have "proof_get (proof_store_new n) k = None" for k
    by (simp add: proof_get_def proof_store_new_def hmap_simps)
  ultimately show ?thesis
    using proof_get_insert_all [of first "proof_store_new n" rs] by (auto simp: proof_get_insert)
qed

theorem proof_store_bounded_witness:
  "let r = (\<lambda>i. \<lparr>pr_request_id = i, pr_agent_id = ''a'', pr_action = ''file_read'',
               pr_verdict = ''AUTHORIZED'', pr_manifest_hash = ''h'', pr_timestamp = ''0''\<rparr>);
       ps = proof_insert_all hd (proof_store_new 2) [r ''1'', r ''2'', r ''3'']
   in hm_len (ps_records ps) \<le> 2 \<and> proof_get ps ''1'' = None \<and> proof_get ps ''3'' = Some (r ''3'')"
proof -
  let ?r = "\<lambda>i. \<lparr>pr_request_id = i, pr_agent_id = ''a'', pr_action = ''file_read'',
               pr_verdict = ''AUTHORIZED'', pr_manifest_hash = ''h'', pr_timestamp = ''0''\<rparr>"
  have "proof_get (proof_insert_all hd (proof_store_new 2) [?r ''1'', ?r ''2'', ?r ''3'']) ''1'' = None \<and>
        proof_get (proof_insert_all hd (proof_store_new 2) [?r ''1'', ?r ''2'', ?r ''3'']) ''3'' = Some (?r ''3'')"
    by code_simp
  with proof_store_bounded [OF picks_hd, of 2 "[?r ''1'', ?r ''2'', ?r ''3'']" "?r ''3''"] show ?thesis
    by (simp add: Let_def del: proof_insert_all.simps)
qed

text \<open>The audit hash identifies the request: two requests whose actions contain no bar and
  whose hashes agree have the same action, target and magnitude, or their two preimages are a
  collision of SHA-256.\<close>

theorem request_hash_binds:
  assumes "CHR ''|'' \<notin> set a" and "CHR ''|'' \<notin> set a'"
    and "compute_request_hash sha a t m = compute_request_hash sha a' t' m'"
  shows "(a = a' \<and> t = t' \<and> m = m') \<or>
     (request_preimage a t m \<noteq> request_preimage a' t' m' \<and>
      sha (request_preimage a t m) = sha (request_preimage a' t' m'))"
  using assms request_preimage_inj [OF _ assms(1,2)] by (auto simp: compute_request_hash_def)

theorem request_hash_binds_witness:
  "request_preimage ''file_read'' ''x'' 258 =
     ''file_read|x|'' @ [CHR 0x02, CHR 0x01, CHR 0x00, CHR 0x00, CHR 0x00, CHR 0x00, CHR 0x00, CHR 0x00] \<and>
   compute_request_hash id ''file_read'' ''x'' 258 \<noteq> compute_request_hash id ''file_read'' ''x'' 2"
proof -
  have "compute_request_hash id ''file_read'' ''x'' 258 \<noteq> compute_request_hash id ''file_read'' ''x'' 2"
  proof
    assume "compute_request_hash id ''file_read'' ''x'' 258 = compute_request_hash id ''file_read'' ''x'' 2"
    from request_hash_binds [OF _ _ this] show False by simp
  qed
  moreover have "request_preimage ''file_read'' ''x'' 258 =
      ''file_read|x|'' @ [CHR 0x02, CHR 0x01, CHR 0x00, CHR 0x00, CHR 0x00, CHR 0x00, CHR 0x00, CHR 0x00]"
    by code_simp
  ultimately show ?thesis by blast
qed

end
