(* ===== verification/Identity.thy ===== *)
theory Identity
  imports Proof_Store Agent_Config
begin

text \<open>
  \<open>safa-core/src/identity.rs\<close>: identity binding by HMAC-SHA256. The \<open>sha2\<close>, \<open>hmac\<close> and
  \<open>hex\<close> crates are the fields of \<open>crypto\<close>; what the code relies on of them is \<open>hex_ok\<close>.
  \<open>verify_slice\<close> accepts exactly the bytes of the tag.
\<close>

record crypto =
  sha256_hex :: "bytes \<Rightarrow> string"
  hmac_sha256 :: "bytes \<Rightarrow> bytes \<Rightarrow> bytes"
  hex_encode :: "bytes \<Rightarrow> string"
  hex_decode :: "string \<Rightarrow> bytes option"

definition hex_ok :: "crypto \<Rightarrow> bool" where
  "hex_ok X \<longleftrightarrow> (\<forall>b. hex_decode X (hex_encode X b) = Some b)"

definition timestamp_tolerance_secs :: u64 where
  "timestamp_tolerance_secs = 300"

datatype identity_error =
    MissingTimestamp
  | InvalidTimestamp
  | ExpiredTimestamp
  | MissingSignature
  | InvalidSignatureFormat
  | SignatureMismatch

fun identity_error_display :: "identity_error \<Rightarrow> string" where
  "identity_error_display MissingTimestamp = ''missing X-Agent-Timestamp header''"
| "identity_error_display InvalidTimestamp = ''X-Agent-Timestamp is not a valid unix timestamp''"
| "identity_error_display ExpiredTimestamp =
     ''X-Agent-Timestamp outside acceptable window (+-'' @ show_u64 timestamp_tolerance_secs @ ''s)''"
| "identity_error_display MissingSignature = ''missing X-Agent-Signature header''"
| "identity_error_display InvalidSignatureFormat = ''X-Agent-Signature is not valid hex''"
| "identity_error_display SignatureMismatch = ''HMAC signature verification failed''"

definition body_hash :: "crypto \<Rightarrow> bytes \<Rightarrow> string" where
  "body_hash X body = sha256_hex X body"

definition build_signing_message :: "string \<Rightarrow> string \<Rightarrow> string \<Rightarrow> string" where
  "build_signing_message agent_id timestamp body_sha256 =
     agent_id @ ''.'' @ timestamp @ ''.'' @ body_sha256"

definition compute_signature ::
  "crypto \<Rightarrow> string \<Rightarrow> string \<Rightarrow> string \<Rightarrow> bytes \<Rightarrow> string" where
  "compute_signature X secret agent_id timestamp body =
     (let body_sha = body_hash X body;
          message = build_signing_message agent_id timestamp body_sha
      in hex_encode X (hmac_sha256 X secret message))"

definition verify_identity ::
  "crypto \<Rightarrow> string \<Rightarrow> string \<Rightarrow> string option \<Rightarrow> string option \<Rightarrow> bytes \<Rightarrow> u64
     \<Rightarrow> identity_error + unit" where
  "verify_identity X secret agent_id timestamp_str signature_hex body now_secs =
     rbind (ok_or timestamp_str MissingTimestamp) (\<lambda>ts.
     rbind (ok_or (parse_u64 ts) InvalidTimestamp) (\<lambda>timestamp.
     if abs_diff now_secs timestamp > timestamp_tolerance_secs then Inl ExpiredTimestamp
     else
     rbind (ok_or signature_hex MissingSignature) (\<lambda>sig.
     rbind (ok_or (hex_decode X sig) InvalidSignatureFormat) (\<lambda>provided_sig.
     let body_sha = body_hash X body;
         message = build_signing_message agent_id ts body_sha
     in if provided_sig = hmac_sha256 X secret message then Inr () else Inl SignatureMismatch))))"

section \<open>What verification accepts\<close>

text \<open>Acceptance, exactly.\<close>

lemma verify_identity_ok_iff:
  "verify_identity X secret aid ts sig body now = Inr () \<longleftrightarrow>
     (\<exists>t s timestamp.
        ts = Some t \<and> sig = Some s \<and> parse_u64 t = Some timestamp \<and>
        unat now \<le> unat timestamp + 300 \<and> unat timestamp \<le> unat now + 300 \<and>
        hex_decode X s = Some (hmac_sha256 X secret (build_signing_message aid t (body_hash X body))))"
proof -
  have "abs_diff now w > timestamp_tolerance_secs \<longleftrightarrow>
        \<not> (unat now \<le> unat w + 300 \<and> unat w \<le> unat now + 300)" for w
    by (auto simp: word_less_nat_alt unat_abs_diff timestamp_tolerance_secs_def)
  then show ?thesis
    by (auto simp: verify_identity_def result_simps Let_def split: if_splits)
qed

lemma digits_val_digits:
  "digits_val b acc s = Some n \<Longrightarrow> c \<in> set s \<Longrightarrow> 48 \<le> (of_char c :: nat) \<and> (of_char c :: nat) \<le> 57"
  by (induction b acc s rule: digits_val.induct)
    (auto simp: digit_val_def Let_def split: option.splits if_splits)

lemma parse_u64_no_dot: "parse_u64 t = Some w \<Longrightarrow> CHR ''.'' \<notin> set t"
proof
  assume "parse_u64 t = Some w" and dot: "CHR ''.'' \<in> set t"
  then obtain n where n: "parse_nat (2 ^ 64) t = Some n" by (auto simp: parse_u64_def)
  then obtain c cs where t: "t = c # cs" by (cases t) (auto simp: parse_nat_def)
  from n have "digits_val (2 ^ 64) 0 (if c = CHR ''+'' then cs else t) = Some n"
    by (auto simp: parse_nat_def t Let_def split: if_splits)
  moreover from dot have "CHR ''.'' \<in> set (if c = CHR ''+'' then cs else t)" by (auto simp: t)
  ultimately have "48 \<le> (of_char (CHR ''.'') :: nat)" using digits_val_digits by blast
  then show False by simp
qed

text \<open>Signed messages of different requests differ, as long as agent names have no dot.\<close>

lemma signing_message_inj:
  assumes "build_signing_message a t h = build_signing_message a' t' h'"
    and "CHR ''.'' \<notin> set a" and "CHR ''.'' \<notin> set a'" and "CHR ''.'' \<notin> set t" and "CHR ''.'' \<notin> set t'"
  shows "a = a' \<and> t = t' \<and> h = h'"
proof -
  from assms(1) have "a @ CHR ''.'' # (t @ CHR ''.'' # h) = a' @ CHR ''.'' # (t' @ CHR ''.'' # h')"
    by (simp add: build_signing_message_def)
  from sep_split [OF this assms(2,3)] have a: "a = a'" and "t @ CHR ''.'' # h = t' @ CHR ''.'' # h'"
    by simp_all
  from sep_split [OF this(2) assms(4,5)] a show ?thesis by simp
qed

text \<open>A name the configuration accepts has no dot, unless Unicode calls the dot a letter.\<close>

lemma wf_agent_no_dot:
  assumes "wf_agent U a"
  shows "CHR ''.'' \<notin> set (ac_agent_id a)"
proof
  assume "CHR ''.'' \<in> set (ac_agent_id a)"
  from wf_agent_id_chars [OF assms _ this] have "agent_id_char U (of_char (CHR ''.''))" by simp
  then show False by (simp add: agent_id_char_def is_alphanumeric_def ascii_alphanumeric_def)
qed

section \<open>Properties\<close>

text \<open>Verification accepts a request exactly when both headers are there, the timestamp is a
  decimal number within 300 seconds of the server's clock (at either side, up to the ends of the
  number range), and the signature decodes to the HMAC of agent, timestamp and body hash.\<close>

theorem verification_exact:
  "verify_identity X secret aid ts sig body now = Inr () \<longleftrightarrow>
     (\<exists>t s w. ts = Some t \<and> sig = Some s \<and> parse_u64 t = Some w \<and>
        unat now \<le> unat w + 300 \<and> unat w \<le> unat now + 300 \<and>
        hex_decode X s = Some (hmac_sha256 X secret (aid @ ''.'' @ t @ ''.'' @ sha256_hex X body)))"
  by (simp add: verify_identity_ok_iff build_signing_message_def body_hash_def)

text \<open>What an agent signs verifies: with the signature \<open>compute_signature\<close> makes for the decimal
  timestamp, \<open>verify_identity\<close> accepts at every server time at most 300 seconds away.\<close>

theorem signed_request_verifies:
  assumes "hex_ok X" and "unat now \<le> unat ts + 300" and "unat ts \<le> unat now + 300"
  shows "verify_identity X secret aid (Some (show_u64 ts))
     (Some (compute_signature X secret aid (show_u64 ts) body)) body now = Inr ()"
  using assms by (simp add: verify_identity_ok_iff compute_signature_def hex_ok_def)

text \<open>An injective toy hash and message authentication code, to have a concrete instance.\<close>

definition toy_crypto :: crypto where
  "toy_crypto = \<lparr>sha256_hex = (\<lambda>b. ''h'' @ b), hmac_sha256 = (\<lambda>k m. k @ ''|'' @ m),
     hex_encode = (\<lambda>b. b), hex_decode = Some\<rparr>"

theorem signed_request_verifies_witness:
  "verify_identity toy_crypto ''secret'' ''agent'' (Some (show_u64 1000))
     (Some (compute_signature toy_crypto ''secret'' ''agent'' (show_u64 1000) ''body'')) ''body'' 1300 = Inr () \<and>
   verify_identity toy_crypto ''secret'' ''agent'' (Some (show_u64 1000))
     (Some (compute_signature toy_crypto ''secret'' ''agent'' (show_u64 1000) ''body'')) ''body'' 1301
     = Inl ExpiredTimestamp"
proof -
  have "hex_ok toy_crypto" by (simp add: hex_ok_def toy_crypto_def)
  from signed_request_verifies [OF this, of 1300 1000 "''secret''" "''agent''" "''body''"]
  show ?thesis by (simp add: verify_identity_def abs_diff_def timestamp_tolerance_secs_def)
qed

text \<open>C36: a signature is bound to one agent, timestamp and body. If one signature is accepted,
  under one secret, for two requests of agents whose names have no dot, the requests agree in
  agent, timestamp and body hash, or the two signed messages are a collision of the HMAC under
  that secret. So a captured signature cannot be moved to another agent, time or body.\<close>

theorem signature_binds_request:
  assumes "CHR ''.'' \<notin> set a" and "CHR ''.'' \<notin> set a'"
    and "verify_identity X secret a (Some t) (Some s) body now = Inr ()"
    and "verify_identity X secret a' (Some t') (Some s) body' now' = Inr ()"
  shows "(a = a' \<and> t = t' \<and> body_hash X body = body_hash X body') \<or>
     (build_signing_message a t (body_hash X body) \<noteq> build_signing_message a' t' (body_hash X body') \<and>
      hmac_sha256 X secret (build_signing_message a t (body_hash X body)) =
      hmac_sha256 X secret (build_signing_message a' t' (body_hash X body')))"
proof -
  from assms(3,4) have ts: "CHR ''.'' \<notin> set t" "CHR ''.'' \<notin> set t'"
    by (auto simp: verify_identity_ok_iff dest: parse_u64_no_dot)
  from assms(3,4) have "hmac_sha256 X secret (build_signing_message a t (body_hash X body)) =
      hmac_sha256 X secret (build_signing_message a' t' (body_hash X body'))"
    by (auto simp: verify_identity_ok_iff)
  with signing_message_inj [OF _ assms(1,2) ts] show ?thesis by blast
qed

text \<open>For the toy code, which has no collisions, a signature for one body is refused for another.\<close>

theorem signature_binds_request_witness:
  "verify_identity toy_crypto ''k'' ''a'' (Some ''5'') (Some ''k|a.5.hx'') ''x'' 5 = Inr () \<and>
   verify_identity toy_crypto ''k'' ''a'' (Some ''5'') (Some ''k|a.5.hx'') ''y'' 5 \<noteq> Inr ()"
proof -
  have ok: "verify_identity toy_crypto ''k'' ''a'' (Some ''5'') (Some ''k|a.5.hx'') ''x'' 5 = Inr ()"
    by (simp add: verify_identity_def toy_crypto_def body_hash_def build_signing_message_def
        parse_u64_def parse_nat_def digit_val_def Let_def abs_diff_def)
  have "\<not> verify_identity toy_crypto ''k'' ''a'' (Some ''5'') (Some ''k|a.5.hx'') ''y'' 5 = Inr ()"
  proof
    assume "verify_identity toy_crypto ''k'' ''a'' (Some ''5'') (Some ''k|a.5.hx'') ''y'' 5 = Inr ()"
    from signature_binds_request [OF _ _ ok this] show False
      by (simp add: body_hash_def toy_crypto_def)
  qed
  with ok show ?thesis by blast
qed

end
