(* ===== verification/Actuator_Shell.thy ===== *)
theory Actuator_Shell
  imports Errors
begin

text \<open>
  \<open>safa-core/src/actuator/shell.rs\<close>: running a program. The kernel and the child are the
  argument \<open>spawn\<close>: for a command it gives what the parent observes of it. A stream is the
  list of pieces in which it becomes readable; the code reads each stream once. The result
  comes with the process events the code causes, in order.
\<close>

record command =
  cmd_program :: string
  cmd_args :: "string list"
  cmd_dir :: string
  cmd_env :: "(string \<times> string) list"
  cmd_own_group :: bool

text \<open>
  Starting fails, or the child runs under a pid: it finishes within the timeout, with the
  pieces of both streams (or a read error) and the wait status (an exit code, none when a
  signal ended it), or it does not.
\<close>

datatype child =
    SpawnFailed string
  | Finishes "int option" "string + bytes list" "string + bytes list" "string + int option"
  | Overruns "int option"

datatype proc_event =
    Spawned command
  | Killed int int
  | Slept nat
  | Reaped

definition sigterm :: int where "sigterm = 15"
definition sigkill :: int where "sigkill = 9"

record shell_exec_result =
  sh_stdout :: string
  sh_stderr :: string
  sh_exit_code :: int
  sh_truncated :: bool

definition shell_command :: "string \<Rightarrow> string list \<Rightarrow> string \<Rightarrow> string \<Rightarrow> command" where
  "shell_command binary args working_dir action_id =
     \<lparr>cmd_program = binary, cmd_args = args, cmd_dir = working_dir,
      cmd_env = [(''PATH'', ''/usr/bin:/bin''), (''HOME'', working_dir),
                 (''LANG'', ''en_US.UTF-8''), (''SAFA_ACTION_ID'', action_id)],
      cmd_own_group = True\<rparr>"

text \<open>One \<open>read\<close> into a buffer of \<open>n\<close> bytes, an error counting as nothing read.\<close>

definition read_once :: "nat \<Rightarrow> string + bytes list \<Rightarrow> bytes" where
  "read_once n stream =
     (case stream of
        Inl e \<Rightarrow> []
      | Inr [] \<Rightarrow> []
      | Inr (piece # rest) \<Rightarrow> take n piece)"

definition kill_sequence :: "int option \<Rightarrow> proc_event list" where
  "kill_sequence pid =
     (let p = unwrap_or 0 pid in
      (if p > 0 then [Killed (- p) sigterm] else []) @ [Slept 2] @
      (if p > 0 then [Killed (- p) sigkill] else []) @ [Reaped])"

definition capture ::
  "nat \<Rightarrow> bytes \<Rightarrow> bytes \<Rightarrow> string + int option \<Rightarrow> ama_error + shell_exec_result" where
  "capture max_output_bytes out err status =
     rbind (map_err (\<lambda>_. ServiceUnavailable ''stdout contains non-UTF-8 data'') (from_utf8 out)) (\<lambda>stdout.
     rbind (map_err (\<lambda>_. ServiceUnavailable ''stderr contains non-UTF-8 data'') (from_utf8 err)) (\<lambda>stderr.
     rbind (map_err (\<lambda>e. ServiceUnavailable (''wait failed: '' @ e)) status) (\<lambda>code.
     Inr \<lparr>sh_stdout = stdout, sh_stderr = stderr, sh_exit_code = unwrap_or (- 1) code,
          sh_truncated = (length out \<ge> max_output_bytes \<or> length err \<ge> max_output_bytes)\<rparr>)))"

definition shell_exec ::
  "(command \<Rightarrow> nat \<Rightarrow> child) \<Rightarrow> string \<Rightarrow> string list \<Rightarrow> string \<Rightarrow> string \<Rightarrow> nat \<Rightarrow> nat
    \<Rightarrow> proc_event list \<times> (ama_error + shell_exec_result)" where
  "shell_exec spawn binary args working_dir action_id timeout_secs max_output_bytes =
     (let cmd = shell_command binary args working_dir action_id in
      case spawn cmd timeout_secs of
        SpawnFailed e \<Rightarrow> ([], Inl (ServiceUnavailable (''failed to spawn process: '' @ e)))
      | Finishes pid out err status \<Rightarrow>
          ([Spawned cmd, Reaped],
           capture max_output_bytes (read_once max_output_bytes out) (read_once max_output_bytes err) status)
      | Overruns pid \<Rightarrow>
          (Spawned cmd # kill_sequence pid,
           Inr \<lparr>sh_stdout = [], sh_stderr = ''process killed: timeout exceeded'',
                sh_exit_code = - 1, sh_truncated = False\<rparr>))"

text \<open>Valid UTF-8 is returned as it is.\<close>

lemma from_utf8_Inr: "from_utf8 b = Inr x \<Longrightarrow> x = b"
  by (auto simp: from_utf8_def split: option.splits if_splits)

lemma read_once_length: "length (read_once n stream) \<le> n"
  by (auto simp: read_once_def split: sum.splits list.splits)

lemma capture_Inr_iff:
  "capture n out err status = Inr r \<longleftrightarrow>
     from_utf8 out = Inr out \<and> from_utf8 err = Inr err \<and>
     (\<exists>code. status = Inr code \<and>
        r = \<lparr>sh_stdout = out, sh_stderr = err, sh_exit_code = unwrap_or (- 1) code,
             sh_truncated = (length out \<ge> n \<or> length err \<ge> n)\<rparr>)"
  by (auto simp: capture_def result_simps dest: from_utf8_Inr)

lemma shell_exec_spawns:
  "Spawned c \<in> set (fst (shell_exec spawn binary args dir aid t n)) \<Longrightarrow>
     c = shell_command binary args dir aid"
  by (auto simp: shell_exec_def kill_sequence_def Let_def split: child.splits if_splits)

lemma shell_exec_result_bounded:
  "snd (shell_exec spawn binary args dir aid t n) = Inr r \<Longrightarrow>
     length (sh_stdout r) \<le> n \<and>
     (length (sh_stderr r) \<le> n \<or> sh_stderr r = ''process killed: timeout exceeded'')"
  by (auto simp: shell_exec_def capture_Inr_iff Let_def read_once_length split: child.splits)

section \<open>Properties\<close>

text \<open>C29: a program is run as configured and nothing else: at most one process is started, it is
  the given binary with the given arguments as separate words (no shell), in its own process
  group, with exactly four environment variables; standard output never exceeds the limit; and
  when the child overruns its time, the whole group gets SIGTERM, two seconds later SIGKILL, and
  the child is reaped, in that order.\<close>

theorem shell_exec_contained:
  "list_all (\<lambda>ev. case ev of Spawned c \<Rightarrow>
       c = \<lparr>cmd_program = binary, cmd_args = args, cmd_dir = dir,
            cmd_env = [(''PATH'', ''/usr/bin:/bin''), (''HOME'', dir), (''LANG'', ''en_US.UTF-8''),
                       (''SAFA_ACTION_ID'', aid)],
            cmd_own_group = True\<rparr> | _ \<Rightarrow> True)
     (fst (shell_exec spawn binary args dir aid t n)) \<and>
   length (filter (\<lambda>ev. case ev of Spawned c \<Rightarrow> True | _ \<Rightarrow> False)
     (fst (shell_exec spawn binary args dir aid t n))) \<le> 1 \<and>
   (case snd (shell_exec spawn binary args dir aid t n) of
      Inr r \<Rightarrow> length (sh_stdout r) \<le> n | Inl e \<Rightarrow> True) \<and>
   (case spawn (shell_command binary args dir aid) t of
      Overruns (Some pid) \<Rightarrow>
        0 < pid \<longrightarrow> tl (fst (shell_exec spawn binary args dir aid t n)) =
                   [Killed (- pid) 15, Slept 2, Killed (- pid) 9, Reaped]
    | _ \<Rightarrow> True)"
proof (intro conjI)
  show "list_all (\<lambda>ev. case ev of Spawned c \<Rightarrow>
       c = \<lparr>cmd_program = binary, cmd_args = args, cmd_dir = dir,
            cmd_env = [(''PATH'', ''/usr/bin:/bin''), (''HOME'', dir), (''LANG'', ''en_US.UTF-8''),
                       (''SAFA_ACTION_ID'', aid)],
            cmd_own_group = True\<rparr> | _ \<Rightarrow> True)
     (fst (shell_exec spawn binary args dir aid t n))"
    using shell_exec_spawns [of _ spawn binary args dir aid t n]
    by (auto simp: list_all_iff shell_command_def split: proc_event.splits)
  show "length (filter (\<lambda>ev. case ev of Spawned c \<Rightarrow> True | _ \<Rightarrow> False)
     (fst (shell_exec spawn binary args dir aid t n))) \<le> 1"
    by (auto simp: shell_exec_def kill_sequence_def Let_def split: child.splits)
  show "case snd (shell_exec spawn binary args dir aid t n) of
      Inr r \<Rightarrow> length (sh_stdout r) \<le> n | Inl e \<Rightarrow> True"
    using shell_exec_result_bounded [of spawn binary args dir aid t n] by (auto split: sum.splits)
  show "case spawn (shell_command binary args dir aid) t of
      Overruns (Some pid) \<Rightarrow>
        0 < pid \<longrightarrow> tl (fst (shell_exec spawn binary args dir aid t n)) =
                   [Killed (- pid) 15, Slept 2, Killed (- pid) 9, Reaped]
    | _ \<Rightarrow> True"
    by (auto simp: shell_exec_def kill_sequence_def sigterm_def sigkill_def Let_def
        split: child.splits option.splits)
qed

text \<open>An overrunning child with pid 7.\<close>

theorem shell_exec_contained_witness:
  "fst (shell_exec (\<lambda>_ _. Overruns (Some 7)) ''/bin/sleep'' [''99''] ''/ws'' ''id'' 15 65536) =
     [Spawned (shell_command ''/bin/sleep'' [''99''] ''/ws'' ''id''),
      Killed (- 7) 15, Slept 2, Killed (- 7) 9, Reaped]"
proof -
  let ?evs = "fst (shell_exec (\<lambda>_ _. Overruns (Some 7)) ''/bin/sleep'' [''99''] ''/ws'' ''id'' 15 65536)"
  have "tl ?evs = [Killed (- 7) 15, Slept 2, Killed (- 7) 9, Reaped]"
    using shell_exec_contained [of "''/bin/sleep''" "[''99'']" "''/ws''" "''id''"
        "\<lambda>_ _. Overruns (Some 7)" 15 65536] by simp
  moreover have "?evs \<noteq> []" "hd ?evs = Spawned (shell_command ''/bin/sleep'' [''99''] ''/ws'' ''id'')"
    by (simp_all add: shell_exec_def Let_def)
  ultimately show ?thesis by (metis list.collapse)
qed

text \<open>Each stream is read once, so output that becomes readable in several pieces is lost
  after the first, and the result does not say so: whatever \<open>rest\<close> is, the caller gets the first
  piece, marked as not truncated.\<close>

theorem later_output_lost:
  assumes "spawn (shell_command binary args dir aid) t = Finishes pid (Inr (p # rest)) (Inr []) (Inr (Some 0))"
    and "length p < n" and "from_utf8 p = Inr p"
  shows "snd (shell_exec spawn binary args dir aid t n) =
     Inr \<lparr>sh_stdout = p, sh_stderr = [], sh_exit_code = 0, sh_truncated = False\<rparr>"
proof -
  have "from_utf8 [] = Inr []" by (simp add: from_utf8_def)
  with assms show ?thesis by (simp add: shell_exec_def capture_def read_once_def)
qed

theorem later_output_lost_witness:
  "snd (shell_exec (\<lambda>_ _. Finishes (Some 7) (Inr [''a'', ''b'']) (Inr []) (Inr (Some 0)))
      ''/bin/ls'' [] ''/ws'' ''id'' 15 65536) =
     Inr \<lparr>sh_stdout = ''a'', sh_stderr = [], sh_exit_code = 0, sh_truncated = False\<rparr>"
  by (rule later_output_lost [of _ _ _ _ _ _ _ _ "[''b'']"])
    (simp_all add: from_utf8_def utf8_decode.simps utf8_next_def)

end
