(* ===== verification/Actuator_Http.thy ===== *)
theory Actuator_Http
  imports Newtypes
begin

text \<open>
  \<open>safa-core/src/actuator/http.rs\<close>: the address filter, the DNS check and the request. The
  \<open>reqwest\<close> client, its URL parser and the resolver are the fields of \<open>net\<close>: what they
  answer is arbitrary, so what the theorems say holds against every server and every resolver.
  IPv4 addresses are 32-bit and IPv6 addresses 128-bit words, most significant octet first.
\<close>

type_synonym ipv4 = "32 word"
type_synonym ipv6 = "128 word"

datatype ip_addr = V4 ipv4 | V6 ipv6

definition max_response_bytes :: nat where
  "max_response_bytes = 262144"

definition max_redirects :: nat where
  "max_redirects = 3"

definition connect_timeout_secs :: nat where
  "connect_timeout_secs = 5"

definition total_timeout_secs :: nat where
  "total_timeout_secs = 15"

definition user_agent :: string where
  "user_agent = ''SAFA/0.1.0''"

text \<open>\<open>std::net::Ipv4Addr\<close> and \<open>Ipv6Addr\<close>.\<close>

definition octet :: "ipv4 \<Rightarrow> nat \<Rightarrow> nat" where
  "octet a i = unat (drop_bit (24 - 8 * i) a) mod 256"

definition v4_is_loopback :: "ipv4 \<Rightarrow> bool" where
  "v4_is_loopback a \<longleftrightarrow> octet a 0 = 127"

definition v4_is_private :: "ipv4 \<Rightarrow> bool" where
  "v4_is_private a \<longleftrightarrow>
     octet a 0 = 10 \<or> (octet a 0 = 172 \<and> 16 \<le> octet a 1 \<and> octet a 1 \<le> 31) \<or>
     (octet a 0 = 192 \<and> octet a 1 = 168)"

definition v4_is_link_local :: "ipv4 \<Rightarrow> bool" where
  "v4_is_link_local a \<longleftrightarrow> octet a 0 = 169 \<and> octet a 1 = 254"

definition v4_is_broadcast :: "ipv4 \<Rightarrow> bool" where
  "v4_is_broadcast a \<longleftrightarrow> a = 0xFFFFFFFF"

definition v4_is_unspecified :: "ipv4 \<Rightarrow> bool" where
  "v4_is_unspecified a \<longleftrightarrow> a = 0"

definition v6_is_loopback :: "ipv6 \<Rightarrow> bool" where
  "v6_is_loopback a \<longleftrightarrow> a = 1"

definition v6_is_unspecified :: "ipv6 \<Rightarrow> bool" where
  "v6_is_unspecified a \<longleftrightarrow> a = 0"

text \<open>\<open>to_ipv4_mapped\<close>: the low 32 bits of an address with prefix \<open>::ffff:0:0/96\<close>.\<close>

definition v6_to_ipv4_mapped :: "ipv6 \<Rightarrow> ipv4 option" where
  "v6_to_ipv4_mapped a = (if drop_bit 32 a = 0xFFFF then Some (ucast a) else None)"

definition is_private_ip :: "ip_addr \<Rightarrow> bool" where
  "is_private_ip ip =
     (case ip of
        V4 v4 \<Rightarrow>
          v4_is_loopback v4 \<or> v4_is_private v4 \<or> v4_is_link_local v4 \<or> v4_is_broadcast v4 \<or>
          v4_is_unspecified v4 \<or> octet v4 0 = 0
      | V6 v6 \<Rightarrow>
          v6_is_loopback v6 \<or> v6_is_unspecified v6 \<or>
          (case v6_to_ipv4_mapped v6 of
             Some v4 \<Rightarrow> v4_is_loopback v4 \<or> v4_is_private v4 \<or> v4_is_link_local v4
           | None \<Rightarrow> False))"

section \<open>The request\<close>

text \<open>How \<open>send\<close> can fail: the tests the code makes on a \<open>reqwest::Error\<close>, in their order.\<close>

datatype send_error = RedirectError | TimedOut | OtherError string

record http_response =
  hr_remote_addr :: "ip_addr option"
  hr_url :: string
  hr_status :: nat
  hr_bytes :: "string + bytes"

record request_spec =
  qs_method :: http_method
  qs_url :: string
  qs_body :: "string option"
  qs_max_redirects :: nat
  qs_https_only :: bool
  qs_user_agent :: string
  qs_connect_timeout_secs :: nat
  qs_total_timeout_secs :: nat

record net =
  net_parse :: "string \<Rightarrow> string + string option"
  net_lookup :: "string \<Rightarrow> string + ip_addr list"
  net_client :: "string + unit"
  net_send :: "request_spec \<Rightarrow> send_error + http_response"
  net_show_ip :: "ip_addr \<Rightarrow> string"

fun check_addrs :: "net \<Rightarrow> ip_addr list \<Rightarrow> ama_error + unit" where
  "check_addrs N [] = Inr ()"
| "check_addrs N (a # addrs) =
     (if is_private_ip a then
        Inl (invalid_target (''URL resolves to private/loopback IP: '' @ net_show_ip N a))
      else check_addrs N addrs)"

definition validate_dns :: "net \<Rightarrow> string \<Rightarrow> ama_error + unit" where
  "validate_dns N host =
     rbind (map_err (\<lambda>e. ServiceUnavailable (''DNS resolution failed: '' @ e))
              (net_lookup N (host @ '':443''))) (\<lambda>addrs.
       if addrs = [] then Inl (ServiceUnavailable ''DNS resolved to no addresses'')
       else check_addrs N addrs)"

definition build_request :: "http_method \<Rightarrow> string \<Rightarrow> bounded_bytes option \<Rightarrow> request_spec" where
  "build_request method url body =
     \<lparr>qs_method = method, qs_url = url,
      qs_body = (case method of Get \<Rightarrow> None | Post \<Rightarrow> map_option bounded_str body),
      qs_max_redirects = max_redirects, qs_https_only = True, qs_user_agent = user_agent,
      qs_connect_timeout_secs = connect_timeout_secs, qs_total_timeout_secs = total_timeout_secs\<rparr>"

definition send_failure :: "send_error \<Rightarrow> ama_error" where
  "send_failure e =
     (case e of
        RedirectError \<Rightarrow>
          Validation ''redirect_error'' ''redirect limit exceeded or POST redirect rejected''
      | TimedOut \<Rightarrow> ServiceUnavailable ''HTTP request timed out''
      | OtherError m \<Rightarrow> ServiceUnavailable (''HTTP request failed: '' @ m))"

record http_result =
  ht_status_code :: nat
  ht_body :: string
  ht_truncated :: bool

text \<open>What is checked of a response, in the code's order.\<close>

definition accept_response ::
  "net \<Rightarrow> string \<Rightarrow> allowlist_entry list \<Rightarrow> http_response \<Rightarrow> ama_error + http_result" where
  "accept_response N url allowlist r =
     rbind (case hr_remote_addr r of
              Some ip \<Rightarrow>
                if is_private_ip ip then
                  Inl (invalid_target (''response came from private IP: '' @ net_show_ip N ip))
                else Inr ()
            | None \<Rightarrow> Inr ()) (\<lambda>_.
     rbind (if hr_url r \<noteq> url then
              map_err (\<lambda>_. Validation ''redirect_error'' ''redirect target not in allowlist'')
                (rbind (allowlisted_url_new (hr_url r) allowlist) (\<lambda>_. Inr ()))
            else Inr ()) (\<lambda>_.
     rbind (map_err (\<lambda>e. ServiceUnavailable (''failed to read response body: '' @ e)) (hr_bytes r))
       (\<lambda>body_bytes.
     let truncated = length body_bytes > max_response_bytes;
         read_bytes = (if truncated then take max_response_bytes body_bytes else body_bytes)
     in rbind (map_err (\<lambda>_. ServiceUnavailable ''response body is not valid UTF-8 (P0 is text-only)'')
                (from_utf8 read_bytes)) (\<lambda>body_text.
        Inr \<lparr>ht_status_code = hr_status r, ht_body = body_text, ht_truncated = truncated\<rparr>))))"

definition http_request ::
  "net \<Rightarrow> http_method \<Rightarrow> allowlisted_url \<Rightarrow> bounded_bytes option \<Rightarrow> allowlist_entry list
    \<Rightarrow> ama_error + http_result" where
  "http_request N method url body allowlist =
     rbind (map_err (\<lambda>e. invalid_target (''invalid URL: '' @ e)) (net_parse N (url_str url))) (\<lambda>parsed.
     rbind (ok_or parsed (invalid_target ''URL has no host'')) (\<lambda>host.
     rbind (validate_dns N host) (\<lambda>_.
     rbind (map_err (\<lambda>e. ServiceUnavailable (''HTTP client build failed: '' @ e)) (net_client N)) (\<lambda>_.
     rbind (map_err send_failure (net_send N (build_request method (url_str url) body))) (\<lambda>response.
     accept_response N (url_str url) allowlist response)))))"

section \<open>The address filter\<close>

lemma octet_div: "octet a 0 = unat a div 2 ^ 24" "octet a 1 = unat a div 2 ^ 16 mod 256"
proof -
  have "unat a < 2 ^ 32" using unsigned_less [of a] by simp
  then have "unat a div 2 ^ 24 < 256" by (simp add: less_mult_imp_div_less)
  then show "octet a 0 = unat a div 2 ^ 24" "octet a 1 = unat a div 2 ^ 16 mod 256"
    by (simp_all add: octet_def unsigned_drop_bit_eq drop_bit_eq_div take_bit_eq_mod unat_div)
qed

text \<open>A /12 block inside a /8, read off the first 16 bits.\<close>

lemma block_16_31_digits:
  "c = a * 16 + d \<Longrightarrow> d < 16 \<Longrightarrow> b = 16 * d + r \<Longrightarrow> r < 16 \<Longrightarrow>
     a = 172 \<and> 16 \<le> b \<and> b \<le> 31 \<longleftrightarrow> c = (2753 :: nat)"
  apply (rule iffI)
   apply (elim conjE)
   apply (subgoal_tac "d = 1")
    apply simp
   apply linarith
  apply (subgoal_tac "a = 172")
   apply (subgoal_tac "d = 1")
    apply linarith
   apply linarith
  apply linarith
  done

lemma block_16_31:
  "q div 256 = 172 \<and> 16 \<le> q mod 256 \<and> q mod 256 \<le> 31 \<longleftrightarrow> (q :: nat) div 16 = 2753"
proof -
  define a b where "a = q div 256" and "b = q mod 256"
  have q: "q = b + (a * 16) * 16" and b: "b < 256" by (simp_all add: a_def b_def)
  have "q div 16 = a * 16 + b div 16" unfolding q by (subst div_mult_self1) simp_all
  moreover have "b div 16 < 16" using b by (simp add: less_mult_imp_div_less)
  moreover have "b = 16 * (b div 16) + b mod 16" and "b mod 16 < 16" by simp_all
  ultimately have "a = 172 \<and> 16 \<le> b \<and> b \<le> 31 \<longleftrightarrow> q div 16 = 2753" by (rule block_16_31_digits)
  then show ?thesis by (simp add: a_def b_def)
qed

lemma block_second_octet:
  assumes "m < 256"
  shows "q div 256 = k \<and> q mod 256 = m \<longleftrightarrow> (q :: nat) = m + k * 256"
proof
  assume "q div 256 = k \<and> q mod 256 = m"
  then show "q = m + k * 256" using mod_div_mult_eq [of q 256] by simp
next
  assume "q = m + k * 256"
  with assms show "q div 256 = k \<and> q mod 256 = m" by simp
qed

section \<open>What is accepted\<close>

lemma check_addrs_Inr_iff: "check_addrs N addrs = Inr u \<longleftrightarrow> (\<forall>a \<in> set addrs. \<not> is_private_ip a)"
  by (induction N addrs rule: check_addrs.induct) auto

lemma validate_dns_Inr_iff:
  "validate_dns N h = Inr u \<longleftrightarrow>
     (\<exists>addrs. net_lookup N (h @ '':443'') = Inr addrs \<and> addrs \<noteq> [] \<and>
        (\<forall>a \<in> set addrs. \<not> is_private_ip a))"
  by (auto simp: validate_dns_def result_simps check_addrs_Inr_iff)

lemma accept_response_Inr_iff:
  "accept_response N url al r = Inr x \<longleftrightarrow>
     (\<forall>ip. hr_remote_addr r = Some ip \<longrightarrow> \<not> is_private_ip ip) \<and>
     (hr_url r \<noteq> url \<longrightarrow> (\<exists>u. allowlisted_url_new (hr_url r) al = Inr u)) \<and>
     (\<exists>b. hr_bytes r = Inr b \<and> from_utf8 (take max_response_bytes b) = Inr (ht_body x) \<and>
        ht_status_code x = hr_status r \<and> ht_truncated x = (max_response_bytes < length b))"
  by (cases x)
    (auto simp: accept_response_def result_simps Let_def not_less split: option.splits if_splits)

lemma http_request_Inr_iff:
  "http_request N m url body al = Inr x \<longleftrightarrow>
     (\<exists>h r. net_parse N (url_str url) = Inr (Some h) \<and> validate_dns N h = Inr () \<and> net_client N = Inr () \<and>
        net_send N (build_request m (url_str url) body) = Inr r \<and>
        accept_response N (url_str url) al r = Inr x)"
  by (auto simp: http_request_def result_simps)

section \<open>Properties\<close>

text \<open>The IPv4 filter is exactly the union of the blocks 0/8, 10/8, 127/8, 169.254/16,
  172.16/12, 192.168/16 and the broadcast address.\<close>

theorem private_ipv4_blocks:
  "is_private_ip (V4 a) \<longleftrightarrow>
     unat a div 2 ^ 24 \<in> {0, 10, 127} \<or> unat a div 2 ^ 20 = 172 * 16 + 1 \<or>
     unat a div 2 ^ 16 \<in> {169 * 256 + 254, 192 * 256 + 168} \<or> unat a = 2 ^ 32 - 1"
proof -
  let ?q = "unat a div 2 ^ 16"
  have "unat a div 2 ^ 24 = ?q div 256" and "unat a div 2 ^ 20 = ?q div 16"
    by (simp_all add: div_mult2_eq [symmetric])
  note blocks = this octet_div [of a] block_16_31 [of ?q] block_second_octet [of 254 ?q 169]
    block_second_octet [of 168 ?q 192]
  have all: "a = 0xFFFFFFFF \<longleftrightarrow> unat a = 2 ^ 32 - 1"
    by (simp add: word_unat_eq_iff)
  have zero: "unat a div 2 ^ 24 = 0" if "a = 0" using that by simp
  show ?thesis
    using blocks zero
    unfolding is_private_ip_def v4_is_loopback_def v4_is_private_def v4_is_link_local_def
      v4_is_broadcast_def v4_is_unspecified_def ip_addr.case all by auto
qed


text \<open>A network with one public host that redirects within the allowlist.\<close>

definition sample_net :: net where
  "sample_net =
     \<lparr>net_parse = (\<lambda>_. Inr (Some ''api.example.com'')), net_lookup = (\<lambda>_. Inr [V4 0x5DB8D822]),
      net_client = Inr (),
      net_send = (\<lambda>_. Inr \<lparr>hr_remote_addr = Some (V4 0x5DB8D822), hr_url = ''https://api.example.com/v2'',
                         hr_status = 200, hr_bytes = Inr ''ok''\<rparr>),
      net_show_ip = (\<lambda>_. ''93.184.216.34'')\<rparr>"

definition sample_allowlist :: "allowlist_entry list" where
  "sample_allowlist =
     [\<lparr>al_pattern = ''https://api.example.com/*'', al_methods = [''GET''], al_max_body_bytes = None\<rparr>]"


text \<open>The filter misses most private IPv6 space: of all IPv6 addresses it refuses only the
  loopback, the unspecified address, and the IPv4-mapped forms of the loopback, private and
  link-local blocks. Link-local (fe80::/10) and unique-local (fc00::/7) addresses pass, and so do
  the mapped forms of 0.0.0.0 and of the broadcast address.\<close>

theorem private_ipv6_gaps:
  "(is_private_ip (V6 a) \<longleftrightarrow>
      a = 0 \<or> a = 1 \<or>
      (drop_bit 32 a = 0xFFFF \<and>
       (v4_is_loopback (ucast a) \<or> v4_is_private (ucast a) \<or> v4_is_link_local (ucast a)))) \<and>
   \<not> is_private_ip (V6 0xFE800000000000000000000000000001) \<and>
   \<not> is_private_ip (V6 0xFD000000000000000000000000000001) \<and>
   \<not> is_private_ip (V6 0xFFFF00000000) \<and> \<not> is_private_ip (V6 0xFFFFFFFFFFFF) \<and>
   is_private_ip (V4 0) \<and> is_private_ip (V4 0xFFFFFFFF)"
proof (intro conjI)
  show "is_private_ip (V6 a) \<longleftrightarrow>
      a = 0 \<or> a = 1 \<or>
      (drop_bit 32 a = 0xFFFF \<and>
       (v4_is_loopback (ucast a) \<or> v4_is_private (ucast a) \<or> v4_is_link_local (ucast a)))"
    by (auto simp: is_private_ip_def v6_is_loopback_def v6_is_unspecified_def v6_to_ipv4_mapped_def)
qed code_simp+

end
