(* ===== verification/Pipeline.thy ===== *)
theory Pipeline
  imports Schema Slime Identity Actuator_File Actuator_Shell Actuator_Http
begin

text \<open>
  \<open>safa-core/src/pipeline.rs\<close>: validate, canonicalize, map, authorize, actuate. The host is
  the record \<open>host\<close> (Unicode tables, hashing, children, the network); the file system and the
  agent's authorizer are passed and returned; audit entries and effects are returned as lists.
  The file actuators run without suspending, so the timeout around them cannot fire; the one
  around the HTTP request may (\<open>ho_http_overruns\<close>). What a child does to the file system is
  not followed.
\<close>

record host =
  ho_unicode :: unicode
  ho_crypto :: crypto
  ho_spawn :: "command \<Rightarrow> nat \<Rightarrow> child"
  ho_net :: net
  ho_http_overruns :: bool

datatype effect =
    FileWritten string
  | ProcEvent proc_event
  | HttpSent request_spec

definition action_timeout :: "string \<Rightarrow> nat" where
  "action_timeout action =
     (if action = ''file_write'' \<or> action = ''file_read'' then 5
      else if action = ''shell_exec'' \<or> action = ''http_request'' then 15
      else 5)"

definition missing_field :: "string \<Rightarrow> string \<Rightarrow> ama_error" where
  "missing_field action field =
     Validation ''missing_field'' (action @ '' requires '' @ quoted field)"

definition invalid_field :: "string \<Rightarrow> string \<Rightarrow> ama_error" where
  "invalid_field action field =
     Validation ''invalid_field'' (action @ '' does not accept '' @ quoted field)"

definition validate_field_exclusivity :: "action_request \<Rightarrow> ama_error + unit" where
  "validate_field_exclusivity request =
     (let action = rq_action request in
      if action = ''file_write'' then
        (if rq_payload request = None then Inl (missing_field action ''payload'')
         else if rq_args request \<noteq> None then Inl (invalid_field action ''args'')
         else Inr ())
      else if action = ''file_read'' then
        (if rq_payload request \<noteq> None then Inl (invalid_field action ''payload'')
         else if rq_args request \<noteq> None then Inl (invalid_field action ''args'')
         else Inr ())
      else if action = ''shell_exec'' then
        (if rq_args request = None then Inl (missing_field action ''args'')
         else if rq_payload request \<noteq> None then Inl (invalid_field action ''payload'')
         else Inr ())
      else if action = ''http_request'' then
        (if rq_args request \<noteq> None then Inl (invalid_field action ''args'')
         else if rq_method request = None then Inl (missing_field action ''method'')
         else Inr ())
      else Inr ())"

section \<open>Canonicalization\<close>

definition max_payload :: "ama_config \<Rightarrow> string \<Rightarrow> nat \<Rightarrow> nat" where
  "max_payload cfg action dflt =
     (case hm_get (cf_domain_mappings cfg) action of
        Some m \<Rightarrow> unwrap_or dflt (dm_max_payload_bytes m)
      | None \<Rightarrow> dflt)"

text \<open>The loop over the arguments; \<open>validators.get(i)\<close> walks along.\<close>

fun check_args ::
  "fs_state \<Rightarrow> string \<Rightarrow> string option \<Rightarrow> string list \<Rightarrow> string list \<Rightarrow> ama_error + safe_arg list" where
  "check_args s root aid vals [] = Inr []"
| "check_args s root aid vals (raw # raws) =
     rbind (safe_arg_new raw) (\<lambda>safe.
     rbind (if vals \<noteq> [] \<and> hd vals = ''relative_workspace_path'' then
              rbind (new_with_agent s raw root aid) (\<lambda>_. Inr ())
            else Inr ()) (\<lambda>_.
     rbind (check_args s root aid (tl vals) raws) (\<lambda>rest. Inr (safe # rest))))"

definition canonicalize ::
  "unicode \<Rightarrow> fs_state \<Rightarrow> action_request \<Rightarrow> ama_config \<Rightarrow> string option
    \<Rightarrow> ama_error + canonical_action" where
  "canonicalize U s request cfg aid =
     (let action = rq_action request; target = rq_target request; root = cf_workspace_root cfg in
      if action = ''file_write'' then
        rbind (new_with_agent s target root aid) (\<lambda>path.
        rbind (bounded_bytes_new (unwrap_or [] (rq_payload request)) (max_payload cfg ''file_write'' 1048576))
          (\<lambda>content. Inr (CFileWrite path content)))
      else if action = ''file_read'' then
        rbind (new_with_agent s target root aid) (\<lambda>path. Inr (CFileRead path))
      else if action = ''shell_exec'' then
        rbind (intent_id_new U target) (\<lambda>intent.
        rbind (ok_or (hm_get (cf_intents cfg) (intent_str intent))
                 (Validation ''unknown_intent''
                   (''intent '' @ quoted (intent_str intent) @ '' not in intents.toml''))) (\<lambda>ic.
        let raw_args = unwrap_or [] (rq_args request);
            placeholder_count = length (filter (\<lambda>t. contains_str t ''{{'') (im_args_template ic))
        in if length raw_args \<noteq> placeholder_count then
             Inl (Validation ''invalid_args''
               (''intent '' @ quoted (intent_str intent) @ '' expects '' @ show_nat placeholder_count
                 @ '' args, got '' @ show_nat (length raw_args)))
           else rbind (check_args s root aid (im_validators ic) raw_args)
                  (\<lambda>args. Inr (CShellExec intent args))))
      else if action = ''http_request'' then
        rbind (http_method_parse U (unwrap_or [] (rq_method request))) (\<lambda>method.
        rbind (allowlisted_url_new target (cf_allowlist cfg)) (\<lambda>url.
        rbind (case rq_payload request of
                 Some data \<Rightarrow>
                   rbind (bounded_bytes_new data (max_payload cfg ''http_request'' 262144)) (\<lambda>b. Inr (Some b))
               | None \<Rightarrow> Inr None) (\<lambda>body.
        Inr (CHttpRequest method url body))))
      else Inl (Validation ''unknown_action'' (''unknown action: '' @ action)))"

section \<open>Actuation\<close>

text \<open>A template of the form \<open>{{i}}\<close> becomes the i-th argument, if there is one.\<close>

definition expand_template :: "safe_arg list \<Rightarrow> string \<Rightarrow> string" where
  "expand_template args tmpl =
     (case strip_prefix tmpl ''{{'' of
        None \<Rightarrow> tmpl
      | Some rest \<Rightarrow>
          (case strip_suffix rest ''}}'' of
             None \<Rightarrow> tmpl
           | Some idx_str \<Rightarrow>
               (case parse_usize idx_str of
                  None \<Rightarrow> tmpl
                | Some idx \<Rightarrow> if idx < length args then safe_arg_str (args ! idx) else tmpl)))"

definition max_read_bytes :: nat where
  "max_read_bytes = 524288"

definition max_output_bytes :: nat where
  "max_output_bytes = 65536"

text \<open>The request leaves the host only when parsing, DNS and the client were fine.\<close>

definition http_effects :: "host \<Rightarrow> http_method \<Rightarrow> allowlisted_url \<Rightarrow> bounded_bytes option \<Rightarrow> effect list" where
  "http_effects H method url body =
     (let N = ho_net H in
      case net_parse N (url_str url) of
        Inr (Some h) \<Rightarrow>
          if is_ok (validate_dns N h) \<and> is_ok (net_client N)
          then [HttpSent (build_request method (url_str url) body)] else []
      | _ \<Rightarrow> [])"

definition actuate ::
  "host \<Rightarrow> fs_state \<Rightarrow> canonical_action \<Rightarrow> string \<Rightarrow> ama_config
    \<Rightarrow> fs_state \<times> effect list \<times> (ama_error + action_result)" where
  "actuate H s action action_id cfg =
     (case action of
        CFileWrite path content \<Rightarrow>
          (let (s1, r) = file_write s path content action_id in
           (s1, [FileWritten (wp_canonical path)], rbind r (\<lambda>n. Inr (RFileWrite n))))
      | CFileRead path \<Rightarrow>
          (s, [], rbind (file_read s path max_read_bytes) (\<lambda>f.
             Inr (RFileRead (fr_content f) (fr_bytes_returned f) (fr_total_bytes f) (fr_truncated f))))
      | CShellExec intent args \<Rightarrow>
          (case hm_get (cf_intents cfg) (intent_str intent) of
             None \<Rightarrow> (s, [], Inl (ServiceUnavailable ''intent config not found at actuation''))
           | Some ic \<Rightarrow>
               (let exec_args = map (expand_template args) (im_args_template ic);
                    working_dir = unwrap_or (cf_workspace_root cfg) (im_working_dir ic);
                    (evs, r) = shell_exec (ho_spawn H) (im_binary ic) exec_args working_dir action_id
                                 (action_timeout ''shell_exec'') max_output_bytes
                in (s, map ProcEvent evs, rbind r (\<lambda>x.
                     Inr (RShellExec (sh_stdout x) (sh_stderr x) (sh_exit_code x) (sh_truncated x))))))
      | CHttpRequest method url body \<Rightarrow>
          (s, http_effects H method url body,
           if ho_http_overruns H then Inl (ServiceUnavailable ''http_request timed out'')
           else rbind (http_request (ho_net H) method url body (cf_allowlist cfg)) (\<lambda>x.
             Inr (RHttpResponse (ht_status_code x) (ht_body x) (ht_truncated x)))))"

section \<open>The pipeline\<close>

text \<open>The seconds since the epoch, as text.\<close>

definition chrono_now :: "u64 \<Rightarrow> string" where
  "chrono_now secs = show_u64 secs"

text \<open>The call's context: identifiers, and what its clock readings come to.\<close>

record call_ctx =
  cx_action_id :: string
  cx_session_id :: string
  cx_agent_id :: "string option"
  cx_timestamp :: string
  cx_duration_ms :: nat

record outcome =
  oc_result :: "ama_error + action_response"
  oc_auth :: p0_authorizer
  oc_fs :: fs_state
  oc_audit :: "audit_entry list"
  oc_effects :: "effect list"

definition audit_of ::
  "host \<Rightarrow> call_ctx \<Rightarrow> action_request \<Rightarrow> mapped_domain \<Rightarrow> string \<Rightarrow> bool \<Rightarrow> audit_entry" where
  "audit_of H cx request mapping status truncated =
     \<lparr>ae_timestamp = cx_timestamp cx, ae_session_id = cx_session_id cx,
      ae_action_id = cx_action_id cx, ae_adapter = rq_adapter request,
      ae_action = rq_action request, ae_domain_id = md_domain_id mapping,
      ae_magnitude_effective = md_magnitude mapping, ae_duration_ms = cx_duration_ms cx,
      ae_status = status,
      ae_request_hash = compute_request_hash (sha256_hex (ho_crypto H))
        (rq_action request) (rq_target request) (rq_magnitude request),
      ae_truncated = truncated\<rparr>"

definition refused :: "ama_error \<Rightarrow> p0_authorizer \<Rightarrow> fs_state \<Rightarrow> audit_entry list \<Rightarrow> outcome" where
  "refused e a s log = \<lparr>oc_result = Inl e, oc_auth = a, oc_fs = s, oc_audit = log, oc_effects = []\<rparr>"

text \<open>Steps 1 to 4: everything that is checked before the authorizer is asked.\<close>

definition prepare ::
  "host \<Rightarrow> fs_state \<Rightarrow> action_request \<Rightarrow> ama_config \<Rightarrow> string option
    \<Rightarrow> ama_error + canonical_action \<times> mapped_domain" where
  "prepare H s request cfg aid =
     rbind (validate_magnitude (rq_magnitude request)) (\<lambda>_.
     rbind (validate_field_exclusivity request) (\<lambda>_.
     rbind (canonicalize (ho_unicode H) s request cfg aid) (\<lambda>canonical.
     rbind (map_action (rq_action request) (rq_magnitude request) cfg) (\<lambda>mapping.
     Inr (canonical, mapping)))))"

definition process_action ::
  "host \<Rightarrow> fs_state \<Rightarrow> p0_authorizer \<Rightarrow> action_request \<Rightarrow> ama_config \<Rightarrow> call_ctx \<Rightarrow> outcome" where
  "process_action H s a request cfg cx =
     (case prepare H s request cfg (cx_agent_id cx) of
        Inl e \<Rightarrow> refused e a s []
      | Inr (canonical, mapping) \<Rightarrow>
          if rq_dry_run request then
            (case check_only a (md_domain_id mapping) (md_magnitude mapping) of
               VAuthorized \<Rightarrow>
                 \<lparr>oc_result = Inr \<lparr>rs_status = ''authorized'', rs_action_id = cx_action_id cx,
                                  rs_dry_run = True, rs_result = None\<rparr>,
                  oc_auth = a, oc_fs = s,
                  oc_audit = [audit_of H cx request mapping ''authorized'' False], oc_effects = []\<rparr>
             | VImpossible \<Rightarrow>
                 refused Impossible a s [audit_of H cx request mapping ''impossible'' False])
          else
            (case try_reserve a (md_domain_id mapping) (md_magnitude mapping) of
               (VImpossible, a') \<Rightarrow>
                 refused Impossible a' s [audit_of H cx request mapping ''impossible'' False]
             | (VAuthorized, a') \<Rightarrow>
                 (let (s', effects, result) = actuate H s canonical (cx_action_id cx) cfg;
                      (status, truncated) =
                        (case result of Inr r \<Rightarrow> (''authorized'', is_truncated r) | Inl e \<Rightarrow> (''error'', False))
                  in \<lparr>oc_result = rbind result (\<lambda>r.
                        Inr \<lparr>rs_status = ''authorized'', rs_action_id = cx_action_id cx,
                             rs_dry_run = False, rs_result = Some (action_result_json r)\<rparr>),
                      oc_auth = a', oc_fs = s',
                      oc_audit = [audit_of H cx request mapping status truncated],
                      oc_effects = effects\<rparr>)))"

section \<open>The ways a call can go\<close>

lemma process_action_cases:
  obtains (invalid) e where "prepare H s rq cfg (cx_agent_id cx) = Inl e"
      "process_action H s a rq cfg cx = refused e a s []"
  | (denied) act md where "prepare H s rq cfg (cx_agent_id cx) = Inr (act, md)"
      "check_only a (md_domain_id md) (md_magnitude md) = VImpossible"
      "process_action H s a rq cfg cx = refused Impossible a s [audit_of H cx rq md ''impossible'' False]"
  | (dry) act md where "prepare H s rq cfg (cx_agent_id cx) = Inr (act, md)" "rq_dry_run rq"
      "check_only a (md_domain_id md) (md_magnitude md) = VAuthorized"
      "process_action H s a rq cfg cx =
         \<lparr>oc_result = Inr \<lparr>rs_status = ''authorized'', rs_action_id = cx_action_id cx,
                          rs_dry_run = True, rs_result = None\<rparr>,
          oc_auth = a, oc_fs = s,
          oc_audit = [audit_of H cx rq md ''authorized'' False], oc_effects = []\<rparr>"
  | (run) act md s' effs result where "prepare H s rq cfg (cx_agent_id cx) = Inr (act, md)" "\<not> rq_dry_run rq"
      "check_only a (md_domain_id md) (md_magnitude md) = VAuthorized"
      "actuate H s act (cx_action_id cx) cfg = (s', effs, result)"
      "process_action H s a rq cfg cx =
         \<lparr>oc_result = rbind result (\<lambda>r.
            Inr \<lparr>rs_status = ''authorized'', rs_action_id = cx_action_id cx,
                 rs_dry_run = False, rs_result = Some (action_result_json r)\<rparr>),
          oc_auth = snd (try_reserve a (md_domain_id md) (md_magnitude md)), oc_fs = s',
          oc_audit = [audit_of H cx rq md (if is_ok result then ''authorized'' else ''error'')
                        (case result of Inr r \<Rightarrow> is_truncated r | Inl e \<Rightarrow> False)],
          oc_effects = effs\<rparr>"
proof (cases "prepare H s rq cfg (cx_agent_id cx)")
  case (Inl e)
  then show ?thesis by (intro invalid) (simp_all add: process_action_def)
next
  case (Inr p)
  obtain act md where p: "p = (act, md)" by fastforce
  note prep = Inr [unfolded p]
  let ?d = "md_domain_id md" and ?m = "md_magnitude md"
  show ?thesis
  proof (cases "check_only a ?d ?m")
    case VImpossible
    then have "try_reserve a ?d ?m = (VImpossible, a)"
      by (cases rule: try_reserve_cases [of a ?d ?m]) (simp_all flip: try_reserve_fst)
    with VImpossible prep show ?thesis by (intro denied) (simp_all add: process_action_def)
  next
    case VAuthorized
    then obtain a' where a': "try_reserve a ?d ?m = (VAuthorized, a')"
      by (cases "try_reserve a ?d ?m") (simp flip: try_reserve_fst)
    obtain s' effs result where act: "actuate H s act (cx_action_id cx) cfg = (s', effs, result)"
      by (metis prod_cases3)
    show ?thesis
    proof (cases "rq_dry_run rq")
      case True
      with prep VAuthorized show ?thesis by (intro dry) (simp_all add: process_action_def)
    next
      case False
      show ?thesis
        by (rule run [OF prep False VAuthorized act])
          (use prep False a' act in \<open>cases result; simp add: process_action_def\<close>)
    qed
  qed
qed

lemma prepare_Inr_iff:
  "prepare H s rq cfg aid = Inr (act, md) \<longleftrightarrow>
     validate_magnitude (rq_magnitude rq) = Inr () \<and> validate_field_exclusivity rq = Inr () \<and>
     canonicalize (ho_unicode H) s rq cfg aid = Inr act \<and>
     map_action (rq_action rq) (rq_magnitude rq) cfg = Inr md"
  by (auto simp: prepare_def result_simps)

lemma prepare_magnitude: "prepare H s rq cfg aid = Inr (act, md) \<Longrightarrow> md_magnitude md = rq_magnitude rq"
  by (auto simp: prepare_Inr_iff map_action_Inr_iff)

text \<open>What the actions of each kind were checked to be.\<close>

lemma canonicalize_file_write:
  "canonicalize U s rq cfg aid = Inr (CFileWrite path content) \<longleftrightarrow>
     rq_action rq = ''file_write'' \<and>
     new_with_agent s (rq_target rq) (cf_workspace_root cfg) aid = Inr path \<and>
     bounded_bytes_new (unwrap_or [] (rq_payload rq)) (max_payload cfg ''file_write'' 1048576) = Inr content"
  by (auto simp: canonicalize_def result_simps Let_def split: if_splits)

lemma canonicalize_shell_exec:
  "canonicalize U s rq cfg aid = Inr (CShellExec i args) \<Longrightarrow>
     \<exists>ic. rq_action rq = ''shell_exec'' \<and> hm_get (cf_intents cfg) (intent_str i) = Some ic \<and>
          length (unwrap_or [] (rq_args rq)) =
            length (filter (\<lambda>t. contains_str t ''{{'') (im_args_template ic)) \<and>
          check_args s (cf_workspace_root cfg) aid (im_validators ic) (unwrap_or [] (rq_args rq)) = Inr args"
  by (auto simp: canonicalize_def result_simps Let_def split: if_splits)

lemma canonicalize_http_request:
  "canonicalize U s rq cfg aid = Inr (CHttpRequest m u b) \<Longrightarrow>
     rq_action rq = ''http_request'' \<and> allowlisted_url_new (rq_target rq) (cf_allowlist cfg) = Inr u"
  by (auto simp: canonicalize_def result_simps Let_def split: if_splits)

lemma check_args_safe:
  "check_args s root aid vals raws = Inr args \<Longrightarrow>
     map safe_arg_str args = raws \<and> (\<forall>r \<in> set raws. r \<noteq> [] \<and> CHR 0x00 \<notin> set r)"
  by (induction s root aid vals raws arbitrary: args rule: check_args.induct)
    (auto simp: result_simps safe_arg_new_Inr_iff)

text \<open>Expansion only ever inserts whole arguments.\<close>

lemma expand_template_range: "expand_template args t = t \<or> expand_template args t \<in> set (map safe_arg_str args)"
  by (auto simp: expand_template_def split: option.splits)

section \<open>What an action can do\<close>

definition vetted :: "fs_state \<Rightarrow> ama_config \<Rightarrow> string option \<Rightarrow> action_request \<Rightarrow> effect \<Rightarrow> bool" where
  "vetted s cfg aid rq eff \<longleftrightarrow>
     (case eff of
        FileWritten p \<Rightarrow>
          path_starts_with p (effective_root_canon s (effective_root (cf_workspace_root cfg) aid))
      | HttpSent spec \<Rightarrow>
          is_ok (allowlisted_url_new (qs_url spec) (cf_allowlist cfg)) \<and> qs_https_only spec
      | ProcEvent (Spawned c) \<Rightarrow>
          (\<exists>name ic. hm_get (cf_intents cfg) name = Some ic \<and> cmd_program c = im_binary ic \<and>
             cmd_dir c = unwrap_or (cf_workspace_root cfg) (im_working_dir ic) \<and>
             length (cmd_args c) = length (im_args_template ic) \<and>
             list_all2 (\<lambda>t x. x = t \<or> (x \<in> set (unwrap_or [] (rq_args rq)) \<and> x \<noteq> [] \<and> CHR 0x00 \<notin> set x))
               (im_args_template ic) (cmd_args c))
      | ProcEvent _ \<Rightarrow> True)"

lemma http_effects_vetted:
  assumes "canonicalize U s rq cfg aid = Inr (CHttpRequest m u b)" and "eff \<in> set (http_effects H m u b)"
  shows "vetted s cfg aid rq eff"
proof -
  from assms(2) have eff: "eff = HttpSent (build_request m (url_str u) b)"
    by (auto simp: http_effects_def Let_def split: sum.splits option.splits if_splits)
  from canonicalize_http_request [OF assms(1)]
  have "allowlisted_url_new (url_str u) (cf_allowlist cfg) = Inr u"
    by (auto simp: allowlisted_url_new_Inr_iff)
  then show ?thesis by (simp add: eff vetted_def build_request_def)
qed

lemma shell_effects_vetted:
  assumes "canonicalize U s rq cfg aid = Inr (CShellExec i args)"
    and "hm_get (cf_intents cfg) (intent_str i) = Some ic"
    and "eff \<in> ProcEvent ` set (fst (shell_exec sp (im_binary ic) (map (expand_template args) (im_args_template ic))
           (unwrap_or (cf_workspace_root cfg) (im_working_dir ic)) action_id t n))"
  shows "vetted s cfg aid rq eff"
proof -
  from assms(3) obtain ev where ev: "eff = ProcEvent ev" by blast
  show ?thesis
  proof (cases ev)
    case (Spawned c)
    with assms(3) ev have c: "c = shell_command (im_binary ic) (map (expand_template args) (im_args_template ic))
        (unwrap_or (cf_workspace_root cfg) (im_working_dir ic)) action_id"
      using shell_exec_spawns by fastforce
    from canonicalize_shell_exec [OF assms(1)] assms(2)
    have "check_args s (cf_workspace_root cfg) aid (im_validators ic) (unwrap_or [] (rq_args rq)) = Inr args"
      by auto
    from check_args_safe [OF this] have raws: "set (map safe_arg_str args) = set (unwrap_or [] (rq_args rq))"
      "\<forall>r \<in> set (unwrap_or [] (rq_args rq)). r \<noteq> [] \<and> CHR 0x00 \<notin> set r" by auto
    have "list_all2 (\<lambda>t x. x = t \<or> (x \<in> set (unwrap_or [] (rq_args rq)) \<and> x \<noteq> [] \<and> CHR 0x00 \<notin> set x))
        (im_args_template ic) (map (expand_template args) (im_args_template ic))"
      using expand_template_range [of args] raws
      by (auto simp: list_all2_conv_all_nth)
    with assms(2) show ?thesis
      unfolding vetted_def ev Spawned c by (auto simp: shell_command_def)
  qed (simp_all add: ev vetted_def)
qed

lemma actuate_vetted:
  assumes "canonicalize U s rq cfg aid = Inr act" and "actuate H s act action_id cfg = (s', effs, result)"
    and "eff \<in> set effs"
  shows "vetted s cfg aid rq eff"
proof (cases act)
  case (CFileWrite path content)
  with assms have "eff = FileWritten (wp_canonical path)"
    by (auto simp: actuate_def split: prod.splits)
  with assms(1) CFileWrite show ?thesis
    by (auto simp: vetted_def canonicalize_file_write new_with_agent_Inr_iff)
next
  case (CFileRead path)
  with assms(2,3) show ?thesis by (simp add: actuate_def)
next
  case (CShellExec i args)
  with assms(1) canonicalize_shell_exec obtain ic where ic: "hm_get (cf_intents cfg) (intent_str i) = Some ic"
    by blast
  with assms(2,3) CShellExec have "eff \<in> ProcEvent ` set (fst (shell_exec (ho_spawn H) (im_binary ic)
      (map (expand_template args) (im_args_template ic))
      (unwrap_or (cf_workspace_root cfg) (im_working_dir ic)) action_id
      (action_timeout ''shell_exec'') max_output_bytes))"
    by (auto simp: actuate_def Let_def split: prod.splits)
  from shell_effects_vetted [OF assms(1) [unfolded CShellExec] ic this] show ?thesis .
next
  case (CHttpRequest m u b)
  with assms(2,3) have "eff \<in> set (http_effects H m u b)" by (auto simp: actuate_def)
  from http_effects_vetted [OF assms(1) [unfolded CHttpRequest] this] show ?thesis .
qed

section \<open>A concrete host\<close>

definition ascii_unicode :: unicode where
  "ascii_unicode = \<lparr>wide_alphanumeric = (\<lambda>_. False), wide_upper = (\<lambda>c. [c])\<rparr>"

text \<open>Children overrun their time under pid 7; the network is the sample network.\<close>

definition sample_host :: host where
  "sample_host =
     \<lparr>ho_unicode = ascii_unicode, ho_crypto = toy_crypto, ho_spawn = (\<lambda>_ _. Overruns (Some 7)),
      ho_net = sample_net, ho_http_overruns = False\<rparr>"

text \<open>A workspace with the directories of two agents.\<close>

definition sample_fs :: fs_state where
  "sample_fs = fs_of_list
     [([''ws''], Directory 493), ([''ws'', ''alice''], Directory 493), ([''ws'', ''bob''], Directory 493),
      ([''ws'', ''bob'', ''secret''], RegFile ''s3cret'' 384)]"

definition sample_policies :: "(string, domain_policy) hmap" where
  "sample_policies =
     [(''fs'', \<lparr>dp_enabled = True, dp_max_magnitude = 5\<rparr>), (''proc'', \<lparr>dp_enabled = True, dp_max_magnitude = 5\<rparr>),
      (''net'', \<lparr>dp_enabled = False, dp_max_magnitude = 5\<rparr>)]"

definition sample_agent :: "string \<Rightarrow> string option \<Rightarrow> agent_config" where
  "sample_agent aid secret =
     \<lparr>ac_agent_id = aid, ac_max_capacity = 8, ac_rate_limit_per_window = 2, ac_rate_limit_window_secs = 60,
      ac_domain_policies = sample_policies, ac_secret = secret\<rparr>"

definition sample_mapping :: "string \<Rightarrow> domain_mapping" where
  "sample_mapping d =
     \<lparr>dm_domain_id = d, dm_max_payload_bytes = None, dm_validator = None, dm_requires_intent = False\<rparr>"

definition sample_config :: ama_config where
  "sample_config =
     \<lparr>cf_workspace_root = ''/ws'', cf_bind_host = ''127.0.0.1'', cf_bind_port = 8787, cf_log_level = ''info'',
      cf_log_output = ''stderr'', cf_slime_mode = ''embedded'', cf_max_capacity = 8,
      cf_domain_policies = sample_policies,
      cf_domain_mappings = [(''file_write'', sample_mapping ''fs''), (''file_read'', sample_mapping ''fs''),
                            (''shell_exec'', sample_mapping ''proc''), (''http_request'', sample_mapping ''net'')],
      cf_intents = [(''read_file_cat'',
         \<lparr>im_binary = ''/bin/cat'', im_args_template = [''{{0}}''],
          im_validators = [''relative_workspace_path''], im_working_dir = None\<rparr>)],
      cf_allowlist = sample_allowlist,
      cf_agents = [(''alice'', sample_agent ''alice'' (Some ''0123456789abcdef0123456789abcdef'')),
                   (''bob'', sample_agent ''bob'' None)],
      cf_default_agent_id = None,
      cf_boot_hashes = \<lparr>bh_config = [], bh_domains = [], bh_intents = [], bh_allowlist = [], bh_agents = []\<rparr>\<rparr>"

definition sample_request :: "string \<Rightarrow> string \<Rightarrow> string option \<Rightarrow> string list option \<Rightarrow> action_request" where
  "sample_request action target payload args =
     \<lparr>rq_adapter = ''cli'', rq_action = action, rq_target = target, rq_magnitude = 3, rq_dry_run = False,
      rq_method = None, rq_payload = payload, rq_args = args\<rparr>"

definition sample_ctx :: call_ctx where
  "sample_ctx =
     \<lparr>cx_action_id = ''id1'', cx_session_id = ''s'', cx_agent_id = Some ''alice'', cx_timestamp = ''0'',
      cx_duration_ms = 1\<rparr>"

definition sample_auth :: p0_authorizer where
  "sample_auth = p0_new 8 sample_policies ''s''"

section \<open>Refusals\<close>

lemma file_write_refused:
  assumes "file_write s w c aid = (s', Inl e)" and "http_status e \<noteq> 503"
  shows "s' = s"
proof (cases "write_checks s (wp_canonical w)")
  case (Inr u)
  obtain s1 r1 where e: "ensure_parent s (wp_canonical w) = (s1, r1)" by (cases "ensure_parent s (wp_canonical w)")
  have "http_status e = 503"
  proof (cases r1)
    case (Inl e1)
    with assms(1) \<open>write_checks s (wp_canonical w) = Inr u\<close> e have "e = e1" by (simp add: file_write_def)
    moreover from e Inl have "\<exists>msg. e1 = unavailable msg"
      by (auto simp: ensure_parent_def split: option.splits if_splits sum.splits prod.splits)
    ultimately show ?thesis by (auto simp: unavailable_def http_status_def)
  next
    case (Inr v)
    with assms(1) \<open>write_checks s (wp_canonical w) = Inr u\<close> e
    have "write_and_rename s1 (wp_canonical w) (tmp_path (wp_canonical w) aid) (bounded_str c) = (s', Inl e)"
      by (simp add: file_write_def Let_def)
    then have "\<exists>msg. e = unavailable msg"
      by (auto simp: write_and_rename_def Let_def split: sum.splits prod.splits)
    then show ?thesis by (auto simp: unavailable_def http_status_def)
  qed
  with assms(2) show ?thesis by simp
qed (use assms in \<open>simp add: file_write_def\<close>)

section \<open>Properties\<close>

text \<open>C3: nothing happens without authorization. If a call writes, starts a process, sends a request
  or touches the file system or the agent's capacity at all, then it was not a dry run, every
  check before the authorizer passed, the policy admitted the action's domain at a magnitude
  between 1 and 1000 within the remaining capacity, and exactly that magnitude was spent.\<close>

theorem effects_require_authorization:
  assumes "oc_effects (process_action H s a rq cfg cx) \<noteq> [] \<or> oc_fs (process_action H s a rq cfg cx) \<noteq> s
     \<or> oc_auth (process_action H s a rq cfg cx) \<noteq> a"
  shows "\<not> rq_dry_run rq \<and> 1 \<le> unat (rq_magnitude rq) \<and> unat (rq_magnitude rq) \<le> 1000 \<and>
     (\<exists>act md. prepare H s rq cfg (cx_agent_id cx) = Inr (act, md) \<and>
        policy_admits a (md_domain_id md) (rq_magnitude rq) \<and>
        unat (pa_capacity a) + unat (rq_magnitude rq) \<le> unat (pa_max_capacity a) \<and>
        oc_auth (process_action H s a rq cfg cx) =
          a\<lparr>pa_capacity := pa_capacity a + rq_magnitude rq\<rparr>)"
proof (cases rule: process_action_cases [of H s rq cfg cx a])
  case (run act md s' effs result)
  from run(1) have m: "md_magnitude md = rq_magnitude rq" by (rule prepare_magnitude)
  from run(1) have "validate_magnitude (rq_magnitude rq) = Inr ()" by (simp add: prepare_Inr_iff)
  from validate_magnitude_unat [OF this] have mag: "1 \<le> unat (rq_magnitude rq)" "unat (rq_magnitude rq) \<le> 1000"
    by simp_all
  from run(3) m have ok: "policy_admits a (md_domain_id md) (rq_magnitude rq)"
    "unat (pa_capacity a) + unat (rq_magnitude rq) \<le> unat (pa_max_capacity a)"
    by (simp_all add: check_only_iff)
  have "try_reserve a (md_domain_id md) (rq_magnitude rq) =
      (VAuthorized, a\<lparr>pa_capacity := pa_capacity a + rq_magnitude rq\<rparr>)"
    using run(3) m by (cases rule: try_reserve_cases [of a "md_domain_id md" "rq_magnitude rq"])
      (auto simp: admit_Some_iff simp flip: try_reserve_fst)
  with run m mag ok show ?thesis by auto
qed (use assms in \<open>simp_all add: refused_def\<close>)

theorem effects_require_authorization_witness:
  "oc_effects (process_action sample_host sample_fs sample_auth
       (sample_request ''file_write'' ''notes.txt'' (Some ''hi'') None) sample_config sample_ctx)
     = [FileWritten ''/ws/alice/notes.txt''] \<and>
   oc_auth (process_action sample_host sample_fs sample_auth
       (sample_request ''file_write'' ''notes.txt'' (Some ''hi'') None) sample_config sample_ctx)
     = sample_auth\<lparr>pa_capacity := 3\<rparr>"
proof -
  let ?oc = "process_action sample_host sample_fs sample_auth
       (sample_request ''file_write'' ''notes.txt'' (Some ''hi'') None) sample_config sample_ctx"
  have eff: "oc_effects ?oc = [FileWritten ''/ws/alice/notes.txt'']" by code_simp
  then have "oc_effects ?oc \<noteq> []" by simp
  from effects_require_authorization [OF disjI1 [OF this]]
  have "oc_auth ?oc = sample_auth\<lparr>pa_capacity := pa_capacity sample_auth +
      rq_magnitude (sample_request ''file_write'' ''notes.txt'' (Some ''hi'') None)\<rparr>" by blast
  moreover have "pa_capacity sample_auth +
      rq_magnitude (sample_request ''file_write'' ''notes.txt'' (Some ''hi'') None) = 3"
    by (simp add: sample_request_def sample_auth_def p0_new_def)
  ultimately show ?thesis using eff by simp
qed

text \<open>C32: a dry run has no effect at all, and says what a real run would be told: it succeeds exactly
  when the checks pass and the authorizer would grant the reservation.\<close>

theorem dry_run_pure:
  assumes "rq_dry_run rq"
  shows "oc_effects (process_action H s a rq cfg cx) = [] \<and> oc_fs (process_action H s a rq cfg cx) = s \<and>
     oc_auth (process_action H s a rq cfg cx) = a \<and>
     (is_ok (oc_result (process_action H s a rq cfg cx)) \<longleftrightarrow>
        (\<exists>act md. prepare H s rq cfg (cx_agent_id cx) = Inr (act, md) \<and>
           fst (try_reserve a (md_domain_id md) (md_magnitude md)) = VAuthorized))"
  using assms
  by (cases rule: process_action_cases [of H s rq cfg cx a]) (auto simp: refused_def try_reserve_fst)

theorem dry_run_pure_witness:
  "is_ok (oc_result (process_action sample_host sample_fs sample_auth
      ((sample_request ''file_write'' ''notes.txt'' (Some ''hi'') None)\<lparr>rq_dry_run := True\<rparr>)
      sample_config sample_ctx)) \<and>
   oc_effects (process_action sample_host sample_fs sample_auth
      ((sample_request ''file_write'' ''notes.txt'' (Some ''hi'') None)\<lparr>rq_dry_run := True\<rparr>)
      sample_config sample_ctx) = []"
proof
  let ?rq = "(sample_request ''file_write'' ''notes.txt'' (Some ''hi'') None)\<lparr>rq_dry_run := True\<rparr>"
  show "is_ok (oc_result (process_action sample_host sample_fs sample_auth ?rq sample_config sample_ctx))"
    by code_simp
  show "oc_effects (process_action sample_host sample_fs sample_auth ?rq sample_config sample_ctx) = []"
    using dry_run_pure [of ?rq] by simp
qed


text \<open>C30: the audit trail is complete: a call that passes the checks leaves exactly one entry, with
  its action, the mapped domain, its magnitude and its hash; the entry says authorized exactly for
  the calls that succeed, and a call that fails the checks leaves none.\<close>

theorem audit_complete:
  "case prepare H s rq cfg (cx_agent_id cx) of
     Inl e \<Rightarrow> oc_audit (process_action H s a rq cfg cx) = [] \<and>
             oc_result (process_action H s a rq cfg cx) = Inl e
   | Inr (act, md) \<Rightarrow>
       (\<exists>entry. oc_audit (process_action H s a rq cfg cx) = [entry] \<and>
          ae_action entry = rq_action rq \<and> ae_domain_id entry = md_domain_id md \<and>
          ae_magnitude_effective entry = rq_magnitude rq \<and> ae_action_id entry = cx_action_id cx \<and>
          ae_request_hash entry = compute_request_hash (sha256_hex (ho_crypto H))
            (rq_action rq) (rq_target rq) (rq_magnitude rq) \<and>
          (ae_status entry = ''authorized'' \<longleftrightarrow> is_ok (oc_result (process_action H s a rq cfg cx))))"
proof (cases rule: process_action_cases [of H s rq cfg cx a])
  case invalid
  then show ?thesis by (simp add: refused_def)
next
  case (denied act md)
  then show ?thesis by (simp add: refused_def audit_of_def prepare_magnitude)
next
  case (dry act md)
  then show ?thesis by (simp add: audit_of_def prepare_magnitude)
next
  case (run act md s' effs result)
  then show ?thesis by (cases result) (simp_all add: audit_of_def prepare_magnitude)
qed

text \<open>C33: a refusal leaves no files behind. Whenever a call fails with anything but unavailable service,
  the file system is as it was: bad magnitudes, fields, targets, intents, URLs and arguments,
  denials, and targets that turn out to be links or directories only when they are written.\<close>

theorem refusals_leave_files:
  assumes "oc_result (process_action H s a rq cfg cx) = Inl e" and "http_status e \<noteq> 503"
  shows "oc_fs (process_action H s a rq cfg cx) = s"
proof (cases rule: process_action_cases [of H s rq cfg cx a])
  case (run act md s' effs result)
  show ?thesis
  proof (cases act)
    case (CFileWrite w c)
    from run(4) CFileWrite obtain r where fw: "file_write s w c (cx_action_id cx) = (s', r)"
      and res: "result = rbind r (\<lambda>n. Inr (RFileWrite n))"
      by (auto simp: actuate_def split: prod.splits)
    from assms(1) run(5) res have "r = Inl e" by (cases r) auto
    with file_write_refused [OF _ assms(2)] fw run(5) show ?thesis by simp
  qed (use run(4,5) in \<open>auto simp: actuate_def Let_def split: prod.splits option.splits\<close>)
qed (simp_all add: refused_def)

text \<open>A write onto a directory is refused with 422 and changes nothing.\<close>

theorem refusals_leave_files_witness:
  "let oc = process_action sample_host sample_fs sample_auth
       (sample_request ''file_write'' ''.'' (Some ''hi'') None) sample_config sample_ctx
   in (case oc_result oc of Inl e \<Rightarrow> http_status e = 422 | Inr r \<Rightarrow> False) \<and> oc_fs oc = sample_fs"
proof -
  let ?oc = "process_action sample_host sample_fs sample_auth
       (sample_request ''file_write'' ''.'' (Some ''hi'') None) sample_config sample_ctx"
  have r: "case oc_result ?oc of Inl e \<Rightarrow> http_status e = 422 | Inr r \<Rightarrow> False" by code_simp
  then obtain e where "oc_result ?oc = Inl e" "http_status e \<noteq> 503" by (auto split: sum.splits)
  from refusals_leave_files [OF this] r show ?thesis unfolding Let_def by blast
qed

text \<open>The shell path bypasses the isolation of agents. The argument of an intent is checked
  against the agent's own directory, but the program runs in the workspace root, where the same
  relative path names another agent's file: alice's request is accepted and \<open>/bin/cat\<close> is started
  on bob's secret, although alice's own \<open>file_read\<close> of that path finds nothing.\<close>

theorem shell_escapes_agent_root:
  "oc_effects (process_action sample_host sample_fs sample_auth
      (sample_request ''shell_exec'' ''read_file_cat'' None (Some [''bob/secret''])) sample_config sample_ctx)
    = map ProcEvent [Spawned (shell_command ''/bin/cat'' [''bob/secret''] ''/ws'' ''id1''),
                     Killed (- 7) 15, Slept 2, Killed (- 7) 9, Reaped] \<and>
   fs_lookup sample_fs True (path_join ''/ws'' ''bob/secret'') = Found [''ws'', ''bob'', ''secret''] \<and>
   \<not> is_ok (oc_result (process_action sample_host sample_fs sample_auth
      (sample_request ''file_read'' ''bob/secret'' None None) sample_config sample_ctx))"
proof (intro conjI)
  show "oc_effects (process_action sample_host sample_fs sample_auth
      (sample_request ''shell_exec'' ''read_file_cat'' None (Some [''bob/secret''])) sample_config sample_ctx)
    = map ProcEvent [Spawned (shell_command ''/bin/cat'' [''bob/secret''] ''/ws'' ''id1''),
                     Killed (- 7) 15, Slept 2, Killed (- 7) 9, Reaped]" by code_simp
  show "fs_lookup sample_fs True (path_join ''/ws'' ''bob/secret'') = Found [''ws'', ''bob'', ''secret'']"
    by code_simp
  show "\<not> is_ok (oc_result (process_action sample_host sample_fs sample_auth
      (sample_request ''file_read'' ''bob/secret'' None None) sample_config sample_ctx))" by code_simp
qed

end
