(* ===== verification/Manifest.thy ===== *)
theory Manifest
  imports Identity "HOL-Library.List_Lexorder" "HOL-Library.Char_ord"
begin

text \<open>
  \<open>safa-core/src/manifest.rs\<close>: the public manifest of an agent and its hash. A
  \<open>BTreeMap<String, _>\<close> is the list of its entries in the order of their keys, which
  \<open>String\<close> compares byte by byte. The hash is taken of the JSON text \<open>serde_json\<close> prints for
  the manifest without its hash; \<open>print\<close> stands for that printing.
\<close>

definition btree_collect :: "('k::linorder \<times> 'v) list \<Rightarrow> ('k \<times> 'v) list" where
  "btree_collect ps = sort_key fst (hm_collect ps)"

record domain_capability =
  dc_enabled :: bool
  dc_max_magnitude :: u64

record manifest_for_hashing =
  mh_schema_version :: string
  mh_agent_id :: string
  mh_identity_bound :: bool
  mh_max_capacity :: u64
  mh_rate_limit_per_window :: u64
  mh_rate_limit_window_secs :: u64
  mh_domains :: "(string \<times> domain_capability) list"

record public_manifest =
  pm_schema_version :: string
  pm_agent_id :: string
  pm_identity_bound :: bool
  pm_max_capacity :: u64
  pm_rate_limit_per_window :: u64
  pm_rate_limit_window_secs :: u64
  pm_domains :: "(string \<times> domain_capability) list"
  pm_manifest_hash :: string

definition manifest_schema_version :: string where
  "manifest_schema_version = ''safa-manifest-v1''"

definition capability_of :: "domain_policy \<Rightarrow> domain_capability" where
  "capability_of p = \<lparr>dc_enabled = dp_enabled p, dc_max_magnitude = dp_max_magnitude p\<rparr>"

text \<open>What \<open>#[derive(Serialize)]\<close> makes of the structs: fields in declaration order.\<close>

definition capability_json :: "domain_capability \<Rightarrow> json" where
  "capability_json d =
     JObj [(''enabled'', JBool (dc_enabled d)),
           (''max_magnitude_per_action'', JNum (uint (dc_max_magnitude d)))]"

definition domains_json :: "(string \<times> domain_capability) list \<Rightarrow> json" where
  "domains_json ds = JObj (map (\<lambda>(k, d). (k, capability_json d)) ds)"

definition hashing_json :: "manifest_for_hashing \<Rightarrow> json" where
  "hashing_json m =
     JObj [(''schema_version'', JStr (mh_schema_version m)),
           (''agent_id'', JStr (mh_agent_id m)),
           (''identity_bound'', JBool (mh_identity_bound m)),
           (''max_capacity'', JNum (uint (mh_max_capacity m))),
           (''rate_limit_per_window'', JNum (uint (mh_rate_limit_per_window m))),
           (''rate_limit_window_secs'', JNum (uint (mh_rate_limit_window_secs m))),
           (''domains'', domains_json (mh_domains m))]"

definition manifest_json :: "public_manifest \<Rightarrow> json" where
  "manifest_json m =
     JObj [(''schema_version'', JStr (pm_schema_version m)),
           (''agent_id'', JStr (pm_agent_id m)),
           (''identity_bound'', JBool (pm_identity_bound m)),
           (''max_capacity'', JNum (uint (pm_max_capacity m))),
           (''rate_limit_per_window'', JNum (uint (pm_rate_limit_per_window m))),
           (''rate_limit_window_secs'', JNum (uint (pm_rate_limit_window_secs m))),
           (''domains'', domains_json (pm_domains m)),
           (''manifest_hash'', JStr (pm_manifest_hash m))]"

definition manifest_domains :: "agent_config \<Rightarrow> (string \<times> domain_capability) list" where
  "manifest_domains config =
     btree_collect (map (\<lambda>(k, p). (k, capability_of p)) (ac_domain_policies config))"

definition hashable_of :: "agent_config \<Rightarrow> manifest_for_hashing" where
  "hashable_of config =
     \<lparr>mh_schema_version = manifest_schema_version,
      mh_agent_id = ac_agent_id config,
      mh_identity_bound = (ac_secret config \<noteq> None),
      mh_max_capacity = ac_max_capacity config,
      mh_rate_limit_per_window = ac_rate_limit_per_window config,
      mh_rate_limit_window_secs = ac_rate_limit_window_secs config,
      mh_domains = manifest_domains config\<rparr>"

definition from_agent_config :: "crypto \<Rightarrow> (json \<Rightarrow> string) \<Rightarrow> agent_config \<Rightarrow> public_manifest" where
  "from_agent_config X print config =
     (let canonical_json = print (hashing_json (hashable_of config))
      in \<lparr>pm_schema_version = manifest_schema_version,
          pm_agent_id = ac_agent_id config,
          pm_identity_bound = (ac_secret config \<noteq> None),
          pm_max_capacity = ac_max_capacity config,
          pm_rate_limit_per_window = ac_rate_limit_per_window config,
          pm_rate_limit_window_secs = ac_rate_limit_window_secs config,
          pm_domains = manifest_domains config,
          pm_manifest_hash = sha256_hex X canonical_json\<rparr>)"

definition manifest_hash :: "public_manifest \<Rightarrow> string" where
  "manifest_hash m = pm_manifest_hash m"

section \<open>Sorted maps\<close>

lemma btree_sorted: "sorted (map fst (btree_collect ps))" "hm_wf (btree_collect ps)"
  using hm_wf_collect [of ps] by (auto simp: btree_collect_def hm_wf_def distinct_map)

lemma hm_get_btree: "hm_get (btree_collect ps) k = map_of (rev ps) k"
proof -
  have "hm_get (btree_collect ps) k = Some v \<longleftrightarrow> hm_get (hm_collect ps) k = Some v" for v
    using hm_mem_get [OF btree_sorted(2), of k v ps] hm_mem_get [OF hm_wf_collect, of k v ps]
    by (simp add: btree_collect_def)
  then have "hm_get (btree_collect ps) k = hm_get (hm_collect ps) k"
    by (metis option.exhaust)
  then show ?thesis by (simp add: hm_get_collect_last)
qed

text \<open>A sorted map is determined by its lookups: the iteration order it was built from is gone.\<close>

lemma btree_unique:
  assumes "\<And>k. hm_get (btree_collect ps) k = hm_get (btree_collect qs) k"
  shows "btree_collect ps = btree_collect qs"
proof (rule map_sorted_distinct_set_unique [of fst])
  have "p \<in> set (btree_collect ps) \<longleftrightarrow> p \<in> set (btree_collect qs)" for p
    using hm_mem_get [OF btree_sorted(2), of "fst p" "snd p" ps]
      hm_mem_get [OF btree_sorted(2), of "fst p" "snd p" qs] assms [of "fst p"] by simp
  then show eq: "set (btree_collect ps) = set (btree_collect qs)" by blast
  show "inj_on fst (set (btree_collect ps) \<union> set (btree_collect qs))"
    using btree_sorted(2) [of ps] by (simp add: hm_wf_def distinct_map flip: eq)
qed (use btree_sorted in \<open>auto simp: hm_wf_def\<close>)

lemma hm_get_map_values:
  "hm_get (map (\<lambda>(k, v). (k, f v)) m) k = map_option f (hm_get m k)"
  by (induction m) (auto simp: hm_get_def)

lemma manifest_domains_get:
  "hm_wf (ac_domain_policies c) \<Longrightarrow>
     hm_get (manifest_domains c) k = map_option capability_of (hm_get (ac_domain_policies c) k)"
proof -
  assume wf: "hm_wf (ac_domain_policies c)"
  let ?ps = "map (\<lambda>(k, p). (k, capability_of p)) (ac_domain_policies c)"
  have "distinct (map fst ?ps)" using wf by (simp add: hm_wf_def comp_def case_prod_unfold)
  from map_of_rev_distinct [OF this, of k] show ?thesis
    by (simp add: manifest_domains_def hm_get_btree hm_get_map_values flip: hm_get_def)
qed

section \<open>What the manifest reveals\<close>

text \<open>Two configurations a client cannot tell apart: all but the secret's value, and the domains as a map.\<close>

definition same_public :: "agent_config \<Rightarrow> agent_config \<Rightarrow> bool" where
  "same_public c c' \<longleftrightarrow>
     ac_agent_id c = ac_agent_id c' \<and> ac_max_capacity c = ac_max_capacity c' \<and>
     ac_rate_limit_per_window c = ac_rate_limit_per_window c' \<and>
     ac_rate_limit_window_secs c = ac_rate_limit_window_secs c' \<and>
     (ac_secret c = None \<longleftrightarrow> ac_secret c' = None) \<and>
     (\<forall>d. hm_get (ac_domain_policies c) d = hm_get (ac_domain_policies c') d)"

lemma capability_of_inj: "capability_of p = capability_of q \<Longrightarrow> p = q"
  by (simp add: capability_of_def)

lemma manifest_domains_eq_iff:
  assumes "hm_wf (ac_domain_policies c)" and "hm_wf (ac_domain_policies c')"
  shows "manifest_domains c = manifest_domains c' \<longleftrightarrow>
         (\<forall>d. hm_get (ac_domain_policies c) d = hm_get (ac_domain_policies c') d)"
proof
  assume "manifest_domains c = manifest_domains c'"
  then have "map_option capability_of (hm_get (ac_domain_policies c) d) =
             map_option capability_of (hm_get (ac_domain_policies c') d)" for d
    using manifest_domains_get [OF assms(1)] manifest_domains_get [OF assms(2)] by metis
  moreover have "inj capability_of" by (auto intro: injI capability_of_inj)
  ultimately show "\<forall>d. hm_get (ac_domain_policies c) d = hm_get (ac_domain_policies c') d"
    by (metis option.inj_map_strong injD)
next
  assume "\<forall>d. hm_get (ac_domain_policies c) d = hm_get (ac_domain_policies c') d"
  then show "manifest_domains c = manifest_domains c'"
    unfolding manifest_domains_def
    by (intro btree_unique)
      (simp add: manifest_domains_get [OF assms(1)] manifest_domains_get [OF assms(2)]
        flip: manifest_domains_def)
qed

lemma capability_json_inj [simp]: "capability_json d = capability_json d' \<longleftrightarrow> d = d'"
  by (cases d, cases d') (auto simp: capability_json_def word_uint_eq_iff)

lemma domains_json_inj [simp]: "domains_json ds = domains_json ds' \<longleftrightarrow> ds = ds'"
proof -
  have "inj (\<lambda>(k, d). (k :: string, capability_json d))" by (auto intro: injI)
  then show ?thesis by (simp add: domains_json_def inj_map_eq_map)
qed

lemma hashing_json_inj: "hashing_json m = hashing_json m' \<Longrightarrow> m = m'"
  by (cases m, cases m') (simp add: hashing_json_def word_uint_eq_iff)

lemma hashable_of_eq_iff:
  assumes "hm_wf (ac_domain_policies c)" and "hm_wf (ac_domain_policies c')"
  shows "hashable_of c = hashable_of c' \<longleftrightarrow> same_public c c'"
  using manifest_domains_eq_iff [OF assms] by (auto simp: hashable_of_def same_public_def)

text \<open>A stand-in for printing, to have a concrete instance.\<close>

definition toy_print :: "json \<Rightarrow> string" where
  "toy_print v =
     (case v of
        JObj [a, b, c, (k, JNum n), e, f, g] \<Rightarrow> show_nat (nat n)
      | _ \<Rightarrow> [])"

section \<open>Properties\<close>

text \<open>The public manifest, hash included, does not depend on the secret's value nor on the
  iteration order of the domain map: configurations that agree in all public fields, in whether
  there is a secret, and in every domain's policy have the same manifest.\<close>

theorem manifest_public_only:
  assumes "hm_wf (ac_domain_policies c)" and "hm_wf (ac_domain_policies c')" and "same_public c c'"
  shows "from_agent_config X print c = from_agent_config X print c'"
proof -
  have "hashable_of c = hashable_of c'" using hashable_of_eq_iff [OF assms(1,2)] assms(3) by blast
  moreover have "manifest_domains c = manifest_domains c'"
    using manifest_domains_eq_iff [OF assms(1,2)] assms(3) by (simp add: same_public_def)
  ultimately show ?thesis
    using assms(3) by (auto simp: from_agent_config_def same_public_def Let_def)
qed

theorem manifest_public_only_witness:
  "let c = \<lparr>ac_agent_id = ''a'', ac_max_capacity = 9, ac_rate_limit_per_window = 1,
           ac_rate_limit_window_secs = 1,
           ac_domain_policies = [(''fs.write'', \<lparr>dp_enabled = True, dp_max_magnitude = 3\<rparr>),
                                 (''fs.read'', \<lparr>dp_enabled = False, dp_max_magnitude = 4\<rparr>)],
           ac_secret = Some ''0123456789abcdef0123456789abcdef''\<rparr>;
       c' = c\<lparr>ac_domain_policies := rev (ac_domain_policies c),
              ac_secret := Some ''fedcba9876543210fedcba9876543210''\<rparr>
   in from_agent_config toy_crypto toy_print c = from_agent_config toy_crypto toy_print c' \<and>
      map fst (pm_domains (from_agent_config toy_crypto toy_print c)) = [''fs.read'', ''fs.write'']"
proof -
  let ?c = "\<lparr>ac_agent_id = ''a'', ac_max_capacity = 9, ac_rate_limit_per_window = 1,
           ac_rate_limit_window_secs = 1,
           ac_domain_policies = [(''fs.write'', \<lparr>dp_enabled = True, dp_max_magnitude = 3\<rparr>),
                                 (''fs.read'', \<lparr>dp_enabled = False, dp_max_magnitude = 4\<rparr>)],
           ac_secret = Some ''0123456789abcdef0123456789abcdef''\<rparr>"
  let ?c' = "?c\<lparr>ac_domain_policies := rev (ac_domain_policies ?c),
              ac_secret := Some ''fedcba9876543210fedcba9876543210''\<rparr>"
  have "same_public ?c ?c'" by (simp add: same_public_def hm_get_def)
  then have "from_agent_config toy_crypto toy_print ?c = from_agent_config toy_crypto toy_print ?c'"
    by (intro manifest_public_only) (simp_all add: hm_wf_def)
  moreover have "map fst (pm_domains (from_agent_config toy_crypto toy_print ?c)) = [''fs.read'', ''fs.write'']"
    by (simp add: from_agent_config_def Let_def manifest_domains_def btree_collect_def hm_collect_def
        hm_insert_def sort_key_def less_eq_char_def list_less_def list_le_def)
  ultimately show ?thesis unfolding Let_def by blast
qed

text \<open>C37: the manifest hash commits to the policy. Two configurations with the same hash agree in
  every public field and every domain's policy, unless their two canonical texts are printed alike
  from different values or are a collision of SHA-256.\<close>

theorem manifest_hash_binds:
  assumes "hm_wf (ac_domain_policies c)" and "hm_wf (ac_domain_policies c')"
    and "manifest_hash (from_agent_config X print c) = manifest_hash (from_agent_config X print c')"
  shows "same_public c c' \<or>
     (let v = hashing_json (hashable_of c); v' = hashing_json (hashable_of c')
      in v \<noteq> v' \<and> (print v = print v' \<or> sha256_hex X (print v) = sha256_hex X (print v')))"
proof (cases "hashing_json (hashable_of c) = hashing_json (hashable_of c')")
  case True
  then show ?thesis using hashable_of_eq_iff [OF assms(1,2)] hashing_json_inj by blast
next
  case False
  with assms(3) show ?thesis by (simp add: manifest_hash_def from_agent_config_def Let_def)
qed

text \<open>Two secrets give the same hash.\<close>

theorem manifest_hash_binds_witness:
  "\<exists>c c'. manifest_hash (from_agent_config toy_crypto toy_print c) =
           manifest_hash (from_agent_config toy_crypto toy_print c') \<and> c \<noteq> c' \<and> same_public c c'"
proof -
  let ?c = "\<lparr>ac_agent_id = ''a'', ac_max_capacity = 9, ac_rate_limit_per_window = 1,
           ac_rate_limit_window_secs = 1, ac_domain_policies = [], ac_secret = Some ''s''\<rparr>"
  let ?c' = "?c\<lparr>ac_secret := Some ''t''\<rparr>"
  have h: "hashing_json (hashable_of ?c) = hashing_json (hashable_of ?c')"
    by (simp add: hashable_of_def manifest_domains_def)
  then have eq: "manifest_hash (from_agent_config toy_crypto toy_print ?c) =
      manifest_hash (from_agent_config toy_crypto toy_print ?c')"
    by (simp add: manifest_hash_def from_agent_config_def Let_def)
  have "same_public ?c ?c'"
    using manifest_hash_binds [OF _ _ eq] h by (auto simp: Let_def)
  moreover have "?c \<noteq> ?c'" by simp
  ultimately show ?thesis using eq by blast
qed

end
