(* ===== verification/Idempotency.thy ===== *)
theory Idempotency
  imports Errors
begin

text \<open>
  \<open>safa-core/src/idempotency.rs\<close>: the key check and the cache that admits a key once.
  Instants are nanoseconds of the monotonic clock; \<open>duration_since\<close> and \<open>elapsed\<close>
  saturate at zero, as subtraction of natural numbers does. A call reads the clock up to
  three times, so it takes three instants. The contract of the cache is the locale
  \<open>admission_cache\<close>.
\<close>

type_synonym uuid = "128 word"
type_synonym instant = nat

definition max_key_bytes :: nat where
  "max_key_bytes = 128"

text \<open>\<open>parse\<close> and \<open>version\<close> are the \<open>uuid\<close> crate's \<open>parse_str\<close> and \<open>get_version_num\<close>.\<close>

definition validate_idempotency_key ::
  "(string \<Rightarrow> uuid option) \<Rightarrow> (uuid \<Rightarrow> nat) \<Rightarrow> string \<Rightarrow> ama_error + uuid" where
  "validate_idempotency_key parse version key =
     (if key = [] \<or> length key > max_key_bytes then
        Inl (BadRequest ''Idempotency-Key must be 1-128 bytes'')
      else rbind (ok_or (parse key) (BadRequest ''Idempotency-Key must be a valid UUID v4''))
        (\<lambda>u. if version u \<noteq> 4 then Inl (BadRequest ''Idempotency-Key must be UUID v4'')
             else Inr u))"

datatype idem_status = New | InFlight | Cached string | Full

record cache_entry =
  ce_result :: "string option"
  ce_created_at :: instant
  ce_in_flight :: bool

record idem_cache =
  ic_entries :: "(uuid, cache_entry) hmap"
  ic_max_entries :: nat
  ic_ttl :: nat

definition cache_new :: "nat \<Rightarrow> nat \<Rightarrow> idem_cache" where
  "cache_new max_entries ttl = \<lparr>ic_entries = [], ic_max_entries = max_entries, ic_ttl = ttl\<rparr>"

definition purge_expired :: "idem_cache \<Rightarrow> instant \<Rightarrow> idem_cache" where
  "purge_expired c now =
     c\<lparr>ic_entries := hm_retain (\<lambda>_ e. now - ce_created_at e < ic_ttl c) (ic_entries c)\<rparr>"

definition at_capacity :: "idem_cache \<Rightarrow> bool" where
  "at_capacity c \<longleftrightarrow> ic_max_entries c \<le> hm_len (ic_entries c)"

definition fresh_entry :: "instant \<Rightarrow> cache_entry" where
  "fresh_entry t = \<lparr>ce_result = None, ce_created_at = t, ce_in_flight = True\<rparr>"

text \<open>
  The match on \<open>entries.entry(key)\<close>, one critical section under the shard lock: \<open>full\<close> is
  the capacity snapshot, \<open>t2\<close> the instant \<open>elapsed\<close> reads, \<open>t3\<close> the new entry's.
\<close>

definition entry_step ::
  "idem_cache \<Rightarrow> uuid \<Rightarrow> bool \<Rightarrow> instant \<Rightarrow> instant \<Rightarrow> idem_status \<times> idem_cache" where
  "entry_step c key full t2 t3 =
     (case hm_get (ic_entries c) key of
        Some e \<Rightarrow>
          if t2 - ce_created_at e > ic_ttl c then
            (New, c\<lparr>ic_entries := hm_insert key (fresh_entry t3) (ic_entries c)\<rparr>)
          else if ce_in_flight e then (InFlight, c)
          else (case ce_result e of Some r \<Rightarrow> (Cached r, c) | None \<Rightarrow> (InFlight, c))
      | None \<Rightarrow>
          if full then (Full, c)
          else (New, c\<lparr>ic_entries := hm_insert key (fresh_entry t3) (ic_entries c)\<rparr>))"

definition check_or_insert ::
  "idem_cache \<Rightarrow> uuid \<Rightarrow> instant \<Rightarrow> instant \<Rightarrow> instant \<Rightarrow> idem_status \<times> idem_cache" where
  "check_or_insert c key t1 t2 t3 =
     (let c1 = purge_expired c t1 in entry_step c1 key (at_capacity c1) t2 t3)"

definition cache_complete :: "idem_cache \<Rightarrow> uuid \<Rightarrow> string \<Rightarrow> idem_cache" where
  "cache_complete c key result =
     (case hm_get (ic_entries c) key of
        Some e \<Rightarrow>
          c\<lparr>ic_entries :=
              hm_insert key (e\<lparr>ce_in_flight := False, ce_result := Some result\<rparr>) (ic_entries c)\<rparr>
      | None \<Rightarrow> c)"

definition cache_remove :: "idem_cache \<Rightarrow> uuid \<Rightarrow> idem_cache" where
  "cache_remove c key = c\<lparr>ic_entries := hm_remove key (ic_entries c)\<rparr>"

definition cache_len :: "idem_cache \<Rightarrow> nat" where
  "cache_len c = hm_len (ic_entries c)"

section \<open>The contract\<close>

text \<open>The three states of a key: unknown, being processed, answered.\<close>

datatype slot = SAbsent | SInFlight | SDone string

datatype cache_event = Submit uuid instant instant instant | Complete uuid string

fun chronological :: "instant \<Rightarrow> cache_event list \<Rightarrow> bool" where
  "chronological t [] = True"
| "chronological t (Submit k t1 t2 t3 # es) = (t \<le> t1 \<and> t1 \<le> t2 \<and> t2 \<le> t3 \<and> chronological t3 es)"
| "chronological t (Complete k r # es) = chronological t es"

locale admission_cache =
  fixes submit :: "'c \<Rightarrow> uuid \<Rightarrow> instant \<Rightarrow> instant \<Rightarrow> instant \<Rightarrow> idem_status \<times> 'c"
    and complete :: "'c \<Rightarrow> uuid \<Rightarrow> string \<Rightarrow> 'c"
    and slot :: "'c \<Rightarrow> uuid \<Rightarrow> slot"
    and born :: "'c \<Rightarrow> uuid \<Rightarrow> instant"
    and ttl :: "'c \<Rightarrow> nat"
    and inv :: "'c \<Rightarrow> bool"
  assumes submit_inv: "inv c \<Longrightarrow> inv (snd (submit c k t1 t2 t3))"
    and submit_ttl: "ttl (snd (submit c k t1 t2 t3)) = ttl c"
    and submit_new: "inv c \<Longrightarrow> fst (submit c k t1 t2 t3) = New \<Longrightarrow>
      slot (snd (submit c k t1 t2 t3)) k = SInFlight \<and> born (snd (submit c k t1 t2 t3)) k = t3"
    and submit_new_fresh: "inv c \<Longrightarrow> t1 \<le> t2 \<Longrightarrow> fst (submit c k t1 t2 t3) = New \<Longrightarrow>
      slot c k = SAbsent \<or> born c k + ttl c \<le> t2"
    and submit_keeps: "inv c \<Longrightarrow> slot c k' \<noteq> SAbsent \<Longrightarrow> t1 < born c k' + ttl c \<Longrightarrow>
      k' \<noteq> k \<or> fst (submit c k t1 t2 t3) \<noteq> New \<Longrightarrow>
      slot (snd (submit c k t1 t2 t3)) k' = slot c k' \<and> born (snd (submit c k t1 t2 t3)) k' = born c k'"
    and submit_done: "inv c \<Longrightarrow> slot c k = SDone r \<Longrightarrow> t1 < born c k + ttl c \<Longrightarrow>
      t2 \<le> born c k + ttl c \<Longrightarrow> fst (submit c k t1 t2 t3) = Cached r"
    and submit_busy: "inv c \<Longrightarrow> slot c k = SInFlight \<Longrightarrow> t1 < born c k + ttl c \<Longrightarrow>
      t2 \<le> born c k + ttl c \<Longrightarrow> fst (submit c k t1 t2 t3) = InFlight"
    and complete_inv: "inv c \<Longrightarrow> inv (complete c k r)"
    and complete_ttl: "ttl (complete c k r) = ttl c"
    and complete_slot: "slot (complete c k r) k' =
      (if k' = k \<and> slot c k \<noteq> SAbsent then SDone r else slot c k')"
    and complete_born: "born (complete c k r) k' = born c k'"
begin

fun run :: "'c \<Rightarrow> cache_event list \<Rightarrow> (uuid \<times> idem_status \<times> instant) list \<times> 'c" where
  "run c [] = ([], c)"
| "run c (Submit k t1 t2 t3 # es) =
     (let (st, c') = submit c k t1 t2 t3; (outs, c'') = run c' es in ((k, st, t3) # outs, c''))"
| "run c (Complete k r # es) = run (complete c k r) es"

text \<open>The instants at which a run hands out ownership of a key.\<close>

definition grants :: "uuid \<Rightarrow> (uuid \<times> idem_status \<times> instant) list \<Rightarrow> instant list" where
  "grants k outs = map (\<lambda>(k', st, t). t) (filter (\<lambda>(k', st, t). k' = k \<and> st = New) outs)"

lemma grants_simps [simp]:
  "grants k [] = []"
  "grants k ((k', st, t) # outs) = (if k' = k \<and> st = New then t # grants k outs else grants k outs)"
  by (simp_all add: grants_def)

lemma run_inv: "inv c \<Longrightarrow> inv (snd (run c es)) \<and> ttl (snd (run c es)) = ttl c"
proof (induction c es rule: run.induct)
  case (2 c k t1 t2 t3 es)
  obtain st c' where sub: "submit c k t1 t2 t3 = (st, c')" by fastforce
  with submit_inv [OF "2.prems", of k t1 t2 t3] submit_ttl [of c k t1 t2 t3]
  have "inv c'" and "ttl c' = ttl c" by simp_all
  with 2 sub show ?case by (auto split: prod.splits)
qed (auto simp: complete_inv complete_ttl)

lemma run_after: "chronological t es \<Longrightarrow> (k, st, g) \<in> set (fst (run c es)) \<Longrightarrow> t \<le> g"
proof (induction c es arbitrary: t rule: run.induct)
  case (2 c k' t1 t2 t3 es)
  obtain st' c' where sub: "submit c k' t1 t2 t3 = (st', c')" by fastforce
  from "2.prems" sub have "g = t3 \<or> (k, st, g) \<in> set (fst (run c' es))"
    by (auto split: prod.splits)
  with 2 sub show ?case by fastforce
qed auto

lemma grants_after: "chronological t es \<Longrightarrow> g \<in> set (grants k (fst (run c es))) \<Longrightarrow> t \<le> g"
  by (auto simp: grants_def dest: run_after)

text \<open>While a key is held, nobody is granted it again before its time is over.\<close>

lemma run_held:
  assumes "inv c" and "chronological t es" and "slot c k \<noteq> SAbsent"
    and "g \<in> set (grants k (fst (run c es)))"
  shows "born c k + ttl c \<le> g"
  using assms
proof (induction c es arbitrary: t rule: run.induct)
  case (2 c k' t1 t2 t3 es)
  obtain st c' where sub: "submit c k' t1 t2 t3 = (st, c')" by fastforce
  from "2.prems"(2) have ts: "t1 \<le> t2" "t2 \<le> t3" and chron: "chronological t3 es" by auto
  from submit_inv [OF "2.prems"(1), of k' t1 t2 t3] submit_ttl [of c k' t1 t2 t3] sub
  have c': "inv c'" "ttl c' = ttl c" by simp_all
  from "2.prems"(4) sub have g: "(k' = k \<and> st = New \<and> g = t3) \<or> g \<in> set (grants k (fst (run c' es)))"
    by (auto split: prod.splits if_splits)
  with grants_after [OF chron] have late: "t3 \<le> g" by auto
  show ?case
  proof (cases "t1 < born c k + ttl c \<and> (k' \<noteq> k \<or> st \<noteq> New)")
    case True
    then have keep: "slot c' k = slot c k" "born c' k = born c k"
      using submit_keeps [OF "2.prems"(1,3), of t1 k' t2 t3] sub by auto
    from True g have g': "g \<in> set (grants k (fst (run c' es)))" by auto
    from "2.IH" [OF sub [symmetric] refl c'(1) chron _ g'] keep c' "2.prems"(3)
    show ?thesis by simp
  next
    case False
    then consider "born c k + ttl c \<le> t1" | "k' = k" "st = New" by linarith
    then show ?thesis
    proof cases
      case 1
      with ts late show ?thesis by simp
    next
      case 2
      with submit_new_fresh [OF "2.prems"(1) ts(1), of k t3] sub "2.prems"(3)
      have "born c k + ttl c \<le> t2" by auto
      with ts late show ?thesis by simp
    qed
  qed
qed (auto simp: complete_inv complete_ttl complete_slot complete_born)

text \<open>Two grants of a key are at least the cache's time to live apart.\<close>

theorem grants_apart:
  assumes "inv c" and "chronological t es"
  shows "sorted_wrt (\<lambda>g g'. g + ttl c \<le> g') (grants k (fst (run c es)))"
  using assms
proof (induction c es arbitrary: t rule: run.induct)
  case (2 c k' t1 t2 t3 es)
  obtain st c' where sub: "submit c k' t1 t2 t3 = (st, c')" by fastforce
  from "2.prems" have chron: "chronological t3 es" by auto
  from submit_inv [OF "2.prems"(1), of k' t1 t2 t3] submit_ttl [of c k' t1 t2 t3] sub
  have c': "inv c'" "ttl c' = ttl c" by simp_all
  have ih: "sorted_wrt (\<lambda>g g'. g + ttl c \<le> g') (grants k (fst (run c' es)))"
    using "2.IH" [OF sub [symmetric] refl c'(1) chron] c'(2) by simp
  have "t3 + ttl c \<le> g" if "k' = k" "st = New" "g \<in> set (grants k (fst (run c' es)))" for g
  proof -
    from submit_new [OF "2.prems"(1), of k t1 t2 t3] sub that
    have "slot c' k \<noteq> SAbsent" and "born c' k = t3" by auto
    with run_held [OF c'(1) chron _ that(3)] c' show ?thesis by simp
  qed
  with ih sub show ?case by (auto split: prod.splits)
qed (auto simp: complete_inv complete_ttl)

text \<open>An answered key replays its answer for the rest of its time.\<close>

theorem replays:
  assumes "inv c" and "chronological t es" and "slot c k = SDone r"
    and "\<forall>r'. Complete k r' \<notin> set es"
    and "(k, st, g) \<in> set (fst (run c es))" and "g < born c k + ttl c"
  shows "st = Cached r"
  using assms
proof (induction c es arbitrary: t rule: run.induct)
  case (2 c k' t1 t2 t3 es)
  obtain st' c' where sub: "submit c k' t1 t2 t3 = (st', c')" by fastforce
  from "2.prems"(2) have ts: "t1 \<le> t2" "t2 \<le> t3" and chron: "chronological t3 es" by auto
  from submit_inv [OF "2.prems"(1), of k' t1 t2 t3] submit_ttl [of c k' t1 t2 t3] sub
  have c': "inv c'" "ttl c' = ttl c" by simp_all
  from "2.prems"(5) sub consider "k' = k" "st' = st" "t3 = g" | "(k, st, g) \<in> set (fst (run c' es))"
    by (auto split: prod.splits)
  then show ?case
  proof cases
    case 1
    with ts "2.prems"(6) have "t1 < born c k + ttl c" and "t2 \<le> born c k + ttl c" by simp_all
    from submit_done [OF "2.prems"(1,3) this, of t3] 1 sub show ?thesis by simp
  next
    case 2
    with run_after [OF chron] have "t3 \<le> g" by blast
    with ts "2.prems"(6) have fresh: "t1 < born c k + ttl c" "t2 \<le> born c k + ttl c" by simp_all
    have "k' \<noteq> k \<or> fst (submit c k' t1 t2 t3) \<noteq> New"
      using submit_done [OF "2.prems"(1,3) fresh] by auto
    with submit_keeps [OF "2.prems"(1) _ fresh(1), of k' t2 t3] "2.prems"(3) sub
    have "slot c' k = SDone r" "born c' k = born c k" by auto
    with "2.IH" [OF sub [symmetric] refl c'(1) chron _ _ 2] "2.prems"(4,6) c'
    show ?thesis by simp
  qed
next
  case (3 c k' r' es)
  then show ?case by (auto simp: complete_inv complete_ttl complete_slot complete_born)
qed simp

end

section \<open>The cache provides it\<close>

definition cache_slot :: "idem_cache \<Rightarrow> uuid \<Rightarrow> slot" where
  "cache_slot c k =
     (case hm_get (ic_entries c) k of
        None \<Rightarrow> SAbsent
      | Some e \<Rightarrow>
          if ce_in_flight e then SInFlight
          else (case ce_result e of Some r \<Rightarrow> SDone r | None \<Rightarrow> SInFlight))"

definition cache_born :: "idem_cache \<Rightarrow> uuid \<Rightarrow> instant" where
  "cache_born c k = (case hm_get (ic_entries c) k of Some e \<Rightarrow> ce_created_at e | None \<Rightarrow> 0)"

definition cache_inv :: "idem_cache \<Rightarrow> bool" where
  "cache_inv c \<longleftrightarrow> hm_wf (ic_entries c) \<and> 0 < ic_ttl c"

lemma purge_get:
  "hm_wf (ic_entries c) \<Longrightarrow> hm_get (ic_entries (purge_expired c t)) k =
     (case hm_get (ic_entries c) k of
        Some e \<Rightarrow> if t - ce_created_at e < ic_ttl c then Some e else None
      | None \<Rightarrow> None)"
  by (simp add: purge_expired_def hm_get_retain split: option.splits)

lemma purge_simps [simp]:
  "ic_ttl (purge_expired c t) = ic_ttl c"
  "ic_max_entries (purge_expired c t) = ic_max_entries c"
  "hm_wf (ic_entries c) \<Longrightarrow> hm_wf (ic_entries (purge_expired c t))"
  by (simp_all add: purge_expired_def)

lemma entry_step_cases:
  obtains (new) "entry_step c k full t2 t3 =
      (New, c\<lparr>ic_entries := hm_insert k (fresh_entry t3) (ic_entries c)\<rparr>)"
      "hm_get (ic_entries c) k = None \<and> \<not> full \<or>
       (\<exists>e. hm_get (ic_entries c) k = Some e \<and> ic_ttl c < t2 - ce_created_at e)"
  | (same) st e where "entry_step c k full t2 t3 = (st, c)" "st \<noteq> New"
      "hm_get (ic_entries c) k = Some e" "t2 - ce_created_at e \<le> ic_ttl c"
      "st = (if ce_in_flight e then InFlight
             else case ce_result e of Some r \<Rightarrow> Cached r | None \<Rightarrow> InFlight)"
  | (full) "entry_step c k full t2 t3 = (Full, c)" "hm_get (ic_entries c) k = None" "full"
proof (cases "hm_get (ic_entries c) k")
  case None
  then show ?thesis using new full by (cases full) (auto simp: entry_step_def)
next
  case (Some e)
  show ?thesis
  proof (cases "ic_ttl c < t2 - ce_created_at e")
    case True
    with Some new show ?thesis by (simp add: entry_step_def)
  next
    case False
    let ?st = "if ce_in_flight e then InFlight
               else case ce_result e of Some r \<Rightarrow> Cached r | None \<Rightarrow> InFlight"
    from Some False have "entry_step c k full t2 t3 = (?st, c)"
      by (simp add: entry_step_def split: option.splits)
    then show ?thesis
      by (rule same [of ?st e]) (use Some False in \<open>auto split: option.splits\<close>)
  qed
qed

text \<open>A call's outcome, seen from the cache before it.\<close>

lemma check_or_insert_def':
  "check_or_insert c k t1 t2 t3 =
     entry_step (purge_expired c t1) k (at_capacity (purge_expired c t1)) t2 t3"
  by (simp add: check_or_insert_def Let_def)

lemma entry_step_frame:
  "hm_wf (ic_entries c) \<Longrightarrow> hm_wf (ic_entries (snd (entry_step c k full t2 t3)))"
  "ic_ttl (snd (entry_step c k full t2 t3)) = ic_ttl c"
  "ic_max_entries (snd (entry_step c k full t2 t3)) = ic_max_entries c"
  "k' \<noteq> k \<or> fst (entry_step c k full t2 t3) \<noteq> New \<Longrightarrow>
     hm_get (ic_entries (snd (entry_step c k full t2 t3))) k' = hm_get (ic_entries c) k'"
  by (cases rule: entry_step_cases [of c k full t2 t3]; auto simp: hmap_simps)+

lemma entry_step_new_entry:
  "fst (entry_step c k full t2 t3) = New \<Longrightarrow>
     hm_get (ic_entries (snd (entry_step c k full t2 t3))) k = Some (fresh_entry t3)"
  by (cases rule: entry_step_cases [of c k full t2 t3]) (auto simp: hmap_simps)

lemma entry_step_fresh:
  "hm_get (ic_entries c) k = Some e \<Longrightarrow> t2 - ce_created_at e \<le> ic_ttl c \<Longrightarrow>
     fst (entry_step c k full t2 t3) =
       (case cache_slot c k of SDone r \<Rightarrow> Cached r | _ \<Rightarrow> InFlight)"
  by (cases rule: entry_step_cases [of c k full t2 t3]) (auto simp: cache_slot_def split: option.splits)

interpretation ac: admission_cache check_or_insert cache_complete cache_slot cache_born ic_ttl cache_inv
proof unfold_locales
  fix c k k' t1 t2 t3 r
  let ?c1 = "purge_expired c t1"
  show "cache_inv c \<Longrightarrow> cache_inv (snd (check_or_insert c k t1 t2 t3))"
    by (simp add: cache_inv_def check_or_insert_def' entry_step_frame)
  show "ic_ttl (snd (check_or_insert c k t1 t2 t3)) = ic_ttl c"
    by (simp add: check_or_insert_def' entry_step_frame)
  show "cache_slot (snd (check_or_insert c k t1 t2 t3)) k = SInFlight \<and>
        cache_born (snd (check_or_insert c k t1 t2 t3)) k = t3"
    if "fst (check_or_insert c k t1 t2 t3) = New"
    using entry_step_new_entry [OF that [unfolded check_or_insert_def']]
    by (simp add: check_or_insert_def' cache_slot_def cache_born_def fresh_entry_def)
  show "cache_slot c k = SAbsent \<or> cache_born c k + ic_ttl c \<le> t2"
    if "cache_inv c" "t1 \<le> t2" "fst (check_or_insert c k t1 t2 t3) = New"
    using that purge_get [of c t1 k]
    by (cases rule: entry_step_cases [of ?c1 k "at_capacity ?c1" t2 t3])
      (auto simp: check_or_insert_def' cache_inv_def cache_slot_def cache_born_def
        split: option.splits if_splits)
  show "cache_slot (snd (check_or_insert c k t1 t2 t3)) k' = cache_slot c k' \<and>
        cache_born (snd (check_or_insert c k t1 t2 t3)) k' = cache_born c k'"
    if "cache_inv c" "cache_slot c k' \<noteq> SAbsent" "t1 < cache_born c k' + ic_ttl c"
      "k' \<noteq> k \<or> fst (check_or_insert c k t1 t2 t3) \<noteq> New"
  proof -
    from that have "hm_get (ic_entries ?c1) k' = hm_get (ic_entries c) k'"
      by (auto simp: purge_get cache_inv_def cache_slot_def cache_born_def split: option.splits)
    with entry_step_frame(4) [of k' k ?c1 "at_capacity ?c1" t2 t3] that(4)
    show ?thesis by (simp add: check_or_insert_def' cache_slot_def cache_born_def)
  qed
  show "fst (check_or_insert c k t1 t2 t3) = Cached r"
    if "cache_inv c" "cache_slot c k = SDone r" "t1 < cache_born c k + ic_ttl c"
      "t2 \<le> cache_born c k + ic_ttl c"
    using that purge_get [of c t1 k]
    by (auto simp: check_or_insert_def' cache_inv_def cache_slot_def cache_born_def entry_step_def
        split: option.splits if_splits)
  show "fst (check_or_insert c k t1 t2 t3) = InFlight"
    if "cache_inv c" "cache_slot c k = SInFlight" "t1 < cache_born c k + ic_ttl c"
      "t2 \<le> cache_born c k + ic_ttl c"
    using that purge_get [of c t1 k]
    by (auto simp: check_or_insert_def' cache_inv_def cache_slot_def cache_born_def entry_step_def
        split: option.splits if_splits)
  show "cache_inv c \<Longrightarrow> cache_inv (cache_complete c k r)"
    by (auto simp: cache_inv_def cache_complete_def split: option.splits)
  show "ic_ttl (cache_complete c k r) = ic_ttl c"
    by (auto simp: cache_complete_def split: option.splits)
  show "cache_slot (cache_complete c k r) k' =
      (if k' = k \<and> cache_slot c k \<noteq> SAbsent then SDone r else cache_slot c k')"
    by (auto simp: cache_complete_def cache_slot_def hmap_simps split: option.splits)
  show "cache_born (cache_complete c k r) k' = cache_born c k'"
    by (auto simp: cache_complete_def cache_born_def hmap_simps split: option.splits)
qed

section \<open>The size bound\<close>

lemma check_or_insert_bound:
  assumes "hm_wf (ic_entries c)" and "cache_len c \<le> ic_max_entries c"
  shows "cache_len (snd (check_or_insert c k t1 t2 t3)) \<le> ic_max_entries c"
proof -
  have "cache_len (purge_expired c t1) \<le> ic_max_entries c"
    using assms(2) hm_len_retain [of _ "ic_entries c"]
    by (auto simp: cache_len_def purge_expired_def intro: le_trans)
  then show ?thesis
    by (cases rule: entry_step_cases [of "purge_expired c t1" k "at_capacity (purge_expired c t1)" t2 t3])
      (auto simp: check_or_insert_def' cache_len_def hmap_simps at_capacity_def)
qed

lemma cache_complete_len: "cache_len (cache_complete c k r) = cache_len c"
  by (auto simp: cache_complete_def cache_len_def hmap_simps split: option.splits)

end
