(* ===== verification/Server.thy ===== *)
theory Server
  imports Pipeline Manifest Idempotency
begin

text \<open>
  \<open>safa-daemon/src/server.rs\<close>: the daemon's state and its handlers, each a function from the
  state and a request to a response and the new state. A handler runs here without others in
  between; \<open>Slime_Concurrent\<close> and \<open>Idempotency_Concurrent\<close> treat the two shared structures
  under interleaving. \<open>serde_json\<close>, \<open>uuid\<close> and the host are the record \<open>world\<close>; the instants
  and identifiers a request reads are the record \<open>reading\<close>. Arithmetic on counters wraps, as
  in a release build.
\<close>

record world =
  w_host :: host
  w_print :: "json \<Rightarrow> string"
  w_parse_request :: "bytes \<Rightarrow> string + action_request"
  w_uuid_parse :: "string \<Rightarrow> uuid option"
  w_uuid_version :: "uuid \<Rightarrow> nat"
  w_uuid_show :: "uuid \<Rightarrow> string"
  w_first_key :: "string list \<Rightarrow> string"
  w_pkg_version :: string

record reading =
  rd_epoch_secs :: u64
  rd_now :: instant
  rd_t1 :: instant
  rd_t2 :: instant
  rd_t3 :: instant
  rd_action_id :: string
  rd_duration_ms :: nat
  rd_audit_epoch_secs :: u64
  rd_proof_epoch_secs :: u64

record rate_limit_state =
  rl_window_start :: instant
  rl_count :: u64
  rl_max_per_window :: u64
  rl_window_secs :: u64

record app_state =
  st_config :: ama_config
  st_agent_registry :: agent_registry
  st_cache :: idem_cache
  st_session_id :: string
  st_start_time :: instant
  st_domain_counters :: "(string, u64) hmap"
  st_rate_limiters :: "(string, rate_limit_state) hmap"
  st_proof_store :: proof_store
  st_fs :: fs_state

text \<open>A header is missing, present but not visible ASCII, or a text.\<close>

type_synonym header = "string option option"

record http_req =
  hq_method :: string
  hq_content_type :: header
  hq_agent_id :: header
  hq_timestamp :: header
  hq_signature :: header
  hq_idempotency_key :: header
  hq_body :: bytes

record response =
  re_status :: nat
  re_headers :: "(string \<times> string) list"
  re_body :: string

definition nanos_per_sec :: nat where
  "nanos_per_sec = 1000000000"

section \<open>Responses\<close>

definition json_response :: "world \<Rightarrow> nat \<Rightarrow> json \<Rightarrow> response" where
  "json_response W status body =
     \<lparr>re_status = status, re_headers = [(''content-type'', ''application/json'')], re_body = w_print W body\<rparr>"

definition ama_error_response :: "world \<Rightarrow> ama_error \<Rightarrow> response" where
  "ama_error_response W e =
     (let (status, body) = http_status_and_body e in json_response W status body)"

definition action_response_json :: "action_response \<Rightarrow> json" where
  "action_response_json r =
     JObj ([(''status'', JStr (rs_status r)), (''action_id'', JStr (rs_action_id r)),
            (''dry_run'', JBool (rs_dry_run r))] @
           (case rs_result r of Some v \<Rightarrow> [(''result'', v)] | None \<Rightarrow> []))"

text \<open>What an error is cached as; not the body it is answered with, for some errors.\<close>

definition cached_error_json :: "ama_error \<Rightarrow> json" where
  "cached_error_json e =
     (case e of
        Impossible \<Rightarrow> JObj [(''status'', JStr ''impossible'')]
      | BadRequest m \<Rightarrow> error_body ''bad_request'' m
      | Validation c m \<Rightarrow> error_body c m
      | ServiceUnavailable m \<Rightarrow> error_body ''service_unavailable'' m
      | other \<Rightarrow> JObj [(''status'', JStr ''error''), (''message'', JStr (ama_error_display other))])"

section \<open>The state at boot\<close>

definition new_limiter :: "instant \<Rightarrow> agent_config \<Rightarrow> rate_limit_state" where
  "new_limiter now ac =
     \<lparr>rl_window_start = now, rl_count = 0, rl_max_per_window = ac_rate_limit_per_window ac,
      rl_window_secs = ac_rate_limit_window_secs ac\<rparr>"

definition app_state_new ::
  "ama_config \<Rightarrow> (string \<Rightarrow> string) \<Rightarrow> string \<Rightarrow> instant \<Rightarrow> fs_state \<Rightarrow> app_state" where
  "app_state_new cfg authorizer_session session now s =
     (let agents = map snd (cf_agents cfg)
      in \<lparr>st_config = cfg,
          st_agent_registry = registry_new authorizer_session agents,
          st_cache = cache_new 10000 (300 * nanos_per_sec),
          st_session_id = session,
          st_start_time = now,
          st_domain_counters =
            foldl (\<lambda>m d. hm_or_insert d 0 m) [] (concat (map (\<lambda>a. hm_keys (ac_domain_policies a)) agents)),
          st_rate_limiters = hm_collect (map (\<lambda>(aid, ac). (aid, new_limiter now ac)) (cf_agents cfg)),
          st_proof_store = proof_store_new 10000,
          st_fs = s\<rparr>)"

section \<open>Guards\<close>

definition content_type_ok :: "http_req \<Rightarrow> bool" where
  "content_type_ok q \<longleftrightarrow>
     hq_method q = ''POST'' \<longrightarrow>
       starts_with (case hq_content_type q of Some (Some v) \<Rightarrow> v | _ \<Rightarrow> []) ''application/json''"

definition resolve_agent_id :: "app_state \<Rightarrow> http_req \<Rightarrow> ama_error + string" where
  "resolve_agent_id st q =
     (case hq_agent_id q of
        Some v \<Rightarrow>
          rbind (ok_or v (BadRequest ''X-Agent-Id header is not valid ASCII'')) (\<lambda>agent_id.
            if registry_get (st_agent_registry st) agent_id = None then
              Inl (BadRequest (''unknown agent: '' @ agent_id))
            else Inr agent_id)
      | None \<Rightarrow>
          ok_or (cf_default_agent_id (st_config st))
            (BadRequest ''X-Agent-Id header required (multiple agents configured)''))"

definition limiter_step :: "rate_limit_state \<Rightarrow> instant \<Rightarrow> bool \<times> rate_limit_state" where
  "limiter_step rl now =
     (let elapsed_secs = (now - rl_window_start rl) div nanos_per_sec in
      if unat (rl_window_secs rl) \<le> elapsed_secs then
        (True, rl\<lparr>rl_window_start := now, rl_count := 1\<rparr>)
      else
        (let count = rl_count rl + 1
         in (count \<le> rl_max_per_window rl, rl\<lparr>rl_count := count\<rparr>)))"

definition check_rate_limit :: "app_state \<Rightarrow> string \<Rightarrow> instant \<Rightarrow> bool \<times> app_state" where
  "check_rate_limit st agent_id now =
     (case hm_get (st_rate_limiters st) agent_id of
        None \<Rightarrow> (False, st)
      | Some rl \<Rightarrow>
          (let (ok, rl') = limiter_step rl now
           in (ok, st\<lparr>st_rate_limiters := hm_insert agent_id rl' (st_rate_limiters st)\<rparr>)))"

definition increment_domain_counter :: "app_state \<Rightarrow> string \<Rightarrow> app_state" where
  "increment_domain_counter st d =
     (case hm_get (st_domain_counters st) d of
        Some n \<Rightarrow> st\<lparr>st_domain_counters := hm_insert d (n + 1) (st_domain_counters st)\<rparr>
      | None \<Rightarrow> st)"

text \<open>A header read with \<open>and_then(|v| v.to_str().ok())\<close>.\<close>

definition header_text :: "header \<Rightarrow> string option" where
  "header_text h = (case h of Some (Some v) \<Rightarrow> Some v | _ \<Rightarrow> None)"

definition check_identity :: "world \<Rightarrow> app_state \<Rightarrow> string \<Rightarrow> http_req \<Rightarrow> u64 \<Rightarrow> identity_error + unit" where
  "check_identity W st agent_id q now_secs =
     (case hm_get (cf_agents (st_config st)) agent_id of
        Some ac \<Rightarrow>
          (case ac_secret ac of
             Some secret \<Rightarrow>
               verify_identity (ho_crypto (w_host W)) secret agent_id
                 (header_text (hq_timestamp q)) (header_text (hq_signature q)) (hq_body q) now_secs
           | None \<Rightarrow> Inr ())
      | None \<Rightarrow> Inr ())"

definition idempotency_key :: "world \<Rightarrow> http_req \<Rightarrow> ama_error + uuid" where
  "idempotency_key W q =
     (case hq_idempotency_key q of
        None \<Rightarrow> Inl (BadRequest ''missing Idempotency-Key header'')
      | Some None \<Rightarrow> Inl (BadRequest ''Idempotency-Key header is not valid ASCII'')
      | Some (Some s) \<Rightarrow> validate_idempotency_key (w_uuid_parse W) (w_uuid_version W) s)"

section \<open>Read-only endpoints\<close>

definition handle_health :: "world \<Rightarrow> response" where
  "handle_health W = json_response W 200 (JObj [(''status'', JStr ''ok'')])"

definition handle_version :: "world \<Rightarrow> response" where
  "handle_version W =
     json_response W 200
       (JObj [(''name'', JStr ''safa''), (''version'', JStr (w_pkg_version W)),
              (''schema_version'', JStr ''ama-action-v1'')])"

definition agent_status :: "p0_authorizer \<Rightarrow> json" where
  "agent_status a =
     JObj [(''capacity_used'', JNum (uint (capacity_used a))),
           (''capacity_max'', JNum (uint (capacity_max a))),
           (''capacity_remaining'', JNum (uint (saturating_sub (capacity_max a) (capacity_used a))))]"

definition status_json :: "app_state \<Rightarrow> instant \<Rightarrow> json" where
  "status_json st now =
     JObj [(''session_id'', JStr (st_session_id st)),
           (''uptime_seconds'', JNum (int ((now - st_start_time st) div nanos_per_sec))),
           (''agents'', JObj (concat (map (\<lambda>aid.
              case registry_get (st_agent_registry st) aid of
                Some a \<Rightarrow> [(aid, agent_status a)] | None \<Rightarrow> [])
              (registry_agent_ids (st_agent_registry st))))),
           (''domains'', JObj (map (\<lambda>(d, policy).
              (d, JObj [(''enabled'', JBool (dp_enabled policy)),
                        (''actions_count'', JNum (uint (unwrap_or 0 (hm_get (st_domain_counters st) d))))]))
              (cf_domain_policies (st_config st))))]"

definition handle_status :: "world \<Rightarrow> app_state \<Rightarrow> instant \<Rightarrow> response" where
  "handle_status W st now = json_response W 200 (status_json st now)"

definition policy_hash_header :: "string" where
  "policy_hash_header = ''x-safa-policy-hash''"

definition handle_manifest :: "world \<Rightarrow> app_state \<Rightarrow> string \<Rightarrow> response" where
  "handle_manifest W st agent_id =
     (case hm_get (cf_agents (st_config st)) agent_id of
        Some ac \<Rightarrow>
          (let m = from_agent_config (ho_crypto (w_host W)) (w_print W) ac;
               r = json_response W 200 (manifest_json m)
           in r\<lparr>re_headers := (policy_hash_header, manifest_hash m) # re_headers r\<rparr>)
      | None \<Rightarrow>
          json_response W 404 (error_body ''unknown_agent'' (''no manifest for agent: '' @ agent_id)))"

definition proof_record_json :: "proof_record \<Rightarrow> json" where
  "proof_record_json r =
     JObj [(''request_id'', JStr (pr_request_id r)), (''agent_id'', JStr (pr_agent_id r)),
           (''action'', JStr (pr_action r)), (''verdict'', JStr (pr_verdict r)),
           (''manifest_hash'', JStr (pr_manifest_hash r)), (''timestamp'', JStr (pr_timestamp r))]"

definition handle_proof :: "world \<Rightarrow> app_state \<Rightarrow> string \<Rightarrow> response" where
  "handle_proof W st request_id =
     (case proof_get (st_proof_store st) request_id of
        Some record \<Rightarrow>
          (let r = json_response W 200 (proof_record_json record)
           in r\<lparr>re_headers := (policy_hash_header, pr_manifest_hash record) # re_headers r\<rparr>)
      | None \<Rightarrow>
          json_response W 404
            (error_body ''proof_not_found'' (''no proof record for request_id: '' @ request_id)))"

section \<open>Actions\<close>

definition policy_hash_of :: "world \<Rightarrow> app_state \<Rightarrow> string \<Rightarrow> string" where
  "policy_hash_of W st agent_id =
     (case hm_get (cf_agents (st_config st)) agent_id of
        Some ac \<Rightarrow> manifest_hash (from_agent_config (ho_crypto (w_host W)) (w_print W) ac)
      | None \<Rightarrow> [])"

definition proof_of ::
  "world \<Rightarrow> app_state \<Rightarrow> reading \<Rightarrow> string \<Rightarrow> action_request \<Rightarrow> outcome \<Rightarrow> proof_record" where
  "proof_of W st rd agent_id request oc =
     \<lparr>pr_request_id = rd_action_id rd, pr_agent_id = agent_id, pr_action = rq_action request,
      pr_verdict = (if is_ok (oc_result oc) then ''AUTHORIZED'' else ''IMPOSSIBLE''),
      pr_manifest_hash = policy_hash_of W st agent_id,
      pr_timestamp = show_u64 (rd_proof_epoch_secs rd)\<rparr>"

text \<open>Step 7: the proof record, the counters, the cached answer and the response.\<close>

definition finish_action ::
  "world \<Rightarrow> app_state \<Rightarrow> reading \<Rightarrow> string \<Rightarrow> uuid \<Rightarrow> action_request \<Rightarrow> outcome \<Rightarrow> response \<times> app_state" where
  "finish_action W st rd agent_id key request oc =
     (let hash = policy_hash_of W st agent_id;
          st1 = st\<lparr>st_proof_store := proof_insert (w_first_key W) (st_proof_store st)
                      (proof_of W st rd agent_id request oc)\<rparr>
      in case oc_result oc of
           Inr resp \<Rightarrow>
             (let body = w_print W (action_response_json resp);
                  st2 = (case map_action (rq_action request) (rq_magnitude request) (st_config st) of
                           Inr mapping \<Rightarrow> increment_domain_counter st1 (md_domain_id mapping)
                         | Inl e \<Rightarrow> st1);
                  st3 = st2\<lparr>st_cache := cache_complete (st_cache st2) key body\<rparr>
              in (\<lparr>re_status = 200,
                   re_headers = (''content-type'', ''application/json'')
                     # (if hash \<noteq> [] then [(policy_hash_header, hash)] else []),
                   re_body = body\<rparr>, st3))
         | Inl e \<Rightarrow>
             (ama_error_response W e,
              st1\<lparr>st_cache := cache_complete (st_cache st1) key (w_print W (cached_error_json e))\<rparr>))"

text \<open>Steps 5 and 6, for the request that owns its key.\<close>

definition run_owned ::
  "world \<Rightarrow> app_state \<Rightarrow> reading \<Rightarrow> string \<Rightarrow> uuid \<Rightarrow> bytes \<Rightarrow> response \<times> app_state \<times> effect list \<times> audit_entry list" where
  "run_owned W st rd agent_id key body =
     (case w_parse_request W body of
        Inl e \<Rightarrow>
          (let v = error_body ''bad_request'' (''invalid JSON: '' @ e)
           in (json_response W 400 v,
               st\<lparr>st_cache := cache_complete (st_cache st) key (w_print W v)\<rparr>, [], []))
      | Inr request \<Rightarrow>
          (case registry_get (st_agent_registry st) agent_id of
             None \<Rightarrow>
               (ama_error_response W (BadRequest (''unknown agent: '' @ agent_id)),
                st\<lparr>st_cache := cache_remove (st_cache st) key\<rparr>, [], [])
           | Some authorizer \<Rightarrow>
               (let cx = \<lparr>cx_action_id = rd_action_id rd, cx_session_id = st_session_id st,
                          cx_agent_id = Some agent_id, cx_timestamp = chrono_now (rd_audit_epoch_secs rd),
                          cx_duration_ms = rd_duration_ms rd\<rparr>;
                    oc = process_action (w_host W) (st_fs st) authorizer request (st_config st) cx;
                    st1 = st\<lparr>st_agent_registry := hm_insert agent_id (oc_auth oc) (st_agent_registry st),
                             st_fs := oc_fs oc\<rparr>;
                    (resp, st2) = finish_action W st1 rd agent_id key request oc
                in (resp, st2, oc_effects oc, oc_audit oc))))"

text \<open>The message has an em dash, three bytes of UTF-8.\<close>

definition full_message :: string where
  "full_message =
     ''idempotency cache full '' @ [CHR 0xE2, CHR 0x80, CHR 0x94] @ '' fail-closed''"

definition handle_action ::
  "world \<Rightarrow> reading \<Rightarrow> app_state \<Rightarrow> http_req \<Rightarrow> response \<times> app_state \<times> effect list \<times> audit_entry list" where
  "handle_action W rd st q =
     (case resolve_agent_id st q of
        Inl e \<Rightarrow> (ama_error_response W e, st, [], [])
      | Inr agent_id \<Rightarrow>
          (case check_identity W st agent_id q (rd_epoch_secs rd) of
             Inl e \<Rightarrow>
               (json_response W 403
                  (error_body ''identity_verification_failed'' (identity_error_display e)), st, [], [])
           | Inr u \<Rightarrow>
               (let (allowed, st1) = check_rate_limit st agent_id (rd_now rd) in
                if \<not> allowed then
                  (json_response W 429 (error_body ''rate_limited'' ''rate limit exceeded''), st1, [], [])
                else
                  (case idempotency_key W q of
                     Inl e \<Rightarrow> (ama_error_response W e, st1, [], [])
                   | Inr key \<Rightarrow>
                       (let (status, cache) =
                              check_or_insert (st_cache st1) key (rd_t1 rd) (rd_t2 rd) (rd_t3 rd);
                            st2 = st1\<lparr>st_cache := cache\<rparr>
                        in case status of
                             Cached body \<Rightarrow>
                               (\<lparr>re_status = 200, re_headers = [(''content-type'', ''application/json'')],
                                 re_body = body\<rparr>, st2, [], [])
                           | InFlight \<Rightarrow>
                               (ama_error_response W
                                  (Conflict ''duplicate Idempotency-Key with in-flight request''), st2, [], [])
                           | Full \<Rightarrow>
                               (json_response W 503
                                  (error_body ''service_unavailable'' full_message),
                                st2\<lparr>st_cache := cache_remove (st_cache st2) key\<rparr>, [], [])
                           | New \<Rightarrow> run_owned W st2 rd agent_id key (hq_body q))))))"

section \<open>Middleware\<close>

text \<open>
  The layers around the action route, outermost first: the content type check, then the body
  limit, whose 413 answer is \<open>tower_http\<close>'s (\<open>too_large\<close>). The 30 second deadline and the
  limit of 8 requests in flight are in \<open>Daemon_Concurrent\<close>.
\<close>

definition body_limit :: nat where
  "body_limit = 1048576"

definition max_concurrent_requests :: nat where
  "max_concurrent_requests = 8"

definition serve_action ::
  "world \<Rightarrow> response \<Rightarrow> reading \<Rightarrow> app_state \<Rightarrow> http_req
    \<Rightarrow> response \<times> app_state \<times> effect list \<times> audit_entry list" where
  "serve_action W too_large rd st q =
     (if \<not> content_type_ok q then (ama_error_response W UnsupportedMediaType, st, [], [])
      else if length (hq_body q) > body_limit then (too_large, st, [], [])
      else handle_action W rd st q)"

section \<open>What the handlers keep\<close>

definition registry_ok :: "agent_registry \<Rightarrow> bool" where
  "registry_ok r \<longleftrightarrow> hm_wf r \<and> (\<forall>aid a. registry_get r aid = Some a \<longrightarrow> capacity_ok a)"

definition app_inv :: "app_state \<Rightarrow> bool" where
  "app_inv st \<longleftrightarrow>
     registry_ok (st_agent_registry st) \<and>
     cache_inv (st_cache st) \<and> cache_len (st_cache st) \<le> ic_max_entries (st_cache st) \<and>
     ic_max_entries (st_cache st) = 10000 \<and>
     proof_store_inv (st_proof_store st) \<and> ps_max_entries (st_proof_store st) = 10000"

lemma registry_ok_insert: "registry_ok r \<Longrightarrow> capacity_ok a \<Longrightarrow> registry_ok (hm_insert aid a r)"
  by (auto simp: registry_ok_def registry_get_def hmap_simps)

lemma registry_new_ok: "registry_ok (registry_new session configs)"
proof -
  have "\<forall>aid a. registry_get (registry_new session configs) aid = Some a \<longrightarrow> capacity_ok a"
    by (auto simp: registry_new_def registry_get_def hm_get_collect_last capacity_ok_new
        dest!: map_of_SomeD)
  then show ?thesis by (simp add: registry_ok_def) (simp add: registry_new_def)
qed

lemma app_inv_new: "app_inv (app_state_new cfg asess session now s)"
  by (simp add: app_inv_def app_state_new_def Let_def registry_new_ok cache_inv_def cache_new_def
      cache_len_def hm_len_def nanos_per_sec_def proof_store_inv_new)
    (simp add: proof_store_new_def)

lemma process_action_capacity_ok: "capacity_ok a \<Longrightarrow> capacity_ok (oc_auth (process_action H s a rq cfg cx))"
  by (cases rule: process_action_cases [of H s rq cfg cx a])
    (simp_all add: refused_def p0.reserve_inv)

text \<open>The parts of the state the steps of a call leave alone.\<close>

lemma increment_domain_counter_simps [simp]:
  "st_agent_registry (increment_domain_counter st d) = st_agent_registry st"
  "st_cache (increment_domain_counter st d) = st_cache st"
  "st_proof_store (increment_domain_counter st d) = st_proof_store st"
  "st_fs (increment_domain_counter st d) = st_fs st"
  "st_config (increment_domain_counter st d) = st_config st"
  "st_rate_limiters (increment_domain_counter st d) = st_rate_limiters st"
  by (simp_all add: increment_domain_counter_def split: option.splits)

lemma check_rate_limit_simps [simp]:
  "st_agent_registry (snd (check_rate_limit st aid now)) = st_agent_registry st"
  "st_cache (snd (check_rate_limit st aid now)) = st_cache st"
  "st_proof_store (snd (check_rate_limit st aid now)) = st_proof_store st"
  "st_fs (snd (check_rate_limit st aid now)) = st_fs st"
  "st_config (snd (check_rate_limit st aid now)) = st_config st"
  "st_domain_counters (snd (check_rate_limit st aid now)) = st_domain_counters st"
  by (simp_all add: check_rate_limit_def split: option.splits prod.splits)

text \<open>What finishing a call does to each part.\<close>

lemma finish_action_simps [simp]:
  "st_agent_registry (snd (finish_action W st rd aid key rq oc)) = st_agent_registry st"
  "st_fs (snd (finish_action W st rd aid key rq oc)) = st_fs st"
  "st_config (snd (finish_action W st rd aid key rq oc)) = st_config st"
  "st_rate_limiters (snd (finish_action W st rd aid key rq oc)) = st_rate_limiters st"
  "st_proof_store (snd (finish_action W st rd aid key rq oc)) =
     proof_insert (w_first_key W) (st_proof_store st) (proof_of W st rd aid rq oc)"
  by (simp_all add: finish_action_def Let_def split: sum.splits)

definition cached_body :: "world \<Rightarrow> outcome \<Rightarrow> string" where
  "cached_body W oc =
     (case oc_result oc of
        Inr resp \<Rightarrow> w_print W (action_response_json resp)
      | Inl e \<Rightarrow> w_print W (cached_error_json e))"

lemma finish_action_cache [simp]:
  "st_cache (snd (finish_action W st rd aid key rq oc)) = cache_complete (st_cache st) key (cached_body W oc)"
  by (simp add: finish_action_def cached_body_def Let_def split: sum.splits)

lemma run_owned_cases:
  obtains (bad_json) e where "w_parse_request W body = Inl e"
      "run_owned W st rd aid key body =
         (json_response W 400 (error_body ''bad_request'' (''invalid JSON: '' @ e)),
          st\<lparr>st_cache := cache_complete (st_cache st) key
               (w_print W (error_body ''bad_request'' (''invalid JSON: '' @ e)))\<rparr>, [], [])"
  | (no_agent) rq where "w_parse_request W body = Inr rq" "registry_get (st_agent_registry st) aid = None"
      "run_owned W st rd aid key body =
         (ama_error_response W (BadRequest (''unknown agent: '' @ aid)),
          st\<lparr>st_cache := cache_remove (st_cache st) key\<rparr>, [], [])"
  | (ran) rq a cx st1 where "w_parse_request W body = Inr rq"
      "registry_get (st_agent_registry st) aid = Some a"
      "cx = \<lparr>cx_action_id = rd_action_id rd, cx_session_id = st_session_id st, cx_agent_id = Some aid,
             cx_timestamp = chrono_now (rd_audit_epoch_secs rd), cx_duration_ms = rd_duration_ms rd\<rparr>"
      "st1 = st\<lparr>st_agent_registry := hm_insert aid
                    (oc_auth (process_action (w_host W) (st_fs st) a rq (st_config st) cx)) (st_agent_registry st),
                st_fs := oc_fs (process_action (w_host W) (st_fs st) a rq (st_config st) cx)\<rparr>"
      "run_owned W st rd aid key body =
         (fst (finish_action W st1 rd aid key rq (process_action (w_host W) (st_fs st) a rq (st_config st) cx)),
          snd (finish_action W st1 rd aid key rq (process_action (w_host W) (st_fs st) a rq (st_config st) cx)),
          oc_effects (process_action (w_host W) (st_fs st) a rq (st_config st) cx),
          oc_audit (process_action (w_host W) (st_fs st) a rq (st_config st) cx))"
proof (cases "w_parse_request W body")
  case (Inl e)
  then show ?thesis by (intro bad_json) (simp_all add: run_owned_def Let_def)
next
  case (Inr rq)
  show ?thesis
  proof (cases "registry_get (st_agent_registry st) aid")
    case None
    with Inr show ?thesis by (intro no_agent) (simp_all add: run_owned_def)
  next
    case (Some a)
    show ?thesis
      by (rule ran [OF Inr Some refl refl]) (simp add: run_owned_def Inr Some Let_def split_beta)
  qed
qed

text \<open>How far a call gets: stopped by a guard, answered from the cache, or run.\<close>

lemma error_response_not_200: "re_status (ama_error_response W e) \<noteq> 200"
  using http_status_range [of e]
  by (auto simp: ama_error_response_def json_response_def http_status_def split: prod.splits)

lemma handle_action_cases:
  obtains (stopped) resp st' where "handle_action W rd st q = (resp, st', [], [])"
      "st' = st \<or> (\<exists>aid. st' = snd (check_rate_limit st aid (rd_now rd)) \<and> resolve_agent_id st q = Inr aid \<and>
                     check_identity W st aid q (rd_epoch_secs rd) = Inr ())"
      "re_status resp \<noteq> 200"
  | (checked) aid key st1 status cache where "resolve_agent_id st q = Inr aid"
      "check_identity W st aid q (rd_epoch_secs rd) = Inr ()"
      "check_rate_limit st aid (rd_now rd) = (True, st1)" "idempotency_key W q = Inr key"
      "check_or_insert (st_cache st) key (rd_t1 rd) (rd_t2 rd) (rd_t3 rd) = (status, cache)"
      "handle_action W rd st q =
         (case status of
            Cached body \<Rightarrow>
              (\<lparr>re_status = 200, re_headers = [(''content-type'', ''application/json'')], re_body = body\<rparr>,
               st1\<lparr>st_cache := cache\<rparr>, [], [])
          | InFlight \<Rightarrow>
              (ama_error_response W (Conflict ''duplicate Idempotency-Key with in-flight request''),
               st1\<lparr>st_cache := cache\<rparr>, [], [])
          | Full \<Rightarrow>
              (json_response W 503 (error_body ''service_unavailable'' full_message),
               st1\<lparr>st_cache := cache_remove cache key\<rparr>, [], [])
          | New \<Rightarrow> run_owned W (st1\<lparr>st_cache := cache\<rparr>) rd aid key (hq_body q))"
proof (cases "resolve_agent_id st q")
  case (Inl e)
  from Inl have "handle_action W rd st q = (ama_error_response W e, st, [], [])"
    by (simp add: handle_action_def)
  then show ?thesis using stopped error_response_not_200 by blast
next
  case aid: (Inr aid)
  show ?thesis
  proof (cases "check_identity W st aid q (rd_epoch_secs rd)")
    case (Inl e)
    with aid have "handle_action W rd st q = (json_response W 403
        (error_body ''identity_verification_failed'' (identity_error_display e)), st, [], [])"
      by (simp add: handle_action_def)
    then show ?thesis by (rule stopped) (simp_all add: json_response_def)
  next
    case ident: (Inr u)
    obtain ok st1 where rate: "check_rate_limit st aid (rd_now rd) = (ok, st1)" by fastforce
    have st1: "st1 = snd (check_rate_limit st aid (rd_now rd))" by (simp add: rate)
    show ?thesis
    proof (cases ok)
      case False
      with aid ident rate have "handle_action W rd st q =
          (json_response W 429 (error_body ''rate_limited'' ''rate limit exceeded''), st1, [], [])"
        by (simp add: handle_action_def)
      then show ?thesis
        by (rule stopped) (use st1 aid ident in \<open>auto simp: json_response_def\<close>)
    next
      case True
      show ?thesis
      proof (cases "idempotency_key W q")
        case (Inl e)
        from aid ident rate True Inl
        have hd: "handle_action W rd st q = (ama_error_response W e, st1, [], [])"
          by (simp add: handle_action_def)
        show ?thesis by (rule stopped [OF hd]) (use st1 aid ident error_response_not_200 in auto)
      next
        case (Inr key)
        obtain status cache where ci:
          "check_or_insert (st_cache st1) key (rd_t1 rd) (rd_t2 rd) (rd_t3 rd) = (status, cache)"
          by fastforce
        have same: "st_cache st1 = st_cache st" by (simp add: st1)
        show ?thesis
          by (rule checked [of aid st1 key status cache])
            (use aid ident rate True Inr ci same in \<open>cases status; simp add: handle_action_def Let_def\<close>)+
      qed
    qed
  qed
qed

section \<open>Invariants of the running daemon\<close>

lemma check_or_insert_limits:
  "ic_max_entries (snd (check_or_insert c k t1 t2 t3)) = ic_max_entries c"
  by (simp add: check_or_insert_def' entry_step_frame)

lemma cache_complete_max: "ic_max_entries (cache_complete c k r) = ic_max_entries c"
  by (simp add: cache_complete_def split: option.splits)

lemma cache_remove_inv: "cache_inv c \<Longrightarrow> cache_inv (cache_remove c k)"
  by (simp add: cache_inv_def cache_remove_def)

text \<open>The cache part of the invariant, and that every operation keeps it.\<close>

definition cache_ok :: "idem_cache \<Rightarrow> bool" where
  "cache_ok c \<longleftrightarrow> cache_inv c \<and> cache_len c \<le> ic_max_entries c \<and> ic_max_entries c = 10000"

lemma cache_ok_check:
  assumes "cache_ok c" and "check_or_insert c k t1 t2 t3 = (status, c')"
  shows "cache_ok c'"
proof -
  have c': "c' = snd (check_or_insert c k t1 t2 t3)" by (simp add: assms(2))
  from assms(1) show ?thesis
    using check_or_insert_bound [of c k t1 t2 t3] ac.submit_inv [of c k t1 t2 t3]
      check_or_insert_limits [of c k t1 t2 t3]
    unfolding c' by (simp add: cache_ok_def cache_inv_def)
qed

lemma cache_ok_complete: "cache_ok c \<Longrightarrow> cache_ok (cache_complete c k r)"
  using ac.complete_inv [of c k r] by (simp add: cache_ok_def cache_complete_len cache_complete_max)

lemma cache_ok_remove: "cache_ok c \<Longrightarrow> cache_ok (cache_remove c k)"
proof -
  assume ok: "cache_ok c"
  then have "cache_len (cache_remove c k) \<le> cache_len c"
    by (auto simp: cache_ok_def cache_inv_def cache_remove_def cache_len_def hmap_simps)
  with ok cache_remove_inv [of c k] show ?thesis by (simp add: cache_ok_def cache_remove_def)
qed

lemma app_inv_alt:
  "app_inv st \<longleftrightarrow> registry_ok (st_agent_registry st) \<and> cache_ok (st_cache st) \<and>
     proof_store_inv (st_proof_store st) \<and> ps_max_entries (st_proof_store st) = 10000"
  by (auto simp: app_inv_def cache_ok_def)

lemma run_owned_inv:
  assumes "app_inv st" and "picks (w_first_key W)"
    and "run_owned W st rd aid key body = (resp, st', effs, log)"
  shows "app_inv st'"
proof (cases rule: run_owned_cases [of W body st rd aid key])
  case (bad_json e)
  with assms show ?thesis by (auto simp: app_inv_alt cache_ok_complete)
next
  case (no_agent rq)
  with assms show ?thesis by (auto simp: app_inv_alt cache_ok_remove)
next
  case (ran rq a cx st1)
  let ?oc = "process_action (w_host W) (st_fs st) a rq (st_config st) cx"
  from assms(3) ran have st': "st' = snd (finish_action W st1 rd aid key rq ?oc)" by simp
  from assms(1) ran(2) have a: "capacity_ok a" by (auto simp: app_inv_alt registry_ok_def)
  show ?thesis
    unfolding app_inv_alt st' using assms(1,2) ran(4)
    by (simp add: app_inv_alt cache_ok_complete registry_ok_insert process_action_capacity_ok [OF a]
        proof_insert_inv)
qed

lemma handle_action_inv:
  assumes "app_inv st" and "picks (w_first_key W)"
    and "handle_action W rd st q = (resp, st', effs, log)"
  shows "app_inv st'"
proof (cases rule: handle_action_cases [of W rd st q])
  case (stopped resp' st'')
  with assms have "st' = st''" by simp
  with stopped(2) assms(1) show ?thesis by (auto simp: app_inv_alt)
next
  case (checked aid key st1 status cache)
  have st1: "st1 = snd (check_rate_limit st aid (rd_now rd))" by (simp add: checked(3))
  from assms(1) cache_ok_check [OF _ checked(5)] have ok: "cache_ok cache" by (simp add: app_inv_alt)
  with assms(1) have inv: "app_inv (st1\<lparr>st_cache := cache\<rparr>)" by (simp add: app_inv_alt st1)
  show ?thesis
  proof (cases status)
    case New
    with checked(6) assms(3) have "run_owned W (st1\<lparr>st_cache := cache\<rparr>) rd aid key (hq_body q) = (resp, st', effs, log)"
      by simp
    from run_owned_inv [OF inv assms(2) this] show ?thesis .
  next
    case Full
    with checked(6) assms(3) have "st' = st1\<lparr>st_cache := cache_remove cache key\<rparr>" by simp
    with inv cache_ok_remove [of cache key] show ?thesis by (simp add: app_inv_alt)
  qed (use checked(6) assms(3) inv in auto)
qed

text \<open>The states the daemon reaches by serving action requests, one after another.\<close>

inductive serves :: "world \<Rightarrow> app_state \<Rightarrow> app_state \<Rightarrow> bool" for W st0 where
  booted: "serves W st0 st0"
| served: "serves W st0 st \<Longrightarrow> serve_action W too_large rd st q = (resp, st', effs, log) \<Longrightarrow> serves W st0 st'"

lemma serves_inv: "serves W st0 st \<Longrightarrow> app_inv st0 \<Longrightarrow> picks (w_first_key W) \<Longrightarrow> app_inv st"
proof (induction rule: serves.induct)
  case (served st too_large rd q resp st' effs log)
  then show ?case
    using handle_action_inv [of st W rd q resp st' effs log]
    by (auto simp: serve_action_def split: if_splits)
qed

section \<open>Rate limits\<close>

fun limiter_run :: "rate_limit_state \<Rightarrow> instant list \<Rightarrow> bool list" where
  "limiter_run rl [] = []"
| "limiter_run rl (t # ts) = (let (ok, rl') = limiter_step rl t in ok # limiter_run rl' ts)"

definition accepted :: "bool list \<Rightarrow> nat" where
  "accepted oks = length (filter id oks)"

text \<open>The instants still inside the limiter's window.\<close>

definition in_window :: "rate_limit_state \<Rightarrow> instant \<Rightarrow> bool" where
  "in_window rl t \<longleftrightarrow> (t - rl_window_start rl) div nanos_per_sec < unat (rl_window_secs rl)"

lemma in_window_bound: "in_window rl t \<longleftrightarrow> t - rl_window_start rl < unat (rl_window_secs rl) * nanos_per_sec"
  by (simp add: in_window_def nanos_per_sec_def div_less_iff_less_mult)

lemma limiter_step_in:
  "in_window rl t \<Longrightarrow> limiter_step rl t =
     (rl_count rl + 1 \<le> rl_max_per_window rl, rl\<lparr>rl_count := rl_count rl + 1\<rparr>)"
  by (simp add: limiter_step_def in_window_def Let_def)

lemma limiter_step_out:
  "\<not> in_window rl t \<Longrightarrow> limiter_step rl t = (True, rl\<lparr>rl_window_start := t, rl_count := 1\<rparr>)"
  by (simp add: limiter_step_def in_window_def Let_def)

lemma unat_count_Suc: "unat (c :: u64) + 1 < 2 ^ 64 \<Longrightarrow> unat (c + 1) = unat c + 1"
  by (simp add: unat_word_ariths)

lemma in_window_count [simp]: "in_window (rl\<lparr>rl_count := c\<rparr>) t = in_window rl t"
  by (simp add: in_window_def)

text \<open>While the window lasts, only what is left of the quota is accepted.\<close>

lemma accepted_in_window:
  "\<forall>t \<in> set ts. in_window rl t \<Longrightarrow> unat (rl_count rl) + length ts < 2 ^ 64 \<Longrightarrow>
     accepted (limiter_run rl ts) \<le> unat (rl_max_per_window rl) - unat (rl_count rl)"
proof (induction ts arbitrary: rl)
  case (Cons t ts)
  let ?rl = "rl\<lparr>rl_count := rl_count rl + 1\<rparr>"
  from Cons.prems have step: "limiter_step rl t = (rl_count rl + 1 \<le> rl_max_per_window rl, ?rl)"
    by (simp add: limiter_step_in)
  from Cons.prems have n: "unat (rl_count rl + 1) = unat (rl_count rl) + 1"
    by (intro unat_count_Suc) simp
  with Cons.prems have "accepted (limiter_run ?rl ts) \<le> unat (rl_max_per_window rl) - (unat (rl_count rl) + 1)"
    using Cons.IH [of ?rl] by simp
  with step n show ?case by (auto simp: accepted_def word_le_nat_alt)
qed (simp add: accepted_def)

text \<open>Over any stretch shorter than the window, at most one reset falls into it.\<close>

lemma accepted_stretch:
  assumes "\<forall>t \<in> set ts. T \<le> t \<and> t < T + unat (rl_window_secs rl) * nanos_per_sec"
    and "unat (rl_count rl) + length ts < 2 ^ 64" and "1 + length ts < 2 ^ 64"
    and "0 < rl_max_per_window rl"
  shows "accepted (limiter_run rl ts) \<le>
     (unat (rl_max_per_window rl) - unat (rl_count rl)) + unat (rl_max_per_window rl)"
  using assms
proof (induction ts arbitrary: rl)
  case (Cons t ts)
  have max: "1 \<le> unat (rl_max_per_window rl)"
    using Cons.prems(4) by (simp add: word_less_nat_alt)
  show ?case
  proof (cases "in_window rl t")
    case True
    let ?rl = "rl\<lparr>rl_count := rl_count rl + 1\<rparr>"
    have n: "unat (rl_count rl + 1) = unat (rl_count rl) + 1"
      using Cons.prems(2) by (intro unat_count_Suc) simp
    have "accepted (limiter_run ?rl ts) \<le>
        (unat (rl_max_per_window rl) - (unat (rl_count rl) + 1)) + unat (rl_max_per_window rl)"
      using Cons.IH [of ?rl] Cons.prems n by simp
    with limiter_step_in [OF True] n show ?thesis by (auto simp: accepted_def word_le_nat_alt)
  next
    case False
    let ?rl = "rl\<lparr>rl_window_start := t, rl_count := 1\<rparr>"
    have "\<forall>u \<in> set ts. in_window ?rl u"
      using Cons.prems(1) by (fastforce simp: in_window_bound)
    then have "accepted (limiter_run ?rl ts) \<le> unat (rl_max_per_window rl) - 1"
      using accepted_in_window [of ts ?rl] Cons.prems(3) by simp
    with limiter_step_out [OF False] max show ?thesis by (simp add: accepted_def)
  qed
qed (simp add: accepted_def)

section \<open>Owners and replays\<close>

text \<open>A call that does anything owned its key, and leaves the key answered.\<close>

lemma handle_action_owner:
  assumes "handle_action W rd st q = (resp, st', effs, log)" and "effs \<noteq> [] \<or> log \<noteq> []"
    and "idempotency_key W q = Inr key" and "cache_inv (st_cache st)"
  obtains b where "cache_inv (st_cache st')" and "cache_slot (st_cache st') key = SDone b"
    and "cache_born (st_cache st') key = rd_t3 rd" and "ic_ttl (st_cache st') = ic_ttl (st_cache st)"
    and "re_status resp = 200 \<Longrightarrow> b = re_body resp"
proof (cases rule: handle_action_cases [of W rd st q])
  case (stopped resp' st'')
  with assms(1,2) show ?thesis by simp
next
  case (checked aid key' st1 status cache)
  with assms(3) have key': "key' = key" by simp
  have new: "status = New"
    using checked(6) assms(1,2) by (cases status) auto
  note ci = checked(5) [unfolded key']
  have sub: "fst (check_or_insert (st_cache st) key (rd_t1 rd) (rd_t2 rd) (rd_t3 rd)) = New"
    using ci new by simp
  from ac.submit_new [OF assms(4) sub] ci
  have slot: "cache_slot cache key = SInFlight" "cache_born cache key = rd_t3 rd" by simp_all
  from ac.submit_inv [OF assms(4), of key "rd_t1 rd" "rd_t2 rd" "rd_t3 rd"]
    ac.submit_ttl [of "st_cache st" key "rd_t1 rd" "rd_t2 rd" "rd_t3 rd"] ci
  have inv: "cache_inv cache" "ic_ttl cache = ic_ttl (st_cache st)" by simp_all
  let ?st = "st1\<lparr>st_cache := cache\<rparr>"
  from checked(6) new key' assms(1)
  have run: "run_owned W ?st rd aid key (hq_body q) = (resp, st', effs, log)" by simp
  show ?thesis
  proof (cases rule: run_owned_cases [of W "hq_body q" ?st rd aid key])
    case (ran rq a cx st2)
    let ?oc = "process_action (w_host W) (st_fs ?st) a rq (st_config ?st) cx"
    from ran run have st': "st' = snd (finish_action W st2 rd aid key rq ?oc)"
      and resp: "resp = fst (finish_action W st2 rd aid key rq ?oc)" by simp_all
    have c': "st_cache st' = cache_complete cache key (cached_body W ?oc)"
      using ran(4) by (simp add: st')
    have "cached_body W ?oc = re_body resp" if "re_status resp = 200"
    proof (cases "oc_result ?oc")
      case (Inl e)
      then have "resp = ama_error_response W e" by (simp add: resp finish_action_def Let_def)
      with that http_status_range [of e] show ?thesis
        by (auto simp: ama_error_response_def json_response_def http_status_def split: prod.splits)
    next
      case (Inr x)
      then show ?thesis by (simp add: resp finish_action_def cached_body_def Let_def)
    qed
    then show ?thesis
      using that [of "cached_body W ?oc"] inv slot
      by (simp add: c' ac.complete_inv ac.complete_slot ac.complete_born ac.complete_ttl)
  qed (use run assms(2) in auto)
qed

section \<open>A concrete daemon\<close>

text \<open>A printer that keeps the first text of an object, and a reader of three bodies.\<close>

definition sample_print :: "json \<Rightarrow> string" where
  "sample_print v = (case v of JObj ((k, JStr t) # rest) \<Rightarrow> t | _ \<Rightarrow> [])"

definition sample_world :: world where
  "sample_world =
     \<lparr>w_host = sample_host, w_print = sample_print,
      w_parse_request = (\<lambda>b.
        if b = ''write'' then Inr (sample_request ''file_write'' ''notes.txt'' (Some ''hi'') None)
        else if b = ''read'' then Inr (sample_request ''file_read'' ''missing.txt'' None None)
        else if b = ''get'' then
          Inr ((sample_request ''http_request'' ''https://api.example.com/v1'' None None)\<lparr>rq_method := Some ''GET''\<rparr>)
        else Inl ''EOF''),
      w_uuid_parse = (\<lambda>_. Some 7), w_uuid_version = (\<lambda>_. 4), w_uuid_show = (\<lambda>_. ''7''),
      w_first_key = hd, w_pkg_version = ''0.1.0''\<rparr>"

definition sample_reading :: "instant \<Rightarrow> reading" where
  "sample_reading t =
     \<lparr>rd_epoch_secs = 1000, rd_now = t, rd_t1 = t, rd_t2 = t, rd_t3 = t, rd_action_id = ''id1'',
      rd_duration_ms = 1, rd_audit_epoch_secs = 1000, rd_proof_epoch_secs = 1000\<rparr>"

definition sample_state :: app_state where
  "sample_state = app_state_new sample_config (\<lambda>_. ''s'') ''sess'' 0 sample_fs"

definition sample_post :: "string \<Rightarrow> bytes \<Rightarrow> http_req" where
  "sample_post aid body =
     \<lparr>hq_method = ''POST'', hq_content_type = Some (Some ''application/json''), hq_agent_id = Some (Some aid),
      hq_timestamp = Some (Some ''900''),
      hq_signature = Some (Some (''0123456789abcdef0123456789abcdef|'' @ aid @ ''.900.h'' @ body)),
      hq_idempotency_key = Some (Some ''key''), hq_body = body\<rparr>"

lemma sample_state_inv: "app_inv sample_state"
  unfolding sample_state_def by (rule app_inv_new)

section \<open>Properties\<close>



text \<open>Rate limits hold over every stretch of time, not only over the limiter's own windows: of
  the calls in any interval shorter than an agent's window, at most twice its limit are accepted,
  whatever the limiter's state at the start; and within one window at most the limit.\<close>

theorem rate_limited:
  assumes "0 < rl_max_per_window rl" and "unat (rl_count rl) + length ts + 1 < 2 ^ 64"
    and "list_all (\<lambda>t. T \<le> t \<and> t < T + unat (rl_window_secs rl) * nanos_per_sec) ts"
  shows "accepted (limiter_run rl ts) \<le> 2 * unat (rl_max_per_window rl) \<and>
     (list_all (in_window rl) ts \<longrightarrow>
        accepted (limiter_run rl ts) \<le> unat (rl_max_per_window rl) - unat (rl_count rl))"
  using accepted_stretch [of ts T rl] accepted_in_window [of ts rl] assms
  by (auto simp: list_all_iff)

text \<open>A limit of 2 per 1 second: of six calls around a reset, exactly four pass.\<close>

theorem rate_limited_witness:
  "let rl = \<lparr>rl_window_start = 0, rl_count = 0, rl_max_per_window = 2, rl_window_secs = 1\<rparr>;
       ts = [900000000, 900000001, 900000002, 1000000000, 1000000001, 1000000002]
   in limiter_run rl ts = [True, True, False, True, True, False] \<and> accepted (limiter_run rl ts) \<le> 2 * 2"
proof -
  let ?rl = "\<lparr>rl_window_start = 0, rl_count = 0, rl_max_per_window = 2, rl_window_secs = 1\<rparr>"
  let ?ts = "[900000000, 900000001, 900000002, 1000000000, 1000000001, 1000000002]"
  have "limiter_run ?rl ?ts = [True, True, False, True, True, False]" by code_simp
  moreover have "accepted (limiter_run ?rl ?ts) \<le> 2 * unat (rl_max_per_window ?rl)"
    using rate_limited [of ?rl ?ts 900000000] by (simp add: nanos_per_sec_def del: limiter_run.simps)
  ultimately show ?thesis by (simp add: Let_def del: limiter_run.simps)
qed

text \<open>From boot on, whatever action requests the daemon serves, every agent's used capacity is
  within its maximum, the idempotency cache holds at most 10000 distinct keys and the proof store
  at most 10000 records, each under its own identifier.\<close>

theorem daemon_bounded:
  assumes "picks (w_first_key W)" and "serves W (app_state_new cfg asess session now s) st"
  shows "cache_len (st_cache st) \<le> 10000 \<and> hm_len (ps_records (st_proof_store st)) \<le> 10000 \<and>
     hm_wf (ic_entries (st_cache st)) \<and>
     (\<forall>aid a. registry_get (st_agent_registry st) aid = Some a \<longrightarrow> capacity_used a \<le> capacity_max a) \<and>
     (\<forall>k r. proof_get (st_proof_store st) k = Some r \<longrightarrow> pr_request_id r = k)"
  using serves_inv [OF assms(2) app_inv_new assms(1)]
  by (auto simp: app_inv_def registry_ok_def capacity_ok_def capacity_used_def capacity_max_def
      cache_inv_def proof_store_inv_def proof_get_def)

theorem daemon_bounded_witness:
  "\<exists>st. serves sample_world sample_state st \<and> cache_len (st_cache st) = 1 \<and>
     hm_len (ps_records (st_proof_store st)) \<le> 10000"
proof -
  let ?q = "sample_post ''bob'' ''write''"
  let ?r = "serve_action sample_world \<lparr>re_status = 413, re_headers = [], re_body = []\<rparr> (sample_reading 5) sample_state ?q"
  have "cache_len (st_cache (fst (snd ?r))) = 1" by code_simp
  moreover obtain resp st effs log where r: "?r = (resp, st, effs, log)" by (metis prod_cases4)
  ultimately have len: "cache_len (st_cache st) = 1" by simp
  from serves.served [OF serves.booted r] have served: "serves sample_world sample_state st" .
  have "picks (w_first_key sample_world)" by (simp add: sample_world_def picks_hd)
  from daemon_bounded [OF this served [unfolded sample_state_def]] len served show ?thesis by blast
qed

text \<open>C21: an agent with a secret is not served without its signature. If a call changes anything or
  has any effect on behalf of an agent with a secret, the request carried a timestamp within 300
  seconds of the server's clock and a signature that decodes to the HMAC, under that secret, of
  the agent's name, the timestamp and the hash of the body.\<close>

theorem unsigned_requests_inert:
  assumes "handle_action W rd st q = (resp, st', effs, log)" and "st' \<noteq> st \<or> effs \<noteq> [] \<or> log \<noteq> []"
    and "resolve_agent_id st q = Inr aid"
    and "hm_get (cf_agents (st_config st)) aid = Some ac" and "ac_secret ac = Some secret"
  shows "\<exists>t s w. hq_timestamp q = Some (Some t) \<and> hq_signature q = Some (Some s) \<and> parse_u64 t = Some w \<and>
     unat (rd_epoch_secs rd) \<le> unat w + 300 \<and> unat w \<le> unat (rd_epoch_secs rd) + 300 \<and>
     hex_decode (ho_crypto (w_host W)) s = Some (hmac_sha256 (ho_crypto (w_host W)) secret
       (build_signing_message aid t (body_hash (ho_crypto (w_host W)) (hq_body q))))"
proof -
  have "check_identity W st aid q (rd_epoch_secs rd) = Inr ()"
  proof (cases rule: handle_action_cases [of W rd st q])
    case (stopped r s)
    with assms(1-3) show ?thesis by auto
  next
    case (checked aid' key st1 status cache)
    with assms(3) show ?thesis by simp
  qed
  with assms(4,5) have "verify_identity (ho_crypto (w_host W)) secret aid (header_text (hq_timestamp q))
      (header_text (hq_signature q)) (hq_body q) (rd_epoch_secs rd) = Inr ()"
    by (simp add: check_identity_def)
  then show ?thesis
    by (auto simp: verify_identity_ok_iff header_text_def split: option.splits)
qed

text \<open>Alice's signed request is served; without the signature it is not.\<close>

theorem unsigned_requests_inert_witness:
  "fst (snd (snd (handle_action sample_world (sample_reading 5) sample_state (sample_post ''alice'' ''write'')))) \<noteq> [] \<and>
   fst (snd (snd (handle_action sample_world (sample_reading 5) sample_state
     ((sample_post ''alice'' ''write'')\<lparr>hq_signature := None\<rparr>)))) = []"
proof
  show "fst (snd (snd (handle_action sample_world (sample_reading 5) sample_state (sample_post ''alice'' ''write'')))) \<noteq> []"
    by code_simp
  let ?q = "(sample_post ''alice'' ''write'')\<lparr>hq_signature := None\<rparr>"
  obtain resp st' effs log where r:
    "handle_action sample_world (sample_reading 5) sample_state ?q = (resp, st', effs, log)"
    by (metis prod_cases4)
  have "resolve_agent_id sample_state ?q = Inr ''alice''" by code_simp
  moreover have "hm_get (cf_agents (st_config sample_state)) ''alice'' =
      Some (sample_agent ''alice'' (Some ''0123456789abcdef0123456789abcdef''))"
    by (simp add: sample_state_def app_state_new_def sample_config_def hm_get_def Let_def)
  ultimately have "effs = []"
    using unsigned_requests_inert [OF r _ _ _ _] by (fastforce simp: sample_agent_def)
  with r show "fst (snd (snd (handle_action sample_world (sample_reading 5) sample_state ?q))) = []" by simp
qed

text \<open>No secret leaves through the manifest endpoint: states whose configurations agree, for the
  asked agent, in everything but the secret's value give the same answer.\<close>

theorem manifest_endpoint_hides_secret:
  assumes "hm_get (cf_agents (st_config st)) aid = Some c" and "hm_get (cf_agents (st_config st')) aid = Some c'"
    and "c' = c\<lparr>ac_secret := Some secret'\<rparr>" and "ac_secret c = Some secret"
  shows "handle_manifest W st aid = handle_manifest W st' aid"
proof -
  have same: "hashable_of c = hashable_of c'" and "manifest_domains c = manifest_domains c'"
    using assms(3,4) by (simp_all add: hashable_of_def manifest_domains_def)
  with assms show ?thesis by (simp add: handle_manifest_def from_agent_config_def Let_def)
qed

theorem manifest_endpoint_hides_secret_witness:
  "handle_manifest sample_world sample_state ''alice'' =
   handle_manifest sample_world
     (sample_state\<lparr>st_config := sample_config\<lparr>cf_agents := [(''alice'',
        sample_agent ''alice'' (Some ''fedcba9876543210fedcba9876543210''))]\<rparr>\<rparr>) ''alice''"
  by (rule manifest_endpoint_hides_secret
      [where c = "sample_agent ''alice'' (Some ''0123456789abcdef0123456789abcdef'')"])
    (simp_all add: sample_state_def app_state_new_def sample_config_def sample_agent_def sample_policies_def
      hm_get_def hm_wf_def Let_def)



text \<open>Errors do not survive a retry as errors, and an authorized failure is recorded as a denial.
  Bob's request for a missing file is authorized and spends capacity, but fails with 503; its proof
  record says IMPOSSIBLE, and the retry with the same key is answered 200 with the cached error.\<close>

theorem failure_misreported:
  "let (resp, st1, effs, log) = handle_action sample_world (sample_reading 5) sample_state (sample_post ''bob'' ''read'');
       (resp', st2, effs', log') = handle_action sample_world (sample_reading 9) st1 (sample_post ''bob'' ''read'')
   in re_status resp = 503 \<and> map_option pa_capacity (registry_get (st_agent_registry st1) ''bob'') = Some 3 \<and>
      map_option pr_verdict (proof_get (st_proof_store st1) ''id1'') = Some ''IMPOSSIBLE'' \<and>
      map ae_status log = [''error''] \<and> re_status resp' = 200"
  by code_simp

end
