(* ===== verification/Router.thy ===== *)
theory Router
  imports Server
begin

text \<open>
  \<open>build_router\<close> in \<open>safa-daemon/src/server.rs\<close>: which handler answers which request. What axum
  and tower answer by themselves is the record \<open>fallbacks\<close>: to a path no route matches or a
  method its route does not have, to a body over the limit, to a path parameter that does not
  decode.
\<close>

section \<open>Routes\<close>

record fallbacks =
  fb_unmatched :: "string \<Rightarrow> http_req \<Rightarrow> response"
  fb_too_large :: response
  fb_declared_too_large :: "http_req \<Rightarrow> bool"
  fb_decode :: "string \<Rightarrow> response + string"

datatype read_route = RStatus | RManifest string | RProof string | RHealth | RVersion

datatype route = RAction | RRead read_route

text \<open>One parameter segment after a fixed prefix.\<close>

definition path_param :: "string \<Rightarrow> string \<Rightarrow> string option" where
  "path_param fixed path =
     (case strip_prefix path fixed of
        Some p \<Rightarrow> if p = [] \<or> CHR ''/'' \<in> set p then None else Some p
      | None \<Rightarrow> None)"

definition match_route :: "string \<Rightarrow> route option" where
  "match_route path =
     (if path = ''/ama/action'' then Some RAction
      else if path = ''/ama/status'' then Some (RRead RStatus)
      else if path = ''/health'' then Some (RRead RHealth)
      else if path = ''/version'' then Some (RRead RVersion)
      else (case path_param ''/ama/manifest/'' path of
              Some p \<Rightarrow> Some (RRead (RManifest p))
            | None \<Rightarrow> map_option (RRead \<circ> RProof) (path_param ''/ama/proof/'' path)))"

text \<open>\<open>post\<close> takes POST only, \<open>get\<close> takes GET, and HEAD with the body dropped.\<close>

definition method_allowed :: "route \<Rightarrow> string \<Rightarrow> bool" where
  "method_allowed r m \<longleftrightarrow>
     (case r of RAction \<Rightarrow> m = ''POST'' | RRead _ \<Rightarrow> m = ''GET'' \<or> m = ''HEAD'')"

definition read_response :: "world \<Rightarrow> fallbacks \<Rightarrow> app_state \<Rightarrow> instant \<Rightarrow> read_route \<Rightarrow> response" where
  "read_response W F st now r =
     (case r of
        RStatus \<Rightarrow> handle_status W st now
      | RManifest p \<Rightarrow> (case fb_decode F p of Inl e \<Rightarrow> e | Inr aid \<Rightarrow> handle_manifest W st aid)
      | RProof p \<Rightarrow> (case fb_decode F p of Inl e \<Rightarrow> e | Inr rid \<Rightarrow> handle_proof W st rid)
      | RHealth \<Rightarrow> handle_health W
      | RVersion \<Rightarrow> handle_version W)"

definition serve_request ::
  "world \<Rightarrow> fallbacks \<Rightarrow> reading \<Rightarrow> app_state \<Rightarrow> string \<Rightarrow> http_req
    \<Rightarrow> response \<times> app_state \<times> effect list \<times> audit_entry list" where
  "serve_request W F rd st path q =
     (case match_route path of
        None \<Rightarrow> (fb_unmatched F path q, st, [], [])
      | Some r \<Rightarrow>
          if \<not> method_allowed r (hq_method q) then (fb_unmatched F path q, st, [], [])
          else (case r of
            RAction \<Rightarrow> serve_action W (fb_too_large F) rd st q
          | RRead rr \<Rightarrow>
              if fb_declared_too_large F q then (fb_too_large F, st, [], [])
              else
                (let resp = read_response W F st (rd_now rd) rr
                 in (if hq_method q = ''HEAD'' then resp\<lparr>re_body := []\<rparr> else resp, st, [], []))))"

text \<open>Only POST to the action route does anything.\<close>

lemma serve_request_cases:
  assumes "serve_request W F rd st path q = (resp, st', effs, log)"
  obtains (read) "st' = st" "effs = []" "log = []"
  | (action) "match_route path = Some RAction" "hq_method q = ''POST''"
      "serve_action W (fb_too_large F) rd st q = (resp, st', effs, log)"
  using assms by (auto simp: serve_request_def method_allowed_def Let_def split: option.splits route.splits if_splits)

text \<open>The states the daemon reaches by serving requests of any kind.\<close>

inductive answers :: "world \<Rightarrow> fallbacks \<Rightarrow> app_state \<Rightarrow> app_state \<Rightarrow> bool" for W F st0 where
  started: "answers W F st0 st0"
| answered: "answers W F st0 st \<Longrightarrow> serve_request W F rd st path q = (resp, st', effs, log) \<Longrightarrow>
     answers W F st0 st'"

lemma answers_serves: "answers W F st0 st \<Longrightarrow> serves W st0 st"
proof (induction rule: answers.induct)
  case (answered st rd path q resp st' effs log)
  from answered.hyps(2) show ?case
    by (cases rule: serve_request_cases) (use answered.IH in \<open>auto intro: serves.served\<close>)
qed (rule serves.booted)

lemma answers_one: "answers W F st0 (fst (snd (serve_request W F rd st0 path q)))"
  using answers.answered [OF answers.started, of W F rd st0 path q] by (metis prod.collapse)

end
