(* ===== verification/Fs_Walk.thy ===== *)
theory Fs_Walk
  imports Filesystem
begin

text \<open>
  What path resolution can reach: a walk along a path free of symbolic links ends at the
  location the path spells; a walk that gets anywhere has got to every prefix of its path;
  in a well-formed tree an entry that exists is found. These facts carry the proofs about
  the file actuator.
\<close>

definition seg_names :: "string list \<Rightarrow> location" where
  "seg_names ws = filter (\<lambda>w. w \<noteq> [] \<and> w \<noteq> ''.'') ws"

text \<open>The location an absolute path without dot dot spells.\<close>

definition path_loc :: "string \<Rightarrow> location" where
  "path_loc p = seg_names (path_segs p)"

definition is_link_at :: "(location \<Rightarrow> fs_node option) \<Rightarrow> location \<Rightarrow> bool" where
  "is_link_at N l = (case N l of Some (Symlink t) \<Rightarrow> True | _ \<Rightarrow> False)"

definition link_free :: "(location \<Rightarrow> fs_node option) \<Rightarrow> location \<Rightarrow> bool" where
  "link_free N l \<longleftrightarrow> (\<forall>q. prefix q l \<longrightarrow> \<not> is_link_at N q)"

text \<open>
  A tree: the root is a directory, an entry lies in a directory, its name is one the kernel
  allows, and no link's text contains a null byte.
\<close>

definition valid_name :: "string \<Rightarrow> bool" where
  "valid_name c \<longleftrightarrow> c \<noteq> [] \<and> c \<noteq> ''.'' \<and> c \<noteq> ''..'' \<and> CHR ''/'' \<notin> set c \<and> CHR 0x00 \<notin> set c"

definition node_ok :: "(location \<Rightarrow> fs_node option) \<Rightarrow> location \<Rightarrow> fs_node \<Rightarrow> bool" where
  "node_ok N l nd \<longleftrightarrow> list_all valid_name l \<and> (if l = [] then True else is_dir_at N (butlast l)) \<and>
     (case nd of Symlink t \<Rightarrow> CHR 0x00 \<notin> set t | _ \<Rightarrow> True)"

definition fs_ok :: "(location \<Rightarrow> fs_node option) \<Rightarrow> bool" where
  "fs_ok N \<longleftrightarrow> is_dir_at N [] \<and> (\<forall>l nd. N l = Some nd \<longrightarrow> node_ok N l nd)"

lemma seg_names_simps [simp]:
  "seg_names [] = []" "seg_names ([] # ws) = seg_names ws" "seg_names (''.'' # ws) = seg_names ws"
  "seg_names (xs @ ys) = seg_names xs @ seg_names ys"
  by (simp_all add: seg_names_def)

lemma seg_names_Cons: "seg_names (w # ws) = (if w = [] \<or> w = ''.'' then [] else [w]) @ seg_names ws"
  by (simp add: seg_names_def)

lemma set_seg_names: "set (seg_names ws) = {w \<in> set ws. w \<noteq> [] \<and> w \<noteq> ''.''}"
  by (auto simp: seg_names_def)

lemma link_free_prefix: "link_free N l \<Longrightarrow> prefix q l \<Longrightarrow> link_free N q"
  by (auto simp: link_free_def intro: prefix_order.trans)

lemma link_freeD: "link_free N l \<Longrightarrow> \<not> is_link_at N l"
  by (simp add: link_free_def)

lemma link_free_snoc: "link_free N (l @ [c]) \<longleftrightarrow> link_free N l \<and> \<not> is_link_at N (l @ [c])"
  by (auto simp: link_free_def prefix_snoc)

section \<open>Walks free of links\<close>

definition lands :: "fs_lookup \<Rightarrow> location \<Rightarrow> bool" where
  "lands r l \<longleftrightarrow> (case r of Found l' \<Rightarrow> l' = l | Absent l' \<Rightarrow> l' = l | Bad e \<Rightarrow> True)"

lemma lands_simps [simp]:
  "lands (Found l') l \<longleftrightarrow> l' = l" "lands (Absent l') l \<longleftrightarrow> l' = l" "lands (Bad e) l"
  by (simp_all add: lands_def)

lemma fs_walk_link_free:
  "link_free N (cur @ seg_names segs) \<Longrightarrow> ''..'' \<notin> set segs \<Longrightarrow>
     lands (fs_walk n N f cur segs) (cur @ seg_names segs)"
proof (induction segs arbitrary: cur)
  case (Cons d ds)
  have nl: "\<not> is_link_at N (cur @ [d])" if "d \<noteq> []" "d \<noteq> ''.''"
    using Cons.prems(1) that by (auto simp: seg_names_Cons link_free_def)
  have "link_free N ((if d = [] \<or> d = ''.'' then cur else cur @ [d]) @ seg_names ds)"
    using Cons.prems(1) by (auto simp: seg_names_Cons)
  from Cons.IH [OF this] Cons.prems(2-) nl show ?case
    by (auto simp: seg_names_Cons is_link_at_def split: option.splits fs_node.splits if_splits)
qed simp

text \<open>The last name may be a link if links are not followed there.\<close>

lemma fs_walk_link_free_last:
  "link_free N (cur @ seg_names segs) \<Longrightarrow> ''..'' \<notin> set segs \<Longrightarrow> c \<noteq> [] \<Longrightarrow> c \<noteq> ''.'' \<Longrightarrow> c \<noteq> ''..'' \<Longrightarrow>
     lands (fs_walk n N False cur (segs @ [c])) (cur @ seg_names segs @ [c])"
proof (induction segs arbitrary: cur)
  case Nil
  then show ?case by (auto split: option.splits fs_node.splits)
next
  case (Cons d ds)
  have nl: "\<not> is_link_at N (cur @ [d])" if "d \<noteq> []" "d \<noteq> ''.''"
    using Cons.prems(1) that by (auto simp: seg_names_Cons link_free_def)
  have "link_free N ((if d = [] \<or> d = ''.'' then cur else cur @ [d]) @ seg_names ds)"
    using Cons.prems(1) by (auto simp: seg_names_Cons)
  from Cons.IH [OF this] Cons.prems(2-) nl show ?case
    by (auto simp: seg_names_Cons is_link_at_def split: option.splits fs_node.splits if_splits)
qed

section \<open>Walks reach every prefix\<close>

text \<open>The four ways a walk takes its next step.\<close>

lemma fs_walk_step_cases:
  obtains (notdir) "\<not> is_dir_at N cur"
  | (dots) "is_dir_at N cur" "c = [] \<or> c = ''.''"
  | (updir) "is_dir_at N cur" "c = ''..''"
  | (none) "is_dir_at N cur" "c \<noteq> []" "c \<noteq> ''.''" "c \<noteq> ''..''" "N (cur @ [c]) = None"
  | (link) t where "is_dir_at N cur" "c \<noteq> []" "c \<noteq> ''.''" "c \<noteq> ''..''" "N (cur @ [c]) = Some (Symlink t)"
  | (enter) nd where "is_dir_at N cur" "c \<noteq> []" "c \<noteq> ''.''" "c \<noteq> ''..''" "N (cur @ [c]) = Some nd"
      "\<forall>t. nd \<noteq> Symlink t"
  by (metis (no_types, lifting) not_Some_eq)

lemma fs_walk_enter:
  "is_dir_at N cur \<Longrightarrow> c \<noteq> [] \<Longrightarrow> c \<noteq> ''.'' \<Longrightarrow> c \<noteq> ''..'' \<Longrightarrow> N (cur @ [c]) = Some nd \<Longrightarrow>
     \<forall>t. nd \<noteq> Symlink t \<Longrightarrow> fs_walk n N f cur (c # cs) = fs_walk n N f (cur @ [c]) cs"
  by (cases nd) auto

text \<open>Induction over a walk: over the links left, and for each number over the segments.\<close>

lemma walk_induct [case_names Nil Cons]:
  assumes "\<And>n cur. P n cur []"
    and "\<And>n cur c cs. (\<And>cur'. P n cur' cs) \<Longrightarrow> (\<And>m cur' xs. n = Suc m \<Longrightarrow> P m cur' xs) \<Longrightarrow> P n cur (c # cs)"
  shows "P (n::nat) cur (xs :: string list)"
proof (induction n arbitrary: cur xs)
  case (0 cur xs)
  show ?case by (induction xs arbitrary: cur) (auto intro: assms)
next
  case (Suc m cur xs)
  show ?case by (induction xs arbitrary: cur) (auto intro: assms Suc.IH)
qed

lemma fs_walk_append:
  "ys \<noteq> [] \<Longrightarrow> (\<forall>e. fs_walk n N f cur (xs @ ys) \<noteq> Bad e) \<Longrightarrow>
     \<exists>cur' n'. fs_walk n N True cur xs = Found cur' \<and> fs_walk n N f cur (xs @ ys) = fs_walk n' N f cur' ys"
proof (induction n cur xs rule: walk_induct)
  case (Cons n cur c cs)
  show ?case
  proof (cases rule: fs_walk_step_cases [where N = N and cur = cur and c = c])
    case (link t)
    show ?thesis
    proof (cases n)
      case (Suc m)
      with Cons.IH(2) [OF Suc, of "if is_absolute t then [] else cur" "path_segs t @ cs"] link Cons.prems
      show ?thesis by simp
    qed (use Cons.prems link in auto)
  next
    case (enter nd)
    show ?thesis
      using Cons.IH(1) [of "cur @ [c]", OF Cons.prems(1)] Cons.prems(2)
      unfolding append_Cons by (simp only: fs_walk_enter [OF enter]) blast
  qed (use Cons in \<open>auto split: if_splits\<close>)
qed auto

text \<open>A walk that succeeds can be continued, with the links it has left.\<close>

lemma fs_walk_forward:
  "fs_walk n N True cur xs = Found l \<Longrightarrow>
     \<exists>m \<le> n. \<forall>f ys. ys \<noteq> [] \<longrightarrow> fs_walk n N f cur (xs @ ys) = fs_walk m N f l ys"
proof (induction n cur xs rule: walk_induct)
  case (Cons n cur c cs)
  show ?case
  proof (cases rule: fs_walk_step_cases [where N = N and cur = cur and c = c])
    case (link t)
    show ?thesis
    proof (cases n)
      case (Suc m)
      have "fs_walk m N True (if is_absolute t then [] else cur) (path_segs t @ cs) = Found l"
        using link Suc Cons.prems by simp
      from Cons.IH(2) [OF Suc this] obtain k where "k \<le> m"
        and "\<forall>f ys. ys \<noteq> [] \<longrightarrow> fs_walk m N f (if is_absolute t then [] else cur) ((path_segs t @ cs) @ ys) =
            fs_walk k N f l ys" by blast
      with link Suc show ?thesis by (intro exI [of _ k]) auto
    qed (use Cons.prems link in auto)
  next
    case (enter nd)
    from Cons.prems have "fs_walk n N True (cur @ [c]) cs = Found l" by (simp only: fs_walk_enter [OF enter])
    from Cons.IH(1) [OF this] show ?thesis unfolding append_Cons by (simp only: fs_walk_enter [OF enter])
  qed (use Cons in \<open>auto split: if_splits\<close>)
qed auto

text \<open>Empty and dot segments can only make a walk fail.\<close>

inductive drops :: "string list \<Rightarrow> string list \<Rightarrow> bool" where
  drops_Nil: "drops [] []"
| drops_keep: "drops ys xs \<Longrightarrow> drops (c # ys) (c # xs)"
| drops_skip: "drops ys xs \<Longrightarrow> c = [] \<or> c = ''.'' \<Longrightarrow> drops ys (c # xs)"

inductive_cases drops_ConsE: "drops ys (c # xs)"
inductive_cases drops_NilE: "drops ys []"

lemma drops_refl [simp]: "drops xs xs"
  by (induction xs) (auto intro: drops.intros)

lemma drops_append: "drops ys xs \<Longrightarrow> drops (zs @ ys) (zs @ xs)"
  by (induction zs) (auto intro: drops.intros)

lemma drops_append2: "drops ys xs \<Longrightarrow> drops ys' xs' \<Longrightarrow> drops (ys @ ys') (xs @ xs')"
  by (induction rule: drops.induct) (auto intro: drops.intros)

lemma drops_seg_names: "drops (seg_names xs) xs"
  by (induction xs) (auto simp: seg_names_Cons intro: drops.intros)

lemma fs_walk_drops:
  "drops ys xs \<Longrightarrow> fs_walk n N True cur xs = Found l \<Longrightarrow> fs_walk n N True cur ys = Found l"
proof (induction n cur xs arbitrary: ys rule: walk_induct)
  case (Nil n cur)
  then show ?case by (auto elim: drops_NilE)
next
  case (Cons n cur c cs)
  from Cons.prems(1) consider (keep) ys' where "ys = c # ys'" "drops ys' cs"
    | (skip) "drops ys cs" "c = [] \<or> c = ''.''" by (rule drops_ConsE)
  then show ?case
  proof cases
    case keep
    show ?thesis
    proof (cases rule: fs_walk_step_cases [where N = N and cur = cur and c = c])
      case (link t)
      show ?thesis
      proof (cases n)
        case (Suc m)
        with Cons.IH(2) [OF Suc drops_append [OF keep(2)]] link Cons.prems(2) keep
        show ?thesis by simp
      qed (use Cons.prems link in auto)
    next
      case (enter nd)
      show ?thesis
        using Cons.IH(1) [OF keep(2), of "cur @ [c]"] Cons.prems(2) keep(1)
        by (simp only: fs_walk_enter [OF enter])
    qed (use Cons keep in \<open>auto split: if_splits\<close>)
  next
    case skip
    with Cons.prems(2) Cons.IH(1) [of ys] show ?thesis by (auto split: if_splits)
  qed
qed

section \<open>Walks in a tree\<close>

lemma fs_okD:
  assumes "fs_ok N" and "N l = Some nd"
  shows "list_all valid_name l" and "l \<noteq> [] \<Longrightarrow> is_dir_at N (butlast l)"
    and "nd = Symlink t \<Longrightarrow> CHR 0x00 \<notin> set t"
proof -
  from assms have "node_ok N l nd" by (simp add: fs_ok_def)
  then show "list_all valid_name l" "l \<noteq> [] \<Longrightarrow> is_dir_at N (butlast l)"
    "nd = Symlink t \<Longrightarrow> CHR 0x00 \<notin> set t"
    by (auto simp: node_ok_def)
qed

lemma fs_ok_root: "fs_ok N \<Longrightarrow> is_dir_at N []"
  by (simp add: fs_ok_def)

lemma is_dir_at_Some: "is_dir_at N l \<Longrightarrow> \<exists>m. N l = Some (Directory m)"
  by (auto simp: is_dir_at_def split: option.splits fs_node.splits)

lemma fs_ok_butlast: "fs_ok N \<Longrightarrow> is_dir_at N l \<Longrightarrow> is_dir_at N (butlast l)"
  by (cases "l = []") (auto dest!: is_dir_at_Some dest: fs_okD(2))

lemma fs_ok_strict_prefix:
  "fs_ok N \<Longrightarrow> N l \<noteq> None \<Longrightarrow> strict_prefix q l \<Longrightarrow> is_dir_at N q"
proof (induction l rule: rev_induct)
  case (snoc c l)
  from snoc.prems(1,2) have dir: "is_dir_at N l" by (auto dest: fs_okD(2))
  from snoc.prems(3) consider "q = l" | "strict_prefix q l"
    by (metis prefix_order.le_less prefix_snoc strict_prefix_def)
  then show ?case
    by cases (use dir snoc.IH snoc.prems(1) in \<open>auto dest!: is_dir_at_Some\<close>)
qed simp

lemma is_dir_not_link: "is_dir_at N l \<Longrightarrow> \<not> is_link_at N l"
  by (auto simp: is_link_at_def dest!: is_dir_at_Some)

lemma fs_ok_link_free: "fs_ok N \<Longrightarrow> N l \<noteq> None \<Longrightarrow> \<not> is_link_at N l \<Longrightarrow> link_free N l"
  unfolding link_free_def
  by (metis fs_ok_strict_prefix is_dir_not_link prefix_order.le_less)

text \<open>A segment of a path the kernel accepts.\<close>

definition plain_seg :: "string \<Rightarrow> bool" where
  "plain_seg w \<longleftrightarrow> CHR ''/'' \<notin> set w \<and> CHR 0x00 \<notin> set w"

lemma plain_segs: "CHR 0x00 \<notin> set p \<Longrightarrow> list_all plain_seg (path_segs p)"
  using set_split_on [of is_sep p] split_on_no_sep [of _ is_sep p]
  by (fastforce simp: list_all_iff plain_seg_def path_segs_def is_sep_def)

text \<open>What a walk finds exists, and is no link if links are followed; what it misses could be made.\<close>

lemma fs_walk_result:
  "fs_ok N \<Longrightarrow> N cur \<noteq> None \<Longrightarrow> \<not> is_link_at N cur \<Longrightarrow> list_all plain_seg segs \<Longrightarrow>
     (case fs_walk n N f cur segs of
        Found l \<Rightarrow> N l \<noteq> None \<and> (f \<longrightarrow> \<not> is_link_at N l)
      | Absent l \<Rightarrow> N l = None \<and> (\<exists>d c. l = d @ [c] \<and> is_dir_at N d \<and> valid_name c)
      | Bad e \<Rightarrow> True)"
proof (induction n cur segs rule: walk_induct)
  case (Nil n cur)
  then show ?case by simp
next
  case (Cons n cur c cs)
  show ?case
  proof (cases rule: fs_walk_step_cases [where N = N and cur = cur and c = c])
    case (link t)
    show ?thesis
    proof (cases n)
      case (Suc m)
      have "is_dir_at N (if is_absolute t then [] else cur)"
        using link(1) fs_ok_root [OF Cons.prems(1)] by simp
      moreover have "list_all plain_seg (path_segs t @ cs)"
        using Cons.prems(4) plain_segs fs_okD(3) [OF Cons.prems(1) link(5) refl] by simp
      ultimately show ?thesis
        using Cons.IH(2) [OF Suc Cons.prems(1) _ is_dir_not_link, of "if is_absolute t then [] else cur"
          "path_segs t @ cs"] is_dir_at_Some [of N "if is_absolute t then [] else cur"] link Suc
        by (auto split: if_splits)
    qed (use link in auto)
  next
    case updir
    with Cons.IH(1) [of "butlast cur", OF Cons.prems(1)] fs_ok_butlast [OF Cons.prems(1), of cur]
      is_dir_not_link [of N "butlast cur"] Cons.prems(4)
    show ?thesis by (auto dest: is_dir_at_Some)
  next
    case (enter nd)
    from enter Cons.IH(1) [of "cur @ [c]", OF Cons.prems(1)] Cons.prems(4) show ?thesis
      by (simp only: fs_walk_enter [OF enter]) (cases nd; simp add: is_link_at_def)
  qed (use Cons in \<open>auto simp: valid_name_def plain_seg_def\<close>)
qed

text \<open>An entry that exists is found along its names.\<close>

lemma fs_walk_names_Found:
  "fs_ok N \<Longrightarrow> N (cur @ segs) \<noteq> None \<Longrightarrow> (\<forall>q. strict_prefix q (cur @ segs) \<longrightarrow> is_dir_at N q) \<Longrightarrow>
     (if f then \<not> is_link_at N (cur @ segs) else True) \<Longrightarrow> fs_walk n N f cur segs = Found (cur @ segs)"
proof (induction segs arbitrary: cur)
  case (Cons c cs)
  have cur: "is_dir_at N cur" using Cons.prems(3) by (simp add: strict_prefix_def)
  from Cons.prems(1,2) have "list_all valid_name (cur @ c # cs)" by (auto dest: fs_okD(1))
  then have c: "c \<noteq> []" "c \<noteq> ''.''" "c \<noteq> ''..''" by (auto simp: valid_name_def)
  have IH: "fs_walk n N f (cur @ [c]) cs = Found (cur @ c # cs)"
    using Cons.IH [of "cur @ [c]"] Cons.prems by simp
  show ?case
  proof (cases "cs = []")
    case True
    with Cons.prems(2,4) c cur show ?thesis
      by (auto simp: is_link_at_def split: option.splits fs_node.splits if_splits)
  next
    case False
    then have "is_dir_at N (cur @ [c])" using Cons.prems(3) by (simp add: strict_prefix_def)
    then obtain m where nd: "N (cur @ [c]) = Some (Directory m)" by (blast dest: is_dir_at_Some)
    show ?thesis using fs_walk_enter [OF cur c nd, of n f cs] IH by simp
  qed
qed simp

section \<open>Literal paths\<close>

text \<open>Absolute and without dot dot: such a path spells its location.\<close>

definition literal_path :: "string \<Rightarrow> bool" where
  "literal_path p \<longleftrightarrow> is_absolute p \<and> ''..'' \<notin> set (path_segs p)"

lemma seg_components_names: "''..'' \<notin> set ws \<Longrightarrow> seg_components ws = map Normal (seg_names ws)"
  by (induction ws) (auto simp: seg_component_def seg_names_Cons)

lemma path_components_literal: "literal_path p \<Longrightarrow> path_components p = RootDir # map Normal (path_loc p)"
  by (simp add: literal_path_def path_components_abs seg_components_names path_loc_def)

lemma path_starts_with_literal:
  "literal_path p \<Longrightarrow> literal_path q \<Longrightarrow> path_starts_with p q \<longleftrightarrow> prefix (path_loc q) (path_loc p)"
  by (simp add: path_starts_with_def path_components_literal)
    (metis component.inject map_injective injI prefix_map_rightE map_mono_prefix)

lemma path_file_name_literal:
  "literal_path p \<Longrightarrow> path_file_name p = (if path_loc p = [] then None else Some (last (path_loc p)))"
  by (simp add: path_file_name_def path_components_literal last_map)

lemma path_loc_segs: "is_absolute p \<Longrightarrow> \<exists>ws. path_segs p = [] # ws \<and> path_loc p = seg_names ws"
  using path_segs_abs [of p] by (auto simp: path_loc_def)

lemma path_loc_names: "c \<in> set (path_loc p) \<Longrightarrow> c \<noteq> [] \<and> c \<noteq> ''.'' \<and> CHR ''/'' \<notin> set c"
  using split_on_no_sep [of c is_sep p] by (auto simp: path_loc_def set_seg_names path_segs_def is_sep_def)

text \<open>Splitting undoes joining.\<close>

lemma path_segs_join_with:
  "ws \<noteq> [] \<Longrightarrow> \<forall>w \<in> set ws. CHR ''/'' \<notin> set w \<Longrightarrow> path_segs (join_with ''/'' ws) = ws"
proof (induction ws)
  case (Cons w ws)
  then show ?case using path_segs_sep [of w "join_with ''/'' ws"] by (cases ws) (auto simp: path_segs_name)
qed simp

lemma path_segs_no_sep: "w \<in> set (path_segs p) \<Longrightarrow> CHR ''/'' \<notin> set w"
  using split_on_no_sep [of w is_sep p] by (auto simp: path_segs_def is_sep_def)

lemma render_join: "l \<noteq> [] \<Longrightarrow> render_location l = join_with ''/'' ([] # l)"
proof -
  have "concat (map (\<lambda>c. ''/'' @ c) (d # ds)) = ''/'' @ join_with ''/'' (d # ds)" for d ds
  proof (induction ds arbitrary: d)
    case (Cons a ds)
    show ?case using Cons.IH [of a] by simp
  qed simp
  moreover have "(@) ''/'' = (#) (CHR ''/'')" by auto
  ultimately show "l \<noteq> [] \<Longrightarrow> ?thesis"
    by (cases l; cases "tl l") (simp_all add: render_location_def)
qed

lemma path_segs_render:
  "list_all valid_name l \<Longrightarrow> path_segs (render_location l) = (if l = [] then [[], []] else [] # l)"
proof (cases "l = []")
  case False
  assume "list_all valid_name l"
  then have "\<forall>w \<in> set ([] # l). CHR ''/'' \<notin> set w" by (simp add: valid_name_def list_all_iff)
  then have "path_segs (join_with ''/'' ([] # l)) = [] # l" by (intro path_segs_join_with) simp
  with False show ?thesis by (simp add: render_join [OF False])
qed (simp add: render_location_def path_segs_def is_sep_def)

lemma seg_names_id: "\<forall>c \<in> set l. c \<noteq> [] \<and> c \<noteq> ''.'' \<Longrightarrow> seg_names l = l"
  by (simp add: seg_names_def filter_id_conv)

lemma is_absolute_render: "is_absolute (render_location l)"
  by (cases l) (auto simp: render_location_def is_absolute_def is_sep_def)

lemma render_literal:
  assumes "list_all valid_name l"
  shows "literal_path (render_location l)" and "path_loc (render_location l) = l"
  using assms is_absolute_render [of l] seg_names_id [of l]
  by (auto simp: literal_path_def path_loc_def path_segs_render valid_name_def list_all_iff)

text \<open>Joining names.\<close>

lemma join_literal:
  assumes "literal_path p" and "\<not> is_absolute r" and "''..'' \<notin> set (path_segs r)"
  shows "literal_path (path_join p r)" and "path_loc (path_join p r) = path_loc p @ seg_names (path_segs r)"
proof -
  from assms have "path_components (path_join p r) = path_components p @ seg_components (path_segs r)"
    by (simp add: path_components_join literal_path_def)
  with assms have c: "path_components (path_join p r) = RootDir # map Normal (path_loc p @ seg_names (path_segs r))"
    by (simp add: path_components_literal seg_components_names)
  have abs: "is_absolute (path_join p r)" using assms by (simp add: is_absolute_join literal_path_def)
  then have c': "path_components (path_join p r) = RootDir # seg_components (path_segs (path_join p r))"
    by (rule path_components_abs)
  have "ParentDir \<notin> set (path_components (path_join p r))" unfolding c by auto
  with c' have nd: "''..'' \<notin> set (path_segs (path_join p r))"
    by (simp add: ParentDir_in_seg_components)
  with abs show "literal_path (path_join p r)" by (simp add: literal_path_def)
  from c c' nd have "map Normal (path_loc (path_join p r)) = map Normal (path_loc p @ seg_names (path_segs r))"
    by (simp add: seg_components_names path_loc_def)
  then show "path_loc (path_join p r) = path_loc p @ seg_names (path_segs r)"
    by (metis component.inject injI map_injective)
qed

text \<open>The parent of a literal path spells the parent location.\<close>

lemma seg_names_trim: "seg_names (trim_tail ws) = seg_names ws"
proof -
  have "filter P (dropWhile (\<lambda>w. \<not> P w) xs) = filter P xs" for P and xs :: "string list"
    by (induction xs) auto
  from this [of "\<lambda>w. w \<noteq> [] \<and> w \<noteq> ''.''" "rev ws"] show ?thesis
    by (simp add: seg_names_def trim_tail_def rev_filter [symmetric])
qed

lemma trim_tail_last: "trim_tail ws \<noteq> [] \<Longrightarrow> last (trim_tail ws) \<noteq> [] \<and> last (trim_tail ws) \<noteq> ''.''"
  using hd_dropWhile [of "\<lambda>w. w = [] \<or> w = ''.''" "rev ws"]
  by (auto simp: trim_tail_def last_rev)

lemma trim_tail_Nil: "trim_tail ws = [] \<longleftrightarrow> seg_names ws = []"
  by (auto simp: trim_tail_def seg_names_def filter_empty_conv)

lemma set_trim_tail: "set (trim_tail ws) \<subseteq> set ws"
  using set_dropWhileD [of _ _ "rev ws"] by (auto simp: trim_tail_def)

lemma parent_literal:
  assumes "literal_path p"
  shows "path_parent p = None \<longleftrightarrow> path_loc p = []"
    and "path_parent p = Some q \<Longrightarrow> literal_path q \<and> path_loc q = butlast (path_loc p) \<and>
      (path_loc q = [] \<longrightarrow> q = ''/'') \<and> (path_loc q \<noteq> [] \<longrightarrow> last (path_segs q) = last (path_loc q))"
proof -
  obtain ws where ws: "path_segs p = [] # ws" "path_loc p = seg_names ws"
    using assms path_loc_segs by (auto simp: literal_path_def)
  define t where "t = trim_tail ws"
  define r where "r = trim_tail (butlast t)"
  have parent: "path_parent p = (if t = [] then None else if r = [] then Some ''/'' else Some (join_with ''/'' ([] # r)))"
    using assms ws by (simp add: path_parent_def Let_def t_def r_def literal_path_def)
  then show "path_parent p = None \<longleftrightarrow> path_loc p = []"
    by (auto simp: t_def trim_tail_Nil ws)
  have sub: "set r \<subseteq> set ws"
    using set_trim_tail [of ws] set_trim_tail [of "butlast t"] by (auto simp: t_def r_def dest: in_set_butlastD)
  have names: "seg_names r = butlast (seg_names ws)" if "t \<noteq> []"
  proof -
    from that trim_tail_last [of ws] have "seg_names t = seg_names (butlast t) @ [last t]"
      using append_butlast_last_id [of t] seg_names_simps(4) [of "butlast t" "[last t]"]
      by (auto simp: t_def seg_names_Cons)
    then show ?thesis by (simp add: r_def seg_names_trim t_def butlast_append)
  qed
  have segs: "path_segs (join_with ''/'' ([] # r)) = [] # r"
    using sub ws path_segs_no_sep [of _ p] by (intro path_segs_join_with) auto
  have abs: "is_absolute (join_with ''/'' ([] # r))" if "r \<noteq> []"
    using that by (cases r) (auto simp: is_absolute_def is_sep_def)
  assume q: "path_parent p = Some q"
  show "literal_path q \<and> path_loc q = butlast (path_loc p) \<and>
      (path_loc q = [] \<longrightarrow> q = ''/'') \<and> (path_loc q \<noteq> [] \<longrightarrow> last (path_segs q) = last (path_loc q))"
  proof (cases "r = []")
    case True
    with q parent names ws show ?thesis
      by (auto simp: literal_path_def path_loc_def path_segs_def is_absolute_def is_sep_def split: if_splits)
  next
    case False
    with q parent have q': "q = join_with ''/'' ([] # r)" and t: "t \<noteq> []" by (auto split: if_splits)
    have lst: "last r \<noteq> []" "last r \<noteq> ''.''" using False trim_tail_last [of "butlast t"] by (auto simp: r_def)
    then have "seg_names r = seg_names (butlast r) @ [last r]"
      using append_butlast_last_id [OF False] seg_names_simps(4) [of "butlast r" "[last r]"]
      by (auto simp: seg_names_Cons)
    then show ?thesis
      using abs [OF False] sub ws assms names [OF t] segs q' False
      by (auto simp: literal_path_def path_loc_def)
  qed
qed

end
