(* ===== verification/Fs_Calls.thy ===== *)
theory Fs_Calls
  imports Fs_Walk
begin

text \<open>
  What single file system calls do to a tree: they keep it a tree, lookups of literal paths land
  where the path says, and each call changes one location at most. A path that leads through a
  dangling link can neither be looked up nor created.
\<close>

section \<open>Trees stay trees\<close>

lemma fs_ok_add:
  assumes ok: "fs_ok N" and d: "is_dir_at N d" and c: "valid_name c" and leaf: "\<not> is_dir_at N (d @ [c])"
    and nd: "case nd of Symlink t \<Rightarrow> CHR 0x00 \<notin> set t | _ \<Rightarrow> True"
  shows "fs_ok (N(d @ [c] \<mapsto> nd))"
proof -
  have dir: "is_dir_at (N(d @ [c] \<mapsto> nd)) l" if "is_dir_at N l" for l
    using that leaf by (auto simp: is_dir_at_def)
  have names: "list_all valid_name d" using ok d by (auto dest!: is_dir_at_Some dest: fs_okD(1))
  have "node_ok (N(d @ [c] \<mapsto> nd)) l x" if "(N(d @ [c] \<mapsto> nd)) l = Some x" for l x
  proof (cases "l = d @ [c]")
    case True
    with that dir [OF d] names c nd show ?thesis by (simp add: node_ok_def)
  next
    case False
    with that have "node_ok N l x" using ok by (simp add: fs_ok_def)
    with dir show ?thesis by (auto simp: node_ok_def split: if_splits)
  qed
  with ok dir show ?thesis by (simp add: fs_ok_def)
qed

lemma fs_ok_remove:
  assumes ok: "fs_ok N" and leaf: "\<not> is_dir_at N l"
  shows "fs_ok (N(l := None))"
proof -
  have dir: "is_dir_at (N(l := None)) k" if "is_dir_at N k" for k
    using that leaf by (auto simp: is_dir_at_def)
  have "node_ok (N(l := None)) k x" if "(N(l := None)) k = Some x" for k x
  proof -
    from that have "node_ok N k x" using ok by (auto simp: fs_ok_def split: if_splits)
    with dir show ?thesis by (auto simp: node_ok_def split: if_splits)
  qed
  with ok dir show ?thesis by (simp add: fs_ok_def)
qed

lemma fs_ok_chmod:
  assumes ok: "fs_ok N"
  shows "fs_ok (N(l := map_option (chmod_node m) (N l)))"
proof -
  have dir: "is_dir_at (N(l := map_option (chmod_node m) (N l))) k = is_dir_at N k" for k
    by (auto simp: is_dir_at_def chmod_node_def split: option.splits fs_node.splits)
  have "node_ok (N(l := map_option (chmod_node m) (N l))) k x"
    if "(N(l := map_option (chmod_node m) (N l))) k = Some x" for k x
  proof (cases "k = l")
    case True
    with that obtain nd where nd: "N l = Some nd" "x = chmod_node m nd" by auto
    with ok have "node_ok N l nd" by (simp add: fs_ok_def)
    with nd True dir show ?thesis by (auto simp: node_ok_def chmod_node_def split: fs_node.splits if_splits)
  next
    case False
    with that have "node_ok N k x" using ok by (simp add: fs_ok_def)
    with dir show ?thesis by (auto simp: node_ok_def split: if_splits)
  qed
  with ok dir show ?thesis by (simp add: fs_ok_def)
qed

section \<open>Lookups of literal paths\<close>

lemma is_link_at_Some: "is_link_at N q \<Longrightarrow> \<exists>t. N q = Some (Symlink t)"
  by (auto simp: is_link_at_def split: option.splits fs_node.splits)

lemma link_exists: "is_link_at N q \<Longrightarrow> N q \<noteq> None"
  by (auto dest: is_link_at_Some)

lemma link_not_root: "fs_ok N \<Longrightarrow> is_link_at N q \<Longrightarrow> q \<noteq> []"
  by (metis fs_ok_root is_dir_not_link)

lemma last_not_in: "c \<notin> set xs \<Longrightarrow> xs \<noteq> [] \<Longrightarrow> last xs \<noteq> c"
  using last_in_set [of xs] by metis

lemma fs_lookup_literal:
  "literal_path p \<Longrightarrow> fs_lookup s f p =
     (if CHR 0x00 \<in> set p then Bad einval_nul else fs_walk max_links (fs_nodes s) f [] (path_segs p))"
  by (auto simp: fs_lookup_def literal_path_def is_absolute_not_Nil)

lemma lookup_lands:
  "literal_path p \<Longrightarrow> link_free (fs_nodes s) (path_loc p) \<Longrightarrow> lands (fs_lookup s f p) (path_loc p)"
  using fs_walk_link_free [of "fs_nodes s" "[]" "path_segs p" max_links f]
  by (simp add: fs_lookup_literal literal_path_def path_loc_def)

lemma lookup_lands_last:
  assumes p: "literal_path p" and free: "link_free (fs_nodes s) (butlast (path_loc p))"
    and name: "last (path_segs p) \<noteq> []" "last (path_segs p) \<noteq> ''.''"
  shows "lands (fs_lookup s False p) (path_loc p)"
proof -
  define xs where "xs = butlast (path_segs p)"
  have segs: "path_segs p = xs @ [last (path_segs p)]" by (simp add: xs_def)
  then have loc: "path_loc p = seg_names xs @ [last (path_segs p)]"
    using name seg_names_simps(4) [of xs "[last (path_segs p)]"] by (simp add: path_loc_def seg_names_Cons)
  from p have "''..'' \<notin> set (path_segs p)" by (simp add: literal_path_def)
  then have "''..'' \<notin> set xs" "last (path_segs p) \<noteq> ''..''"
    using last_not_in [of _ "path_segs p"] by (auto simp: xs_def dest: in_set_butlastD)
  then have "lands (fs_walk max_links (fs_nodes s) False [] (path_segs p)) (path_loc p)"
    using fs_walk_link_free_last [of "fs_nodes s" "[]" xs "last (path_segs p)" max_links] name free loc segs
    by (metis append_Nil butlast_snoc)
  with p show ?thesis by (simp add: fs_lookup_literal)
qed

lemma lookup_result:
  assumes "fs_ok (fs_nodes s)" and "literal_path p"
  shows "case fs_lookup s f p of
           Found l \<Rightarrow> fs_nodes s l \<noteq> None \<and> (f \<longrightarrow> \<not> is_link_at (fs_nodes s) l)
         | Absent l \<Rightarrow> fs_nodes s l = None \<and> (\<exists>d c. l = d @ [c] \<and> is_dir_at (fs_nodes s) d \<and> valid_name c)
         | Bad e \<Rightarrow> True"
proof (cases "CHR 0x00 \<in> set p")
  case False
  from fs_ok_root [OF assms(1)] have "fs_nodes s [] \<noteq> None" "\<not> is_link_at (fs_nodes s) []"
    by (auto dest!: is_dir_at_Some simp: is_link_at_def)
  with fs_walk_result [OF assms(1) this plain_segs [OF False], where n = max_links and f = f] False assms(2)
  show ?thesis by (simp add: fs_lookup_literal)
qed (simp add: fs_lookup_literal assms)

lemma walk_root: "fs_ok N \<Longrightarrow> fs_walk n N f [] ([] # q) = fs_walk n N f [] q"
  by (simp add: fs_ok_root)

lemma lookup_render:
  "fs_ok (fs_nodes s) \<Longrightarrow> list_all valid_name q \<Longrightarrow> q \<noteq> [] \<Longrightarrow>
     fs_lookup s f (render_location q) = fs_walk max_links (fs_nodes s) f [] q"
proof -
  assume ok: "fs_ok (fs_nodes s)" and q: "list_all valid_name q" "q \<noteq> []"
  then have "CHR 0x00 \<notin> set (render_location q)"
    by (auto simp: render_location_def valid_name_def list_all_iff)
  with render_literal(1) [OF q(1)] path_segs_render [OF q(1)] q(2) walk_root [OF ok] show ?thesis
    by (simp only: fs_lookup_literal if_False)
qed

text \<open>The only way past a link is through it.\<close>

lemma seg_names_split:
  assumes "prefix q (seg_names ws)" and "q \<noteq> []"
  shows "\<exists>xs ys. ws = xs @ ys \<and> seg_names xs = q \<and> last xs = last q \<and> xs \<noteq> []"
  using assms
proof (induction ws arbitrary: q)
  case (Cons w ws)
  show ?case
  proof (cases "w = [] \<or> w = ''.''")
    case True
    then have "seg_names (w # ws) = seg_names ws" by auto
    with Cons obtain xs ys where "ws = xs @ ys" "seg_names xs = q" "last xs = last q" "xs \<noteq> []"
      by metis
    with True show ?thesis by (intro exI [of _ "w # xs"] exI [of _ ys]) (auto simp: seg_names_Cons)
  next
    case False
    with Cons.prems obtain q' where q: "q = w # q'" "prefix q' (seg_names ws)"
      by (cases q) (auto simp: seg_names_Cons)
    show ?thesis
    proof (cases "q' = []")
      case True
      with q False show ?thesis by (intro exI [of _ "[w]"] exI [of _ ws]) (auto simp: seg_names_Cons)
    next
      case False
      with Cons.IH q(2) obtain xs ys where "ws = xs @ ys" "seg_names xs = q'" "last xs = last q'" "xs \<noteq> []"
        by blast
      with q False \<open>\<not> (w = [] \<or> w = ''.'')\<close> show ?thesis
        by (intro exI [of _ "w # xs"] exI [of _ ys]) (auto simp: seg_names_Cons)
    qed
  qed
qed simp

definition dangling :: "(location \<Rightarrow> fs_node option) \<Rightarrow> location \<Rightarrow> bool" where
  "dangling N q \<longleftrightarrow> (\<forall>l. fs_walk max_links N True [] q \<noteq> Found l)"

lemma walk_dangling:
  assumes "dangling N q" and "q \<noteq> []" and "prefix q (seg_names ws)"
    and "f \<or> q \<noteq> seg_names ws \<or> last ws \<noteq> last q"
  shows "\<exists>e. fs_walk max_links N f [] ws = Bad e \<or> (f \<and> (\<exists>l. fs_walk max_links N f [] ws = Absent l))"
proof (rule ccontr)
  assume contra: "\<not> ?thesis"
  from seg_names_split [OF assms(3,2)] obtain xs ys
    where ws: "ws = xs @ ys" "seg_names xs = q" "last xs = last q" "xs \<noteq> []" by blast
  have "\<exists>l. fs_walk max_links N True [] xs = Found l"
  proof (cases "ys = []")
    case True
    with ws assms(4) have f by auto
    with contra ws True show ?thesis
      by (cases "fs_walk max_links N True [] xs") auto
  next
    case False
    from contra have "\<forall>e. fs_walk max_links N f [] (xs @ ys) \<noteq> Bad e" using ws by blast
    from fs_walk_append [OF False this] show ?thesis by blast
  qed
  then obtain l where "fs_walk max_links N True [] xs = Found l" by blast
  from fs_walk_drops [OF drops_seg_names this] ws(2) assms(1) show False by (simp add: dangling_def)
qed

lemma valid_name_hd: "valid_name c \<Longrightarrow> c \<noteq> [] \<and> hd c \<noteq> CHR ''/''"
  by (cases c) (auto simp: valid_name_def)

lemma render_push: "c \<noteq> [] \<Longrightarrow> hd c \<noteq> CHR ''/'' \<Longrightarrow> list_all valid_name l \<Longrightarrow>
    path_join (render_location l) c = render_location (l @ [c])"
proof -
  assume "c \<noteq> []" "hd c \<noteq> CHR ''/''" and l: "list_all valid_name l"
  then have rel: "\<not> is_absolute c" by (cases c) (auto simp: is_absolute_def is_sep_def)
  show ?thesis
  proof (cases l rule: rev_cases)
    case Nil
    with rel show ?thesis by (simp add: path_join_def render_location_def is_sep_def)
  next
    case (snoc k d)
    with l have "d \<noteq> []" "CHR ''/'' \<notin> set d" by (auto simp: valid_name_def)
    then have "last (render_location l) = last d" "\<not> is_sep (last d)"
      using last_not_in [of "CHR ''/''" d] by (auto simp: snoc render_location_def is_sep_def)
    moreover have "render_location l \<noteq> []" by (cases l) (auto simp: render_location_def)
    ultimately show ?thesis using rel snoc by (simp add: path_join_def render_location_def)
  qed
qed

text \<open>Without a link in the way, an entry is found however the path is dotted.\<close>

lemma named_tail:
  assumes "cs \<noteq> []" and "c \<noteq> []" and "c \<noteq> ''.''" and "last cs = c"
  shows "seg_names cs \<noteq> []"
proof -
  have "c \<in> set (seg_names cs)" using assms last_in_set [of cs] by (simp add: set_seg_names)
  then show ?thesis by auto
qed

lemma fs_walk_dots_Found:
  "(\<forall>q. strict_prefix q (seg_names segs) \<longrightarrow> is_dir_at N (cur @ q)) \<Longrightarrow> is_dir_at N cur \<Longrightarrow>
     N (cur @ seg_names segs) \<noteq> None \<Longrightarrow> \<not> is_link_at N (cur @ seg_names segs) \<Longrightarrow> ''..'' \<notin> set segs \<Longrightarrow>
     seg_names segs = [] \<or> last segs = last (seg_names segs) \<Longrightarrow>
     fs_walk n N f cur segs = Found (cur @ seg_names segs)"
proof (induction segs arbitrary: cur)
  case (Cons c cs)
  show ?case
  proof (cases "c = [] \<or> c = ''.''")
    case True
    then have eq: "seg_names (c # cs) = seg_names cs" by auto
    have last: "seg_names cs = [] \<or> last cs = last (seg_names cs)"
      using Cons.prems(6) unfolding eq by (cases cs) auto
    have "fs_walk n N f cur cs = Found (cur @ seg_names cs)"
      using Cons.prems unfolding eq by (intro Cons.IH last) auto
    with True Cons.prems(2) eq show ?thesis by simp
  next
    case False
    then have eq: "seg_names (c # cs) = c # seg_names cs" by (simp add: seg_names_Cons)
    have c: "c \<noteq> []" "c \<noteq> ''.''" "c \<noteq> ''..''" using False Cons.prems(5) by auto
    show ?thesis
    proof (cases "cs = []")
      case True
      with Cons.prems(2,3,4) eq c show ?thesis
        by (auto simp: is_link_at_def split: option.splits fs_node.splits)
    next
      case cs: False
      have "seg_names cs \<noteq> []"
        using named_tail [OF cs c(1,2)] Cons.prems(6) eq cs by auto
      then have "strict_prefix [c] (seg_names (c # cs))" unfolding eq by (simp add: strict_prefix_def)
      with Cons.prems(1) have dir: "is_dir_at N (cur @ [c])" by blast
      obtain m where nd: "N (cur @ [c]) = Some (Directory m)" using is_dir_at_Some [OF dir] by blast
      have "fs_walk n N f (cur @ [c]) cs = Found ((cur @ [c]) @ seg_names cs)"
      proof (rule Cons.IH [OF _ dir])
        show "\<forall>q. strict_prefix q (seg_names cs) \<longrightarrow> is_dir_at N ((cur @ [c]) @ q)"
        proof (intro allI impI)
          fix q assume "strict_prefix q (seg_names cs)"
          then have "strict_prefix (c # q) (seg_names (c # cs))" unfolding eq by simp
          with Cons.prems(1) have "is_dir_at N (cur @ c # q)" by blast
          then show "is_dir_at N ((cur @ [c]) @ q)" by simp
        qed
        show "seg_names cs = [] \<or> last cs = last (seg_names cs)"
          using Cons.prems(6) eq cs by auto
      qed (use Cons.prems eq in auto)
      with fs_walk_enter [OF Cons.prems(2) c nd, of n f cs] eq show ?thesis by simp
    qed
  qed
qed simp

lemma segs_NUL: "CHR 0x00 \<in> set p \<Longrightarrow> \<exists>w \<in> set (path_segs p). CHR 0x00 \<in> set w"
proof -
  have "set (join_with ''/'' ws) \<subseteq> {CHR ''/''} \<union> \<Union> (set ` set ws)" for ws
    by (induction "''/''" ws rule: join_with.induct) auto
  from this [of "path_segs p"] show "CHR 0x00 \<in> set p \<Longrightarrow> ?thesis"
    unfolding join_path_segs by auto
qed

lemma lookup_Found:
  assumes ok: "fs_ok (fs_nodes s)" and p: "literal_path p" and ex: "fs_nodes s (path_loc p) \<noteq> None"
    and nl: "\<not> is_link_at (fs_nodes s) (path_loc p)"
    and last: "path_loc p = [] \<or> last (path_segs p) = last (path_loc p)"
  shows "fs_lookup s f p = Found (path_loc p)"
proof -
  obtain nd where "fs_nodes s (path_loc p) = Some nd" using ex by blast
  from fs_okD(1) [OF ok this] have names: "list_all valid_name (path_loc p)" .
  have "CHR 0x00 \<notin> set p"
  proof
    assume "CHR 0x00 \<in> set p"
    then obtain w where w: "w \<in> set (path_segs p)" "CHR 0x00 \<in> set w" using segs_NUL by blast
    then have "w \<in> set (path_loc p)" by (auto simp: path_loc_def set_seg_names)
    with names w(2) show False by (auto simp: list_all_iff valid_name_def)
  qed
  moreover have "fs_walk max_links (fs_nodes s) f [] (path_segs p) = Found ([] @ path_loc p)"
    unfolding path_loc_def
  proof (rule fs_walk_dots_Found)
    show "\<forall>q. strict_prefix q (seg_names (path_segs p)) \<longrightarrow> is_dir_at (fs_nodes s) ([] @ q)"
      using fs_ok_strict_prefix [OF ok ex] by (simp add: path_loc_def)
  qed (use ok ex nl last p in \<open>auto simp: path_loc_def literal_path_def fs_ok_root\<close>)
  ultimately show ?thesis using p by (simp add: fs_lookup_literal)
qed

section \<open>Single calls\<close>

text \<open>The environment of the tree never changes.\<close>

definition same_env :: "fs_state \<Rightarrow> fs_state \<Rightarrow> bool" where
  "same_env s s' \<longleftrightarrow> s' = s\<lparr>fs_nodes := fs_nodes s'\<rparr>"

lemma same_env_refl [simp]: "same_env s s"
  by (simp add: same_env_def)

lemma same_env_trans [trans]: "same_env s s1 \<Longrightarrow> same_env s1 s2 \<Longrightarrow> same_env s s2"
  by (cases s; cases s1; cases s2) (simp add: same_env_def)

lemma same_env_set_node [simp]: "same_env s (set_node l n s)"
  by (simp add: same_env_def set_node_def)

lemma same_env_fault: "same_env s s' \<Longrightarrow> fs_fault s' = fs_fault s"
  by (cases s; cases s') (simp add: same_env_def)

lemma fs_nodes_set_node [simp]: "fs_nodes (set_node l n s) = (fs_nodes s)(l := n)"
  by (simp add: set_node_def)

text \<open>New directories on the way to \<open>L\<close>, and nothing else.\<close>

definition grown :: "(location \<Rightarrow> fs_node option) \<Rightarrow> (location \<Rightarrow> fs_node option) \<Rightarrow> location \<Rightarrow> bool" where
  "grown N N' L \<longleftrightarrow> (\<forall>l. N' l = N l \<or> (prefix l L \<and> N l = None \<and> is_dir_at N' l))"

lemma grown_refl [simp]: "grown N N L"
  by (simp add: grown_def)

lemma grown_trans: "grown N N1 L \<Longrightarrow> grown N1 N2 L \<Longrightarrow> grown N N2 L"
  unfolding grown_def by (metis is_dir_at_def)

lemma grown_link: "grown N N' L \<Longrightarrow> is_link_at N' q \<longleftrightarrow> is_link_at N q"
  unfolding grown_def is_link_at_def
  by (metis is_dir_at_Some option.distinct(1) option.simps(4) option.simps(5) fs_node.simps(11))

lemma grown_link_free: "grown N N' L \<Longrightarrow> link_free N' l \<longleftrightarrow> link_free N l"
  by (simp add: link_free_def grown_link)

lemma mkdir_grown:
  assumes ok: "fs_ok (fs_nodes s)" and q: "literal_path q" and free: "link_free (fs_nodes s) (path_loc q)"
    and eq: "fs_mkdir s q = (s1, r)"
  shows "same_env s s1 \<and> fs_ok (fs_nodes s1) \<and> grown (fs_nodes s) (fs_nodes s1) (path_loc q)"
proof (cases "\<exists>l. fs_lookup s False q = Absent l \<and> fs_fault s OpMkdir q = None")
  case True
  then obtain l where l: "fs_lookup s False q = Absent l" and nf: "fs_fault s OpMkdir q = None" by blast
  with lookup_lands [OF q free, of False] have loc: "l = path_loc q" by simp
  from lookup_result [OF ok q, of False] l obtain d c
    where new: "fs_nodes s l = None" "l = d @ [c]" "is_dir_at (fs_nodes s) d" "valid_name c" by auto
  from eq l nf have s1: "s1 = set_node l (Some (Directory (fs_dir_mode s))) s" by (simp add: fs_mkdir_def)
  have "\<not> is_dir_at (fs_nodes s) (d @ [c])" using new by (simp add: is_dir_at_def)
  from fs_ok_add [OF ok new(3,4) this, of "Directory (fs_dir_mode s)"] new(2)
  have "fs_ok (fs_nodes s1)" by (simp add: s1)
  moreover have "grown (fs_nodes s) (fs_nodes s1) (path_loc q)"
    using new(1) loc by (auto simp: s1 grown_def is_dir_at_def)
  ultimately show ?thesis by (simp add: s1)
next
  case False
  with eq have "s1 = s" by (auto simp: fs_mkdir_def split: option.splits fs_lookup.splits)
  with ok show ?thesis by simp
qed

lemma create_dir_all_grown:
  "fs_ok (fs_nodes s) \<Longrightarrow> literal_path q \<Longrightarrow> link_free (fs_nodes s) (path_loc q) \<Longrightarrow>
     fs_create_dir_all s q = (s1, r) \<Longrightarrow>
     same_env s s1 \<and> fs_ok (fs_nodes s1) \<and> grown (fs_nodes s) (fs_nodes s1) (path_loc q)"
proof (induction s q arbitrary: s1 r rule: fs_create_dir_all.induct)
  case (1 s q)
  note ok = "1.prems"(1) and q = "1.prems"(2) and free = "1.prems"(3)
  obtain sm rm where m: "fs_mkdir s q = (sm, rm)" by (cases "fs_mkdir s q")
  note M = mkdir_grown [OF ok q free m]
  from M have okm: "fs_ok (fs_nodes sm)" and envm: "same_env s sm"
    and gm: "grown (fs_nodes s) (fs_nodes sm) (path_loc q)" by blast+
  have ne: "q \<noteq> []" using q by (auto simp: literal_path_def is_absolute_not_Nil)
  show ?case
  proof (cases "\<exists>p. rm = Inl enoent \<and> path_parent q = Some p")
    case False
    have "s1 = sm"
      using "1.prems"(4) ne m False
      by (subst (asm) fs_create_dir_all.simps) (auto split: sum.splits if_splits option.splits)
    with M show ?thesis by simp
  next
    case True
    then obtain p where rm: "rm = Inl enoent" and p: "path_parent q = Some p" by blast
    from parent_literal(2) [OF q p] have pl: "literal_path p" "path_loc p = butlast (path_loc q)" by blast+
    then have pre: "prefix (path_loc p) (path_loc q)" by (simp add: prefixeq_butlast)
    have freem: "link_free (fs_nodes sm) (path_loc q)" using gm free grown_link_free by blast
    obtain sc rc where c: "fs_create_dir_all sm p = (sc, rc)" by (cases "fs_create_dir_all sm p")
    from "1.IH" [OF ne m [symmetric] rm _ p okm pl(1) link_free_prefix [OF freem pre] c]
    have C: "same_env sm sc" "fs_ok (fs_nodes sc)" "grown (fs_nodes sm) (fs_nodes sc) (path_loc p)" by auto
    have gc: "grown (fs_nodes sm) (fs_nodes sc) (path_loc q)"
      using C(3) pre unfolding grown_def by (meson prefix_order.trans)
    obtain s3 r3 where m3: "fs_mkdir sc q = (s3, r3)" by (cases "fs_mkdir sc q")
    have "link_free (fs_nodes sc) (path_loc q)" using gc freem grown_link_free by blast
    note M3 = mkdir_grown [OF C(2) q this m3]
    have "s1 = sc \<or> s1 = s3"
      using "1.prems"(4) ne m rm p c m3
      by (subst (asm) fs_create_dir_all.simps) (auto split: sum.splits if_splits option.splits)
    with M3 C gc gm envm show ?thesis by (blast intro: same_env_trans grown_trans)
  qed
qed

section \<open>Calls that change one location\<close>

lemma fs_write_at:
  assumes ok: "fs_ok (fs_nodes s)" and p: "literal_path p" and free: "link_free (fs_nodes s) (path_loc p)"
    and eq: "fs_write s p d = (s1, r)"
  shows "same_env s s1 \<and> fs_ok (fs_nodes s1) \<and> (\<forall>l. l \<noteq> path_loc p \<longrightarrow> fs_nodes s1 l = fs_nodes s l) \<and>
     (is_ok r \<longrightarrow> (\<exists>m. fs_nodes s1 (path_loc p) = Some (RegFile d m))) \<and>
     (s1 = s \<or> (\<exists>k m. fs_nodes s1 (path_loc p) = Some (RegFile (take k d) m)))"
proof (cases "fs_write_loc s p")
  case (Inl e)
  with eq ok show ?thesis by (auto simp: fs_write_def is_ok_def)
next
  case (Inr l)
  have isf: "l = path_loc p \<and> (\<exists>x m. fs_nodes s l = Some (RegFile x m) \<or>
      (fs_nodes s l = None \<and> (\<exists>d c. l = d @ [c] \<and> is_dir_at (fs_nodes s) d \<and> valid_name c)))"
    using Inr lookup_lands [OF p free, of True] lookup_result [OF ok p, of True]
    by (auto simp: fs_write_loc_def split: option.splits fs_lookup.splits fs_node.splits)
  have okf: "fs_ok ((fs_nodes s)(l \<mapsto> RegFile x m))" for x m
  proof -
    have "\<not> is_dir_at (fs_nodes s) l" using isf by (auto simp: is_dir_at_def)
    moreover have "\<exists>d c. l = d @ [c] \<and> is_dir_at (fs_nodes s) d \<and> valid_name c"
    proof (cases l rule: rev_cases)
      case Nil
      with \<open>\<not> is_dir_at (fs_nodes s) l\<close> fs_ok_root [OF ok] show ?thesis by simp
    next
      case (snoc d c)
      have "is_dir_at (fs_nodes s) d \<and> valid_name c"
        using conjunct2 [OF isf] fs_okD(1,2) [OF ok, of l] unfolding snoc
        by (cases "fs_nodes s (d @ [c])") auto
      with snoc show ?thesis by blast
    qed
    ultimately show ?thesis using fs_ok_add [OF ok, of _ _ "RegFile x m"] by auto
  qed
  have "\<exists>k m. s1 = set_node l (Some (RegFile (take k d) m)) s \<and> (is_ok r \<longrightarrow> take k d = d)"
  proof (cases "fs_fault s OpWrite p")
    case None
    with eq Inr have "s1 = set_node l (Some (file_with s l (take (length d) d))) s" by (simp add: fs_write_def)
    then show ?thesis unfolding file_with_def by (intro exI conjI) (assumption, simp)
  next
    case (Some e)
    with eq Inr have "s1 = set_node l (Some (file_with s l (take (unwrap_or 0 (fs_short_write s p)) d))) s"
      "r = Inl e" by (simp_all add: fs_write_def)
    then show ?thesis unfolding file_with_def by (intro exI conjI) (assumption, simp add: is_ok_def)
  qed
  then obtain k m where "s1 = set_node l (Some (RegFile (take k d) m)) s" "is_ok r \<longrightarrow> take k d = d" by blast
  with okf isf show ?thesis by auto
qed

lemma fs_set_permissions_at:
  assumes ok: "fs_ok (fs_nodes s)" and p: "literal_path p" and free: "link_free (fs_nodes s) (path_loc p)"
    and eq: "fs_set_permissions s p m = (s1, r)"
  shows "same_env s s1 \<and> fs_ok (fs_nodes s1) \<and> (\<forall>l. l \<noteq> path_loc p \<longrightarrow> fs_nodes s1 l = fs_nodes s l) \<and>
     (\<forall>d n. fs_nodes s (path_loc p) = Some (RegFile d n) \<longrightarrow> (\<exists>n'. fs_nodes s1 (path_loc p) = Some (RegFile d n')))"
proof (cases "\<exists>l. fs_lookup s True p = Found l \<and> fs_fault s OpChmod p = None")
  case True
  then obtain l where l: "fs_lookup s True p = Found l" "fs_fault s OpChmod p = None" by blast
  with lookup_lands [OF p free, of True] have "l = path_loc p" by simp
  moreover from eq l have "s1 = set_node l (map_option (chmod_node m) (fs_nodes s l)) s"
    by (simp add: fs_set_permissions_def)
  ultimately show ?thesis using fs_ok_chmod [OF ok] by (auto simp: chmod_node_def)
next
  case False
  with eq have "s1 = s" by (auto simp: fs_set_permissions_def split: option.splits fs_lookup.splits)
  with ok show ?thesis by simp
qed

lemma fs_remove_file_at:
  assumes ok: "fs_ok (fs_nodes s)" and lands: "lands (fs_lookup s False p) L"
    and eq: "fs_remove_file s p = (s1, r)"
  shows "same_env s s1 \<and> fs_ok (fs_nodes s1) \<and> (\<forall>l. l \<noteq> L \<longrightarrow> fs_nodes s1 l = fs_nodes s l)"
proof (cases "s1 = s")
  case False
  with eq lands have "s1 = set_node L None s" "\<not> is_dir_at (fs_nodes s) L"
    by (auto simp: fs_remove_file_def split: option.splits fs_lookup.splits if_splits)
  with fs_ok_remove [OF ok] show ?thesis by simp
qed (simp add: ok)

lemma fs_rename_at:
  assumes ok: "fs_ok (fs_nodes s)" and a: "literal_path a" and b: "literal_path b" and ne: "path_loc a \<noteq> path_loc b"
    and lands: "lands (fs_lookup s False a) (path_loc a)" "lands (fs_lookup s False b) (path_loc b)"
    and leaf: "\<not> is_dir_at (fs_nodes s) (path_loc a)"
    and eq: "fs_rename s a b = (s1, r)"
  shows "same_env s s1 \<and> fs_ok (fs_nodes s1) \<and>
     (case r of Inl e \<Rightarrow> s1 = s
      | Inr u \<Rightarrow> fs_nodes s1 = (fs_nodes s)(path_loc b := fs_nodes s (path_loc a), path_loc a := None) \<and>
                 fs_nodes s (path_loc a) \<noteq> None)"
proof (cases r)
  case (Inl e)
  with eq have "s1 = s" by (auto simp: fs_rename_def split: option.splits fs_lookup.splits if_splits)
  with ok Inl show ?thesis by simp
next
  case (Inr u)
  let ?N = "fs_nodes s" and ?a = "path_loc a" and ?b = "path_loc b"
  from eq Inr lands ne leaf have s1: "s1 = set_node ?a None (set_node ?b (?N ?a) s)"
    and fa: "fs_lookup s False a = Found ?a" and nb: "\<not> is_dir_at ?N ?b"
    and fb: "fs_lookup s False b = Found ?b \<or> fs_lookup s False b = Absent ?b"
    using lookup_result [OF ok b, of False]
    by (auto simp: fs_rename_def is_dir_at_def split: option.splits fs_lookup.splits if_splits fs_node.splits)
  from lookup_result [OF ok a, of False] fa obtain nd where nd: "?N ?a = Some nd" by auto
  from nb fs_ok_root [OF ok] have "?b \<noteq> []" by auto
  then obtain d c where dc: "?b = d @ [c]" by (metis rev_exhaust)
  have dir: "is_dir_at ?N d \<and> valid_name c"
  proof (cases "?N ?b")
    case None
    with fb lookup_result [OF ok b, of False] dc show ?thesis by auto
  next
    case (Some x)
    with fs_okD(1,2) [OF ok Some] dc show ?thesis by auto
  qed
  have "case nd of Symlink t \<Rightarrow> CHR 0x00 \<notin> set t | _ \<Rightarrow> True"
    using fs_okD(3) [OF ok nd] by (auto split: fs_node.splits)
  with fs_ok_add [OF ok _ _ _ this, of d c] dir nb dc have ok': "fs_ok (?N(?b \<mapsto> nd))" by simp
  have "\<not> is_dir_at (?N(?b \<mapsto> nd)) ?a" using leaf ne by (auto simp: is_dir_at_def)
  from fs_ok_remove [OF ok' this] show ?thesis
    using same_env_trans [OF same_env_set_node same_env_set_node] by (simp add: s1 nd Inr)
qed

section \<open>Behind a dangling link nothing can be made\<close>

lemma lookup_dangling:
  assumes "literal_path p" and "dangling (fs_nodes s) q" and "q \<noteq> []" and "prefix q (path_loc p)"
    and "f \<or> q \<noteq> path_loc p \<or> last (path_segs p) \<noteq> last q"
  shows "(\<forall>l. fs_lookup s f p \<noteq> Found l) \<and> (f \<or> (\<forall>l. fs_lookup s f p \<noteq> Absent l))"
proof (cases "CHR 0x00 \<in> set p")
  case False
  with assms(1) have "fs_lookup s f p = fs_walk max_links (fs_nodes s) f [] (path_segs p)"
    by (simp add: fs_lookup_literal)
  with walk_dangling [OF assms(2,3), of "path_segs p" f] assms(4,5) show ?thesis
    by (auto simp: path_loc_def)
qed (simp add: fs_lookup_literal assms)

lemma lookup_link_itself:
  assumes ok: "fs_ok (fs_nodes s)" and p: "literal_path p" and link: "is_link_at (fs_nodes s) (path_loc p)"
    and last: "last (path_segs p) = last (path_loc p)"
  shows "fs_lookup s False p \<noteq> Absent l"
proof
  assume absent: "fs_lookup s False p = Absent l"
  have ne: "path_loc p \<noteq> []" by (rule link_not_root [OF ok link])
  have "fs_nodes s (path_loc p) \<noteq> None" by (rule link_exists [OF link])
  then have "is_dir_at (fs_nodes s) (butlast (path_loc p))" using ok ne by (auto dest: fs_okD(2))
  then have "link_free (fs_nodes s) (butlast (path_loc p))"
    by (intro fs_ok_link_free [OF ok]) (auto dest: is_dir_at_Some is_dir_not_link)
  moreover have "last (path_segs p) \<noteq> []" "last (path_segs p) \<noteq> ''.''"
    using path_loc_names [of "last (path_loc p)" p] ne last by auto
  ultimately have "lands (fs_lookup s False p) (path_loc p)" by (rule lookup_lands_last [OF p])
  with absent lookup_result [OF ok p, of False] link show False by (auto simp: is_link_at_def)
qed

lemma lookup_dir_not_absent:
  assumes ok: "fs_ok (fs_nodes s)" and p: "literal_path p" and d: "is_dir_at (fs_nodes s) (path_loc p)"
  shows "fs_lookup s f p \<noteq> Absent l"
proof
  assume absent: "fs_lookup s f p = Absent l"
  have "link_free (fs_nodes s) (path_loc p)"
    using d by (intro fs_ok_link_free [OF ok]) (auto dest: is_dir_at_Some is_dir_not_link)
  from lookup_lands [OF p this, of f] absent lookup_result [OF ok p, of f] d show False
    by (auto simp: is_dir_at_def)
qed

lemma mkdir_blocked:
  assumes ok: "fs_ok (fs_nodes s)" and p: "literal_path p" and trimmed: "path_loc p \<noteq> [] \<longrightarrow> last (path_segs p) = last (path_loc p)"
    and q: "is_link_at (fs_nodes s) q" "dangling (fs_nodes s) q" and on_path: "prefix (path_loc p) L" "prefix q L"
  shows "fst (fs_mkdir s p) = s"
proof -
  have ne: "q \<noteq> []" by (rule link_not_root [OF ok q(1)])
  have "fs_lookup s False p \<noteq> Absent l" for l
  proof -
    from on_path consider "strict_prefix (path_loc p) q" | "path_loc p = q" | "strict_prefix q (path_loc p)"
      by (metis prefix_order.le_less prefix_same_cases)
    then show ?thesis
    proof cases
      case 1
      have "fs_nodes s q \<noteq> None" by (rule link_exists [OF q(1)])
      then show ?thesis by (intro lookup_dir_not_absent [OF ok p] fs_ok_strict_prefix [OF ok _ 1])
    next
      case 2
      with lookup_link_itself [OF ok p] q(1) trimmed ne show ?thesis by auto
    next
      case 3
      with lookup_dangling [OF p q(2) ne, of False] show ?thesis by (auto simp: strict_prefix_def)
    qed
  qed
  then show ?thesis by (auto simp: fs_mkdir_def split: option.splits fs_lookup.splits)
qed

lemma create_dir_all_blocked:
  "fs_ok (fs_nodes s) \<Longrightarrow> literal_path p \<Longrightarrow> path_loc p \<noteq> [] \<longrightarrow> last (path_segs p) = last (path_loc p) \<Longrightarrow>
     is_link_at (fs_nodes s) q \<Longrightarrow> dangling (fs_nodes s) q \<Longrightarrow> prefix (path_loc p) L \<Longrightarrow> prefix q L \<Longrightarrow>
     fst (fs_create_dir_all s p) = s"
proof (induction s p rule: fs_create_dir_all.induct)
  case (1 s p)
  have ne: "p \<noteq> []" using "1.prems"(2) by (auto simp: literal_path_def is_absolute_not_Nil)
  obtain rm where m: "fs_mkdir s p = (s, rm)"
    using mkdir_blocked [OF "1.prems"] by (cases "fs_mkdir s p") auto
  show ?case
  proof (cases "\<exists>p'. rm = Inl enoent \<and> path_parent p = Some p'")
    case False
    with ne m show ?thesis
      by (subst fs_create_dir_all.simps) (auto split: sum.splits if_splits option.splits)
  next
    case True
    then obtain p' where rm: "rm = Inl enoent" and p': "path_parent p = Some p'" by blast
    from parent_literal(2) [OF "1.prems"(2) p'] have lit: "literal_path p'"
      "path_loc p' \<noteq> [] \<longrightarrow> last (path_segs p') = last (path_loc p')" "prefix (path_loc p') L"
      using "1.prems"(6) by (auto intro: prefix_order.trans prefixeq_butlast)
    have "fst (fs_create_dir_all s p') = s"
      using "1.IH" [OF ne m [symmetric] rm _ p' "1.prems"(1) lit(1,2) "1.prems"(4,5) lit(3) "1.prems"(7)]
      by simp
    then obtain rc where "fs_create_dir_all s p' = (s, rc)" by (metis prod.collapse)
    with ne m rm p' show ?thesis
      by (subst fs_create_dir_all.simps) (auto split: sum.splits if_splits option.splits)
  qed
qed

end
