(* ===== verification/File_Confinement.thy ===== *)
theory File_Confinement
  imports Fs_Calls Actuator_File
begin

text \<open>
  Where the file actuator writes and reads. On a tree without failing \<open>stat\<close> calls the symlink
  check makes every later lookup of the target land on the location its path spells, so a write
  touches that location, the temporary file beside it and missing parents, and nothing else.
\<close>

section \<open>What the symlink check establishes\<close>

lemma verify_components_append:
  "verify_components s chk (xs @ ys) = Inr u \<Longrightarrow> verify_components s chk xs = Inr ()"
  by (induction s chk xs rule: verify_components.induct) (auto simp: Let_def result_simps split: if_splits)

text \<open>The check looks at each prefix of the path, as the kernel would print it.\<close>

lemma verify_components_at:
  "verify_components s (render_location l) (map Normal (q @ [c])) = Inr u \<Longrightarrow> list_all valid_name (l @ q @ [c]) \<Longrightarrow>
     fs_exists s (render_location (l @ q @ [c])) \<Longrightarrow>
     \<exists>m. fs_lstat s (render_location (l @ q @ [c])) = Inr m \<and> \<not> node_is_symlink m"
proof (induction q arbitrary: l)
  case Nil
  then have "path_join (render_location l) c = render_location (l @ [c])"
    by (intro render_push) (auto dest: valid_name_hd)
  with Nil show ?case by (auto simp: Let_def result_simps split: if_splits)
next
  case (Cons d q)
  then have "path_join (render_location l) d = render_location (l @ [d])"
    by (intro render_push) (auto dest: valid_name_hd)
  with Cons.prems(1) have "verify_components s (render_location (l @ [d])) (map Normal (q @ [c])) = Inr u"
    by (auto simp: Let_def result_simps split: if_splits)
  from Cons.IH [OF this] Cons.prems(2,3) show ?case by simp
qed

lemma verify_root: "verify_components s [] (RootDir # cs) = Inr u \<Longrightarrow>
    verify_components s (render_location []) cs = Inr ()"
  by (auto simp: Let_def result_simps path_join_def is_absolute_def render_location_def split: if_splits)

text \<open>Every link on a checked path dangles.\<close>

lemma verified_links_dangle:
  assumes ok: "fs_ok (fs_nodes s)" and stat: "\<forall>p. fs_fault s OpStat p = None" and p: "literal_path p"
    and v: "verify_no_symlinks s p = Inr u" and q: "prefix q (path_loc p)" and link: "is_link_at (fs_nodes s) q"
  shows "dangling (fs_nodes s) q" and "q \<noteq> []"
proof -
  let ?N = "fs_nodes s"
  from link obtain t where t: "?N q = Some (Symlink t)"
    by (auto simp: is_link_at_def split: option.splits fs_node.splits)
  from ok t have names: "list_all valid_name q" by (rule fs_okD(1))
  show ne: "q \<noteq> []" using ok link by (auto dest: fs_ok_root is_dir_not_link)
  then obtain k c where k: "q = k @ [c]" by (metis rev_exhaust)
  from q obtain r where r: "path_loc p = q @ r" by (auto simp: prefix_def)
  from v p r have "verify_components s [] (RootDir # map Normal q @ map Normal r) = Inr u"
    by (simp only: verify_no_symlinks_def path_components_literal map_append)
  then have "verify_components s (render_location []) (map Normal q @ map Normal r) = Inr ()"
    by (rule verify_root)
  then have "verify_components s (render_location []) (map Normal (k @ [c])) = Inr ()"
    unfolding k by (rule verify_components_append)
  from verify_components_at [OF this] names k
  have chk: "fs_exists s (render_location q) \<Longrightarrow>
      \<exists>m. fs_lstat s (render_location q) = Inr m \<and> \<not> node_is_symlink m" by simp
  have "fs_walk max_links ?N False [] q = Found q"
    using fs_walk_names_Found [of ?N "[]" q False max_links] ok t fs_ok_strict_prefix [OF ok, of q] by simp
  with lookup_render [OF ok names ne] t
  have "fs_lstat s (render_location q) = Inr m \<Longrightarrow> node_is_symlink m" for m
    by (auto simp: fs_lstat_def ok_or_def node_is_symlink_def split: option.splits)
  with chk have "\<not> fs_exists s (render_location q)" by blast
  then show "dangling ?N q"
    using lookup_render [OF ok names ne] stat by (auto simp: fs_exists_def dangling_def)
qed

section \<open>Making the parent\<close>

lemma ensure_parent_blocked:
  assumes ok: "fs_ok (fs_nodes s)" and p: "literal_path p"
    and q: "is_link_at (fs_nodes s) q" "dangling (fs_nodes s) q" "strict_prefix q (path_loc p)"
  shows "\<exists>e. ensure_parent s p = (s, Inl e)"
proof -
  have ne: "q \<noteq> []" by (rule link_not_root [OF ok q(1)])
  from q(3) have "path_loc p \<noteq> []" by auto
  with parent_literal(1) [OF p] obtain p' where p': "path_parent p = Some p'" by (cases "path_parent p") auto
  from parent_literal(2) [OF p p'] have lit: "literal_path p'" "path_loc p' = butlast (path_loc p)"
    "path_loc p' \<noteq> [] \<longrightarrow> last (path_segs p') = last (path_loc p')" by blast+
  from q(3) have pre: "prefix q (path_loc p')"
    unfolding lit(2) by (metis append_butlast_last_id prefix_order.le_less prefix_snoc strict_prefix_def prefix_bot.extremum_strict)
  note gone = lookup_dangling [OF lit(1) q(2) ne pre, of True]
  then have "\<not> fs_exists s p'" by (auto simp: fs_exists_def split: fs_lookup.splits)
  moreover obtain rc where c: "fs_create_dir_all s p' = (s, rc)"
    using create_dir_all_blocked [OF ok lit(1,3) q(1,2) prefix_order.refl pre]
    by (cases "fs_create_dir_all s p'") auto
  moreover obtain e where "fs_set_permissions s p' mode_755 = (s, Inl e)"
    using gone by (cases "fs_fault s OpChmod p'"; cases "fs_lookup s True p'")
      (auto simp: fs_set_permissions_def)
  ultimately show ?thesis
    using p' by (cases rc) (simp_all add: ensure_parent_def)
qed

lemma ensure_parent_grown:
  assumes ok: "fs_ok (fs_nodes s)" and stat: "\<forall>p. fs_fault s OpStat p = None" and p: "literal_path p"
    and free: "link_free (fs_nodes s) (butlast (path_loc p))" and eq: "ensure_parent s p = (s1, r)"
  shows "same_env s s1 \<and> fs_ok (fs_nodes s1) \<and> grown (fs_nodes s) (fs_nodes s1) (butlast (path_loc p))"
proof (cases "\<exists>q. path_parent p = Some q \<and> \<not> fs_exists s q")
  case False
  with eq ok have "s1 = s" by (auto simp: ensure_parent_def split: option.splits)
  with ok show ?thesis by simp
next
  case True
  then obtain q where q: "path_parent p = Some q" and gone: "\<not> fs_exists s q" by blast
  from parent_literal(2) [OF p q] have lit: "literal_path q" "path_loc q = butlast (path_loc p)"
    "path_loc q = [] \<or> last (path_segs q) = last (path_loc q)" by blast+
  have absent: "fs_nodes s (path_loc q) = None"
  proof (rule ccontr)
    assume "fs_nodes s (path_loc q) \<noteq> None"
    from lookup_Found [OF ok lit(1) this _ lit(3)] free gone stat lit(2) show False
      by (auto simp: fs_exists_def dest: link_freeD)
  qed
  obtain sc rc where c: "fs_create_dir_all s q = (sc, rc)" by (cases "fs_create_dir_all s q")
  from create_dir_all_grown [OF ok lit(1) _ c] free lit(2)
  have C: "same_env s sc" "fs_ok (fs_nodes sc)" "grown (fs_nodes s) (fs_nodes sc) (path_loc q)" by auto
  obtain sp rp where cp: "fs_set_permissions sc q mode_755 = (sp, rp)"
    by (cases "fs_set_permissions sc q mode_755")
  have P: "same_env sc sp \<and> fs_ok (fs_nodes sp) \<and> grown (fs_nodes s) (fs_nodes sp) (path_loc q)"
  proof (cases "\<exists>l. fs_lookup sc True q = Found l \<and> fs_fault sc OpChmod q = None")
    case True
    then obtain l where l: "fs_lookup sc True q = Found l" "fs_fault sc OpChmod q = None" by blast
    have "link_free (fs_nodes sc) (path_loc q)" using C(3) free lit(2) grown_link_free by simp
    from lookup_lands [OF lit(1) this, of True] l(1) have loc: "l = path_loc q" by simp
    from cp l have sp: "sp = set_node l (map_option (chmod_node mode_755) (fs_nodes sc l)) sc"
      by (simp add: fs_set_permissions_def)
    have "fs_nodes sc l \<noteq> None" using lookup_result [OF C(2) lit(1), of True] l(1) by simp
    with C(3) absent loc have "is_dir_at (fs_nodes sc) l" unfolding grown_def by metis
    then obtain n where "fs_nodes sc l = Some (Directory n)" by (blast dest: is_dir_at_Some)
    then have "is_dir_at (fs_nodes sp) l" by (simp add: sp is_dir_at_def chmod_node_def)
    with C(3) absent loc have "grown (fs_nodes s) (fs_nodes sp) (path_loc q)"
      unfolding grown_def sp by (auto simp: is_dir_at_def)
    with fs_ok_chmod [OF C(2), of l mode_755] show ?thesis by (simp add: sp)
  next
    case False
    with cp have "sp = sc" by (auto simp: fs_set_permissions_def split: option.splits fs_lookup.splits)
    with C show ?thesis by simp
  qed
  have "s1 = sc \<or> s1 = sp"
    using eq q gone c cp by (auto simp: ensure_parent_def split: sum.splits)
  with C P lit(2) show ?thesis by (auto intro: same_env_trans)
qed

section \<open>Writing beside the target\<close>

text \<open>The target can be looked up without leaving its location: no link before it, nor on it unless named last.\<close>

definition target_free :: "(location \<Rightarrow> fs_node option) \<Rightarrow> string \<Rightarrow> bool" where
  "target_free N p \<longleftrightarrow> link_free N (path_loc p) \<or>
     (link_free N (butlast (path_loc p)) \<and> path_loc p \<noteq> [] \<and> last (path_segs p) = last (path_loc p))"

lemma target_free_lands:
  assumes "literal_path p" and "target_free (fs_nodes s) p"
  shows "lands (fs_lookup s False p) (path_loc p)"
proof (cases "link_free (fs_nodes s) (path_loc p)")
  case False
  with assms(2) have free: "link_free (fs_nodes s) (butlast (path_loc p))"
    and last: "path_loc p \<noteq> []" "last (path_segs p) = last (path_loc p)" by (auto simp: target_free_def)
  from path_loc_names [of "last (path_loc p)" p] last show ?thesis
    by (intro lookup_lands_last assms free) auto
qed (rule lookup_lands [OF assms(1)])

lemma link_free_mono:
  "(\<And>q. is_link_at N' q \<Longrightarrow> is_link_at N q) \<Longrightarrow> link_free N l \<Longrightarrow> link_free N' l"
  by (auto simp: link_free_def)

lemma target_free_mono:
  "(\<And>q. is_link_at N' q \<Longrightarrow> is_link_at N q) \<Longrightarrow> target_free N p \<Longrightarrow> target_free N' p"
  unfolding target_free_def using link_free_mono [of N' N] by blast

lemma write_and_rename_at:
  assumes ok: "fs_ok (fs_nodes s)" and p: "literal_path p" and t: "literal_path tmp"
    and ne: "path_loc tmp \<noteq> path_loc p" and free: "link_free (fs_nodes s) (path_loc tmp)"
    and target: "target_free (fs_nodes s) p" and eq: "write_and_rename s p tmp d = (s1, r)"
  shows "same_env s s1 \<and> fs_ok (fs_nodes s1) \<and>
     (\<forall>l. l \<noteq> path_loc p \<longrightarrow> l \<noteq> path_loc tmp \<longrightarrow> fs_nodes s1 l = fs_nodes s l) \<and>
     (case r of Inl e \<Rightarrow> fs_nodes s1 (path_loc p) = fs_nodes s (path_loc p)
      | Inr n \<Rightarrow> (\<exists>m. fs_nodes s1 (path_loc p) = Some (RegFile d m)) \<and> fs_nodes s1 (path_loc tmp) = None)"
proof -
  let ?L = "path_loc p" and ?T = "path_loc tmp"
  obtain s2 r2 where w: "fs_write s tmp d = (s2, r2)" by (cases "fs_write s tmp d")
  note W = fs_write_at [OF ok t free w]
  have lk: "is_link_at (fs_nodes s2) q \<Longrightarrow> is_link_at (fs_nodes s) q" for q
    using W by (cases "q = ?T") (auto simp: is_link_at_def)
  have free2: "link_free (fs_nodes s2) ?T" using lk free by (rule link_free_mono)
  show ?thesis
  proof (cases r2)
    case (Inl e)
    obtain s3 r3 where rm: "fs_remove_file s2 tmp = (s3, r3)" by (cases "fs_remove_file s2 tmp")
    have "lands (fs_lookup s2 False tmp) ?T" using t free2 by (rule lookup_lands)
    from fs_remove_file_at [OF _ this rm] W have R: "same_env s2 s3 \<and> fs_ok (fs_nodes s3) \<and>
      (\<forall>l. l \<noteq> ?T \<longrightarrow> fs_nodes s3 l = fs_nodes s2 l)" by blast
    from eq w Inl rm have "s1 = s3" "\<exists>e. r = Inl e" by (auto simp: write_and_rename_def)
    with R W ne show ?thesis by (auto intro: same_env_trans)
  next
    case (Inr u)
    then obtain m where m: "fs_nodes s2 ?T = Some (RegFile d m)" using W by (auto simp: is_ok_def)
    obtain s3 r3 where c: "fs_set_permissions s2 tmp mode_644 = (s3, r3)"
      by (cases "fs_set_permissions s2 tmp mode_644")
    from W fs_set_permissions_at [OF _ t free2 c] m obtain m' where C: "same_env s2 s3" "fs_ok (fs_nodes s3)"
      "\<forall>l. l \<noteq> ?T \<longrightarrow> fs_nodes s3 l = fs_nodes s2 l" "fs_nodes s3 ?T = Some (RegFile d m')" by blast
    have lk3: "is_link_at (fs_nodes s3) q \<Longrightarrow> is_link_at (fs_nodes s) q" for q
      using C(3,4) lk by (cases "q = ?T") (auto simp: is_link_at_def)
    have free3: "lands (fs_lookup s3 False tmp) ?T" "lands (fs_lookup s3 False p) ?L"
      using lookup_lands [OF t link_free_mono [OF lk3 free]]
        target_free_lands [OF p target_free_mono [OF lk3 target]] by blast+
    obtain s4 r4 where rn: "fs_rename s3 tmp p = (s4, r4)" by (cases "fs_rename s3 tmp p")
    have "\<not> is_dir_at (fs_nodes s3) ?T" using C(4) by (simp add: is_dir_at_def)
    note R = fs_rename_at [OF C(2) t p ne free3 this rn]
    show ?thesis
    proof (cases r4)
      case (Inr v)
      with eq w c rn \<open>r2 = Inr u\<close> have "s1 = s4" "r = Inr (word_of_nat (length d))"
        by (simp_all add: write_and_rename_def)
      with R Inr C W ne show ?thesis by (auto intro: same_env_trans)
    next
      case (Inl e)
      with R have s4: "s4 = s3" by simp
      obtain s5 r5 where rm: "fs_remove_file s3 tmp = (s5, r5)" by (cases "fs_remove_file s3 tmp")
      from eq w c rn Inl \<open>r2 = Inr u\<close> rm s4 have "s1 = s5" "\<exists>e. r = Inl e"
        by (auto simp: write_and_rename_def)
      with fs_remove_file_at [OF C(2) free3(1) rm] C W ne show ?thesis
        by (auto intro: same_env_trans)
    qed
  qed
qed

section \<open>The whole write\<close>

definition tmp_loc :: "string \<Rightarrow> string \<Rightarrow> location" where
  "tmp_loc p action_id = butlast (path_loc p) @ [last (path_loc p) @ ''.ama.'' @ action_id @ ''.tmp'']"

lemma tmp_path_literal:
  assumes p: "literal_path p" and ne: "path_loc p \<noteq> []" and aid: "CHR ''/'' \<notin> set aid"
  shows "literal_path (tmp_path p aid) \<and> path_loc (tmp_path p aid) = tmp_loc p aid"
proof -
  let ?n = "last (path_loc p) @ ''.ama.'' @ aid @ ''.tmp''"
  have fn: "path_file_name p = Some (last (path_loc p))" using path_file_name_literal [OF p] ne by simp
  obtain q where q: "path_parent p = Some q" using parent_literal(1) [OF p] ne by (cases "path_parent p") auto
  from parent_literal(2) [OF p q] have lit: "literal_path q" "path_loc q = butlast (path_loc p)" by blast+
  have t: "tmp_path p aid = path_join q ?n"
    by (simp add: tmp_path_def path_with_file_name_def fn q)
  have nm: "CHR ''/'' \<notin> set ?n" "last (path_loc p) \<noteq> []"
    using aid path_loc_names [of "last (path_loc p)" p] ne by auto
  then have segs: "path_segs ?n = [?n]" by (intro path_segs_name)
  have "\<not> is_absolute ?n" using nm by (cases "last (path_loc p)") (auto simp: is_absolute_def is_sep_def)
  moreover have "?n \<noteq> ''..''" "?n \<noteq> ''.''" "?n \<noteq> []"
    by (auto dest: arg_cong [where f = length])
  ultimately show ?thesis
    using join_literal [OF lit(1), of ?n] segs lit(2) by (simp add: t tmp_loc_def seg_names_Cons)
qed

text \<open>A path whose dots can do no harm: it ends in a name, or its parent is yet to be made.\<close>

definition ends_in_name :: "fs_state \<Rightarrow> string \<Rightarrow> bool" where
  "ends_in_name s p \<longleftrightarrow> path_loc p = [] \<or> last (path_segs p) = last (path_loc p) \<or>
     (case path_parent p of Some q \<Rightarrow> \<not> fs_exists s q | None \<Rightarrow> True)"

text \<open>What the proofs ask of a tree, and of the name a write picks for its temporary file.\<close>

definition sound_fs :: "fs_state \<Rightarrow> bool" where
  "sound_fs s \<longleftrightarrow> fs_ok (fs_nodes s) \<and> (\<forall>p. fs_fault s OpStat p = None)"

definition fresh_action :: "fs_state \<Rightarrow> string \<Rightarrow> bool" where
  "fresh_action s aid \<longleftrightarrow> CHR ''/'' \<notin> set aid \<and>
     (\<forall>d n. \<not> is_link_at (fs_nodes s) (d @ [n @ ''.ama.'' @ aid @ ''.tmp'']))"

lemma parent_of_entry_exists:
  assumes "sound_fs s" and p: "literal_path p" and q: "path_parent p = Some q"
    and ex: "fs_nodes s (path_loc p) \<noteq> None"
  shows "fs_exists s q"
proof -
  from assms(1) have ok: "fs_ok (fs_nodes s)" and stat: "\<forall>p. fs_fault s OpStat p = None"
    by (auto simp: sound_fs_def)
  from parent_literal(2) [OF p q] have lit: "literal_path q" "path_loc q = butlast (path_loc p)"
    "path_loc q = [] \<or> last (path_segs q) = last (path_loc q)" by blast+
  have "path_loc p \<noteq> []" using parent_literal(1) [OF p] q by auto
  with ex fs_okD(2) [OF ok] lit(2) have "is_dir_at (fs_nodes s) (path_loc q)" by auto
  then have "fs_nodes s (path_loc q) \<noteq> None" "\<not> is_link_at (fs_nodes s) (path_loc q)"
    by (auto dest: is_dir_at_Some is_dir_not_link)
  from lookup_Found [OF ok lit(1) this lit(3)] stat show ?thesis by (simp add: fs_exists_def)
qed

text \<open>What is left of it when the tree has changed since, but for new links: the target ends in a name
  or is no link.\<close>

definition settled_target :: "fs_state \<Rightarrow> string \<Rightarrow> bool" where
  "settled_target s p \<longleftrightarrow>
     path_loc p = [] \<or> last (path_segs p) = last (path_loc p) \<or> \<not> is_link_at (fs_nodes s) (path_loc p)"

lemma ends_in_name_settled:
  assumes "sound_fs s" and p: "literal_path p" and "ends_in_name s p"
  shows "settled_target s p"
proof (cases "is_link_at (fs_nodes s) (path_loc p) \<and> path_loc p \<noteq> []")
  case True
  then obtain q where q: "path_parent p = Some q" using parent_literal(1) [OF p] by (cases "path_parent p") auto
  from True have "fs_nodes s (path_loc p) \<noteq> None" by (blast dest: link_exists)
  from parent_of_entry_exists [OF assms(1) p q this] assms(3) q show ?thesis
    by (auto simp: ends_in_name_def settled_target_def)
qed (auto simp: settled_target_def)

lemma write_checks_root:
  assumes "sound_fs s" and p: "literal_path p" and L: "path_loc p = []"
  shows "write_checks s p \<noteq> Inr u"
proof -
  from assms(1) have ok: "fs_ok (fs_nodes s)" and stat: "\<forall>p. fs_fault s OpStat p = None"
    by (auto simp: sound_fs_def)
  from fs_ok_root [OF ok] obtain m where m: "fs_nodes s [] = Some (Directory m)" by (blast dest: is_dir_at_Some)
  then have "fs_nodes s (path_loc p) \<noteq> None" "\<not> is_link_at (fs_nodes s) (path_loc p)"
    by (simp_all add: L is_link_at_def)
  note found = lookup_Found [OF ok p this disjI1 [OF L]]
  then have "fs_exists s p" using stat by (simp add: fs_exists_def)
  moreover have "fs_lstat s p = Inr n \<Longrightarrow> \<not> node_is_file n" for n
    using found m L by (auto simp: fs_lstat_def ok_or_def node_is_file_def split: option.splits)
  ultimately show ?thesis by (auto simp: write_checks_def result_simps)
qed

lemma strict_prefix_butlast: "l \<noteq> [] \<Longrightarrow> prefix q (butlast l) \<Longrightarrow> strict_prefix q l"
  by (metis append_butlast_last_id prefix_order.le_less_trans strict_prefixI')

lemma tmp_loc_other: "tmp_loc p aid \<noteq> path_loc p"
proof
  assume "tmp_loc p aid = path_loc p"
  then have "last (path_loc p) @ ''.ama.'' @ aid @ ''.tmp'' = last (path_loc p)" by (metis tmp_loc_def last_snoc)
  then show False by simp
qed

text \<open>After the checks and the parent: either nothing happened, or the site is ready.\<close>

lemma ensured_site:
  assumes sound: "sound_fs s" and p: "literal_path t" and last: "settled_target s t"
    and fresh: "fresh_action s aid" and chk: "write_checks s t = Inr ()" and e: "ensure_parent s t = (s1, r1)"
  shows "same_env s s1 \<and> fs_ok (fs_nodes s1) \<and> grown (fs_nodes s) (fs_nodes s1) (butlast (path_loc t)) \<and>
     path_loc t \<noteq> [] \<and>
     (is_ok r1 \<longrightarrow> literal_path (tmp_path t aid) \<and> path_loc (tmp_path t aid) = tmp_loc t aid \<and>
        link_free (fs_nodes s1) (tmp_loc t aid) \<and> target_free (fs_nodes s1) t)"
proof -
  let ?N = "fs_nodes s" and ?L = "path_loc t" and ?T = "tmp_loc t aid"
  from sound have ok: "fs_ok ?N" and stat: "\<forall>p. fs_fault s OpStat p = None" by (auto simp: sound_fs_def)
  have ne: "?L \<noteq> []" using chk write_checks_root [OF sound p] by blast
  have v: "verify_no_symlinks s t = Inr ()" using chk by (auto simp: write_checks_def result_simps)
  show ?thesis
  proof (cases "link_free ?N (butlast ?L)")
    case False
    then obtain q where q: "prefix q (butlast ?L)" "is_link_at ?N q" by (auto simp: link_free_def)
    note sp = strict_prefix_butlast [OF ne q(1)]
    then have "prefix q ?L" by (simp add: strict_prefix_def)
    from ensure_parent_blocked [OF ok p q(2) verified_links_dangle(1) [OF ok stat p v this q(2)] sp] e
    have "s1 = s" "\<not> is_ok r1" by (auto simp: is_ok_def)
    with ok ne show ?thesis by simp
  next
    case True
    note E = ensure_parent_grown [OF ok stat p True e]
    then have g: "grown ?N (fs_nodes s1) (butlast ?L)" by blast
    from fresh have aid: "CHR ''/'' \<notin> set aid" by (simp add: fresh_action_def)
    have "link_free (fs_nodes s1) ?T"
      using True fresh
      by (simp add: grown_link_free [OF g] grown_link [OF g] tmp_loc_def link_free_snoc fresh_action_def)
    moreover have "target_free ?N t"
    proof (cases "is_link_at ?N ?L")
      case False
      with True ne have "link_free ?N ?L" using link_free_snoc [of ?N "butlast ?L" "last ?L"] by simp
      with ne show ?thesis by (simp add: target_free_def)
    next
      case link: True
      with last ne \<open>link_free ?N (butlast ?L)\<close> show ?thesis by (auto simp: settled_target_def target_free_def)
    qed
    then have "target_free (fs_nodes s1) t"
      by (rule target_free_mono [rotated]) (simp add: grown_link [OF g])
    ultimately show ?thesis using E ne tmp_path_literal [OF p ne aid] by blast
  qed
qed

lemma file_write_settled:
  assumes sound: "sound_fs s" and p: "literal_path (wp_canonical w)" and last: "settled_target s (wp_canonical w)"
    and fresh: "fresh_action s aid" and eq: "file_write s w c aid = (s', r)"
  shows "same_env s s' \<and> fs_ok (fs_nodes s') \<and>
     (\<forall>l. fs_nodes s' l = fs_nodes s l \<or> l = path_loc (wp_canonical w) \<or> l = tmp_loc (wp_canonical w) aid \<or>
        (strict_prefix l (path_loc (wp_canonical w)) \<and> fs_nodes s l = None \<and> is_dir_at (fs_nodes s') l)) \<and>
     (case r of Inl e \<Rightarrow> fs_nodes s' (path_loc (wp_canonical w)) = fs_nodes s (path_loc (wp_canonical w))
      | Inr n \<Rightarrow> path_loc (wp_canonical w) \<noteq> [] \<and>
          (\<exists>m. fs_nodes s' (path_loc (wp_canonical w)) = Some (RegFile (bounded_str c) m)) \<and>
          fs_nodes s' (tmp_loc (wp_canonical w) aid) = None)"
proof -
  define t where "t = wp_canonical w"
  let ?N = "fs_nodes s" and ?L = "path_loc t" and ?T = "tmp_loc t aid"
  from sound have ok: "fs_ok ?N" by (simp add: sound_fs_def)
  note p = p [folded t_def] and last = last [folded t_def]
  show ?thesis
  proof (cases "write_checks s t")
    case (Inl e)
    with eq have "s' = s" "\<exists>e. r = Inl e" by (auto simp: file_write_def t_def [symmetric])
    with ok show ?thesis by auto
  next
    case (Inr u)
    then have chk: "write_checks s t = Inr ()" by simp
    obtain s1 r1 where e: "ensure_parent s t = (s1, r1)" by (cases "ensure_parent s t")
    note E = ensured_site [OF sound p last fresh chk e]
    from E have g: "grown ?N (fs_nodes s1) (butlast ?L)" and ne: "?L \<noteq> []" by blast+
    have gL: "fs_nodes s1 ?L = ?N ?L"
      using g strict_prefix_butlast [OF ne, of ?L] unfolding grown_def by blast
    have other: "fs_nodes s1 l = ?N l \<or> (strict_prefix l ?L \<and> ?N l = None \<and> is_dir_at (fs_nodes s1) l)" for l
      using g strict_prefix_butlast [OF ne] unfolding grown_def by blast
    show ?thesis
    proof (cases r1)
      case (Inl e1)
      with eq chk e have "s' = s1" "\<exists>e. r = Inl e" by (auto simp: file_write_def t_def [symmetric])
      with E gL other show ?thesis unfolding t_def by auto
    next
      case (Inr u)
      with eq chk e have wr: "write_and_rename s1 t (tmp_path t aid) (bounded_str c) = (s', r)"
        by (simp add: file_write_def t_def [symmetric])
      from E Inr have tl: "literal_path (tmp_path t aid)" "path_loc (tmp_path t aid) = ?T"
        "link_free (fs_nodes s1) ?T" "target_free (fs_nodes s1) t" and okE: "fs_ok (fs_nodes s1)"
        by (simp_all add: is_ok_def)
      from write_and_rename_at [OF okE p tl(1) _ _ tl(4) wr, unfolded tl(2), OF tmp_loc_other tl(3)]
      have W: "same_env s1 s'" "fs_ok (fs_nodes s')"
        "\<forall>l. l \<noteq> ?L \<longrightarrow> l \<noteq> ?T \<longrightarrow> fs_nodes s' l = fs_nodes s1 l"
        "case r of Inl e \<Rightarrow> fs_nodes s' ?L = fs_nodes s1 ?L
          | Inr n \<Rightarrow> (\<exists>m. fs_nodes s' ?L = Some (RegFile (bounded_str c) m)) \<and> fs_nodes s' ?T = None"
        by blast+
      have "fs_nodes s' l = ?N l \<or> l = ?L \<or> l = ?T \<or> (strict_prefix l ?L \<and> ?N l = None \<and> is_dir_at (fs_nodes s') l)" for l
        using W(3) other [of l] unfolding is_dir_at_def by metis
      with W E gL ne show ?thesis
        unfolding t_def [symmetric] by (auto intro: same_env_trans split: sum.splits)
    qed
  qed
qed

lemma file_write_at:
  assumes sound: "sound_fs s" and p: "literal_path (wp_canonical w)" and last: "ends_in_name s (wp_canonical w)"
    and fresh: "fresh_action s aid" and eq: "file_write s w c aid = (s', r)"
  shows "same_env s s' \<and> fs_ok (fs_nodes s') \<and>
     (\<forall>l. fs_nodes s' l = fs_nodes s l \<or> l = path_loc (wp_canonical w) \<or> l = tmp_loc (wp_canonical w) aid \<or>
        (strict_prefix l (path_loc (wp_canonical w)) \<and> fs_nodes s l = None \<and> is_dir_at (fs_nodes s') l)) \<and>
     (case r of Inl e \<Rightarrow> fs_nodes s' (path_loc (wp_canonical w)) = fs_nodes s (path_loc (wp_canonical w))
      | Inr n \<Rightarrow> path_loc (wp_canonical w) \<noteq> [] \<and>
          (\<exists>m. fs_nodes s' (path_loc (wp_canonical w)) = Some (RegFile (bounded_str c) m)) \<and>
          fs_nodes s' (tmp_loc (wp_canonical w) aid) = None)"
  by (rule file_write_settled [OF sound p ends_in_name_settled [OF sound p last] fresh eq])

section \<open>What a workspace path promises\<close>

lemma canonicalize_location:
  assumes "sound_fs s" and "literal_path p" and "fs_canonicalize s p = Inr c"
  shows "\<exists>l. c = render_location l \<and> fs_nodes s l \<noteq> None \<and> list_all valid_name l"
proof -
  from assms(1) have ok: "fs_ok (fs_nodes s)" by (simp add: sound_fs_def)
  from assms(3) obtain l where l: "fs_lookup s True p = Found l" "c = render_location l"
    by (auto simp: fs_canonicalize_def split: option.splits fs_lookup.splits)
  with lookup_result [OF ok assms(2), of True] fs_okD(1) [OF ok] show ?thesis by auto
qed

lemma canonicalize_literal:
  assumes "sound_fs s" and "literal_path p" and "fs_canonicalize s p = Inr c"
  shows "literal_path c" and "path_loc c = [] \<or> last (path_segs c) = last (path_loc c)"
proof -
  from canonicalize_location [OF assms] obtain l where l: "c = render_location l" "list_all valid_name l" by blast
  from render_literal(1) [OF l(2)] l(1) show "literal_path c" by simp
  from render_literal(2) [OF l(2)] path_segs_render [OF l(2)] l(1)
  show "path_loc c = [] \<or> last (path_segs c) = last (path_loc c)" by (cases "l = []") simp_all
qed

lemma effective_root_canon_literal:
  "sound_fs s \<Longrightarrow> literal_path root \<Longrightarrow> literal_path (effective_root_canon s root)"
  by (auto simp: effective_root_canon_def dest: canonicalize_literal(1) split: sum.splits)

lemma resolve_joined_literal:
  assumes sound: "sound_fs s" and j: "literal_path joined" and eq: "resolve_joined s joined = Inr c"
  shows "literal_path c \<and> ends_in_name s c"
proof (cases "fs_exists s joined")
  case True
  with eq have "fs_canonicalize s joined = Inr c" by (auto simp: resolve_joined_def result_simps)
  from canonicalize_literal [OF sound j this] show ?thesis by (auto simp: ends_in_name_def)
next
  case False
  show ?thesis
  proof (cases "\<exists>q. path_parent joined = Some q \<and> fs_exists s q")
    case True
    then obtain q where q: "path_parent joined = Some q" "fs_exists s q" by blast
    with False eq obtain cq name where cq: "fs_canonicalize s q = Inr cq"
      and name: "path_file_name joined = Some name" and c: "c = path_join cq name"
      by (auto simp: resolve_joined_def result_simps split: option.splits)
    have lq: "literal_path q" using parent_literal(2) [OF j q(1)] by blast
    from canonicalize_location [OF sound lq cq] obtain l
      where l: "cq = render_location l" "list_all valid_name l" by blast
    from name path_file_name_literal [OF j] have n: "name = last (path_loc joined)" "path_loc joined \<noteq> []"
      by (auto split: if_splits)
    from path_loc_names [of name joined] n have nm: "name \<noteq> []" "name \<noteq> ''.''" "CHR ''/'' \<notin> set name" by auto
    have nd: "name \<noteq> ''..''"
      using j n by (auto simp: literal_path_def path_loc_def set_seg_names dest!: last_in_set)
    have "hd name \<noteq> CHR ''/''" using nm by (cases name) auto
    from render_push [OF nm(1) this l(2)] have c': "c = render_location (l @ [name])" by (simp add: c l(1))
    have "path_segs c = [] # l @ [name]"
    proof -
      have "\<forall>w \<in> set ([] # l @ [name]). CHR ''/'' \<notin> set w"
        using l(2) nm(3) by (auto simp: list_all_iff valid_name_def)
      then have "path_segs (join_with ''/'' ([] # l @ [name])) = [] # l @ [name]"
        by (intro path_segs_join_with) auto
      with render_join [of "l @ [name]"] show ?thesis by (simp add: c')
    qed
    moreover have "\<forall>w \<in> set (l @ [name]). w \<noteq> [] \<and> w \<noteq> ''.'' \<and> w \<noteq> ''..''"
      using l(2) nm nd by (auto simp: list_all_iff valid_name_def)
    ultimately show ?thesis
      using seg_names_id [of "l @ [name]"] is_absolute_render [of "l @ [name]"]
      by (auto simp: literal_path_def ends_in_name_def path_loc_def c')
  next
    case none: False
    with False eq have "c = joined" by (auto simp: resolve_joined_def split: option.splits)
    with j none show ?thesis by (auto simp: ends_in_name_def split: option.splits)
  qed
qed

text \<open>The agent's root, as a location.\<close>

definition root_loc :: "fs_state \<Rightarrow> string \<Rightarrow> string option \<Rightarrow> location" where
  "root_loc s ws agent = path_loc (effective_root_canon s (effective_root ws agent))"

lemma workspace_path_sound:
  assumes sound: "sound_fs s" and root: "literal_path (effective_root ws agent)"
    and wp: "new_with_agent s rel ws agent = Inr w"
  shows "literal_path (wp_canonical w)" and "ends_in_name s (wp_canonical w)"
    and "prefix (root_loc s ws agent) (path_loc (wp_canonical w))"
proof -
  from wp have rel: "check_relative rel = Inr ()"
    and res: "resolve_joined s (path_join (effective_root ws agent) rel) = Inr (wp_canonical w)"
    and pre: "path_starts_with (wp_canonical w) (effective_root_canon s (effective_root ws agent))"
    by (simp_all add: new_with_agent_Inr_iff)
  from join_literal(1) [OF root check_relative_lexical [OF rel]]
  have j: "literal_path (path_join (effective_root ws agent) rel)" .
  from resolve_joined_literal [OF sound j res]
  show lit: "literal_path (wp_canonical w)" and "ends_in_name s (wp_canonical w)" by blast+
  show "prefix (root_loc s ws agent) (path_loc (wp_canonical w))"
    using pre path_starts_with_literal [OF lit effective_root_canon_literal [OF sound root]]
    by (simp add: root_loc_def)
qed

end
