(* ===== verification/Orphan_Cleanup.thy ===== *)
theory Orphan_Cleanup
  imports File_Confinement
begin

text \<open>
  The removal of orphaned temporary files. The recursive walk follows links to directories, so it
  is the kernel's limit on links that ends it; what is removed bears a temporary name; where it
  lies is another matter.
\<close>

text \<open>A directory listing returns names the kernel allows, or errors.\<close>

definition lists_names :: "lister \<Rightarrow> bool" where
  "lists_names ls \<longleftrightarrow> (\<forall>s d es n. ls s d = Inr es \<longrightarrow> Inr n \<in> set es \<longrightarrow> valid_name n)"

lemma lists_namesD: "lists_names ls \<Longrightarrow> ls s d = Inr es \<Longrightarrow> Inr n \<in> set es \<Longrightarrow> valid_name n"
  unfolding lists_names_def by blast

section \<open>Joining a name\<close>

lemma valid_name_rel: "valid_name n \<Longrightarrow> \<not> is_absolute n"
  by (cases n) (auto simp: valid_name_def is_absolute_def is_sep_def)

lemma valid_name_segs: "valid_name n \<Longrightarrow> path_segs n = [n]"
  by (rule path_segs_name) (simp add: valid_name_def)

lemma path_segs_join_name:
  assumes "valid_name n"
  shows "\<exists>xs. path_segs (path_join d n) = xs @ [n]"
proof -
  consider "d = []" | "d \<noteq> []" "is_sep (last d)" | "d \<noteq> []" "\<not> is_sep (last d)" by blast
  then show ?thesis
  proof cases
    case 1
    with assms show ?thesis by (simp add: path_join_def valid_name_rel valid_name_segs)
  next
    case 2
    then have "d = butlast d @ ''/''" by (metis append_butlast_last_id is_sep_def)
    then have "path_join d n = butlast d @ ''/'' @ n"
      using 2 assms by (metis append.assoc path_join_def valid_name_rel)
    with assms show ?thesis by (simp only: path_segs_sep valid_name_segs) blast
  next
    case 3
    with assms have "path_join d n = d @ ''/'' @ n" by (simp add: path_join_def valid_name_rel)
    with assms show ?thesis by (simp only: path_segs_sep valid_name_segs) blast
  qed
qed

lemma path_file_name_join:
  assumes "valid_name n"
  shows "path_file_name (path_join d n) = Some n"
proof -
  obtain xs where xs: "path_segs (path_join d n) = xs @ [n]" using path_segs_join_name [OF assms] by blast
  have comp: "seg_component n = [Normal n]" using assms by (intro seg_component_name) (auto simp: valid_name_def)
  have n: "n \<noteq> ''.''" "n \<noteq> []" using assms by (auto simp: valid_name_def)
  have "\<exists>cs. path_components (path_join d n) = cs @ [Normal n]"
  proof (cases xs)
    case Nil
    then have "\<not> is_absolute (path_join d n)" using xs n path_segs_abs [of "path_join d n"] by auto
    with Nil xs comp n show ?thesis by (simp add: path_components_def Let_def)
  next
    case (Cons x ys)
    with xs comp show ?thesis by (simp add: path_components_def Let_def)
  qed
  then show ?thesis by (auto simp: path_file_name_def)
qed

lemma path_join_plain:
  "d \<noteq> [] \<Longrightarrow> \<not> is_sep (last d) \<Longrightarrow> valid_name n \<Longrightarrow> path_join d n = d @ ''/'' @ n"
  by (simp add: path_join_def valid_name_rel)

section \<open>The walk ends\<close>

text \<open>Steps left: down to the deepest entry, and once more for each link left.\<close>

definition steps_left :: "nat \<Rightarrow> location \<Rightarrow> nat \<Rightarrow> nat" where
  "steps_left h l m = (h - length l) + m * Suc h"

lemma walk_entries_total:
  assumes "\<forall>n. Inr n \<in> set es \<longrightarrow> fs_is_dir s (path_join dir n) \<longrightarrow> walk (path_join dir n) \<noteq> None"
  shows "walk_entries walk s dir es rs \<noteq> None"
  using assms
  by (induction walk s dir es rs rule: walk_entries.induct) (auto simp: Let_def split: option.splits sum.splits)

text \<open>One name further, the walk has fewer steps left.\<close>

lemma walk_one_name:
  assumes height: "\<forall>l. N l \<noteq> None \<longrightarrow> length l \<le> h" and n: "valid_name n"
    and found: "fs_walk m N True l [n] = Found l'"
  shows "\<exists>m'. (\<forall>f ys. ys \<noteq> [] \<longrightarrow> fs_walk m N f l (n # ys) = fs_walk m' N f l' ys) \<and>
     steps_left h l' m' < steps_left h l m"
proof (cases rule: fs_walk_step_cases [where N = N and cur = l and c = n])
  case (link t)
  with found obtain k where m: "m = Suc k" by (cases m) auto
  with link found have "fs_walk k N True (if is_absolute t then [] else l) (path_segs t @ []) = Found l'" by simp
  from fs_walk_forward [OF this [simplified]] obtain m' where m': "m' \<le> k"
    "\<forall>f ys. ys \<noteq> [] \<longrightarrow> fs_walk k N f (if is_absolute t then [] else l) (path_segs t @ ys) = fs_walk m' N f l' ys"
    by blast
  have "steps_left h l' m' < steps_left h l m"
  proof -
    have "steps_left h l' m' < Suc m' * Suc h" by (simp add: steps_left_def)
    also have "\<dots> \<le> m * Suc h" using m' m by (intro mult_right_mono) auto
    also have "\<dots> \<le> steps_left h l m" by (simp add: steps_left_def)
    finally show ?thesis .
  qed
  with m' m link show ?thesis by (intro exI [of _ m']) auto
next
  case (enter nd)
  have "l' = l @ [n]" using found by (simp only: fs_walk_enter [OF enter]) simp
  moreover have "length (l @ [n]) \<le> h" using height enter(5) by blast
  ultimately show ?thesis
    by (intro exI [of _ m]) (auto simp: fs_walk_enter [OF enter] steps_left_def simp del: fs_walk.simps(2))
qed (use found n in \<open>auto simp: valid_name_def\<close>)

lemma walkdir_total:
  assumes names: "lists_names ls" and height: "\<forall>l. fs_nodes s l \<noteq> None \<longrightarrow> length l \<le> h"
  shows "dir \<noteq> [] \<Longrightarrow> \<not> is_sep (last dir) \<Longrightarrow>
    (\<forall>f ys. ys \<noteq> [] \<longrightarrow> fs_walk max_links (fs_nodes s) f (if is_absolute dir then [] else fs_cwd s) (path_segs dir @ ys)
        = fs_walk m (fs_nodes s) f l ys) \<Longrightarrow>
    steps_left h l m < fuel \<Longrightarrow> walkdir fuel ls s dir \<noteq> None"
proof (induction fuel arbitrary: dir l m)
  case (Suc fuel)
  show ?case
  proof (cases "ls s dir")
    case (Inr es)
    have "walkdir fuel ls s (path_join dir n) \<noteq> None" if n: "Inr n \<in> set es" and d: "fs_is_dir s (path_join dir n)" for n
    proof -
      have vn: "valid_name n" using lists_namesD [OF names Inr n] .
      let ?p = "path_join dir n" and ?start = "if is_absolute dir then [] else fs_cwd s"
      have p: "?p = dir @ ''/'' @ n" using path_join_plain [OF Suc.prems(1,2) vn] .
      have segs: "path_segs ?p = path_segs dir @ [n]" by (simp only: p path_segs_sep valid_name_segs [OF vn])
      have abs: "is_absolute ?p = is_absolute dir" using Suc.prems(1) unfolding p by (cases dir) (auto simp: is_absolute_def)
      have "?p \<noteq> []" by (simp add: p)
      with d obtain l' where "fs_walk max_links (fs_nodes s) True ?start (path_segs ?p) = Found l'"
        using abs by (auto simp: fs_is_dir_def fs_lookup_def split: fs_lookup.splits if_splits)
      then have "fs_walk m (fs_nodes s) True l [n] = Found l'" using Suc.prems(3) segs by auto
      from walk_one_name [OF height vn this] obtain m'
        where m': "\<forall>f ys. ys \<noteq> [] \<longrightarrow> fs_walk m (fs_nodes s) f l (n # ys) = fs_walk m' (fs_nodes s) f l' ys"
          "steps_left h l' m' < steps_left h l m" by blast
      show ?thesis
      proof (rule Suc.IH)
        show "?p \<noteq> []" by (simp add: p)
        show "\<not> is_sep (last ?p)"
          using vn last_not_in [of "CHR ''/''" n] by (auto simp: p valid_name_def is_sep_def)
        show "\<forall>f ys. ys \<noteq> [] \<longrightarrow> fs_walk max_links (fs_nodes s) f (if is_absolute ?p then [] else fs_cwd s)
            (path_segs ?p @ ys) = fs_walk m' (fs_nodes s) f l' ys"
          using Suc.prems(3) m'(1) unfolding segs abs by simp
        show "steps_left h l' m' < fuel" using m'(2) Suc.prems(4) by simp
      qed
    qed
    then show ?thesis using walk_entries_total [of es s dir "walkdir fuel ls s" "[]"] Inr by simp
  qed simp
qed simp

text \<open>Fuel for 41 descents is enough.\<close>

lemma walk_ends:
  assumes "lists_names ls" and "\<forall>l. fs_nodes s l \<noteq> None \<longrightarrow> length l \<le> h"
    and "root \<noteq> []" and "last root \<noteq> CHR ''/''" and "41 * Suc h \<le> fuel"
  shows "walkdir fuel ls s root \<noteq> None"
proof (cases "fs_is_dir s root")
  case False
  then show ?thesis using assms(5) by (cases fuel) auto
next
  case True
  then obtain l where l: "fs_walk max_links (fs_nodes s) True (if is_absolute root then [] else fs_cwd s)
      (path_segs root) = Found l"
    by (auto simp: fs_is_dir_def fs_lookup_def split: fs_lookup.splits if_splits)
  from fs_walk_forward [OF l] obtain m where m: "m \<le> max_links"
    "\<forall>f ys. ys \<noteq> [] \<longrightarrow> fs_walk max_links (fs_nodes s) f (if is_absolute root then [] else fs_cwd s)
       (path_segs root @ ys) = fs_walk m (fs_nodes s) f l ys" by blast
  have "steps_left h l m < Suc m * Suc h" by (simp add: steps_left_def)
  also have "\<dots> \<le> 41 * Suc h" using m(1) by (intro mult_right_mono) (auto simp: max_links_def)
  finally show ?thesis
    using walkdir_total [OF assms(1,2,3) _ m(2), of fuel] assms(4,5) by (simp add: is_sep_def)
qed

text \<open>C38: the walk for orphaned files always ends, links and cycles of links included. If no entry lies
  deeper than \<open>h\<close>, fuel for 41 descents of \<open>h + 1\<close> directories is enough, one for each of the 40
  links the kernel follows and one more, whatever the directories list.\<close>

theorem cleanup_terminates:
  assumes "lists_names ls" and "\<forall>l. fs_nodes s l \<noteq> None \<longrightarrow> length l \<le> h"
    and "root \<noteq> []" and "last root \<noteq> CHR ''/''" and "41 * Suc h \<le> fuel"
  shows "\<exists>s' n. cleanup_orphan_temps fuel ls s root = Some (s', n)"
  using walk_ends [OF assms] by (auto simp: cleanup_orphan_temps_def split: option.splits sum.splits)

section \<open>What is removed\<close>

lemma walk_entries_paths:
  assumes "\<forall>p ps q. walk p = Some (Inr ps) \<longrightarrow> q \<in> set ps \<longrightarrow> P q"
    and "\<forall>n. Inr n \<in> set es \<longrightarrow> P (path_join dir n)" and "\<forall>q \<in> set rs. P q"
  shows "walk_entries walk s dir es rs = Some (Inr ps) \<Longrightarrow> q \<in> set ps \<Longrightarrow> P q"
  using assms
proof (induction walk s dir es rs rule: walk_entries.induct)
  case (3 walk s dir name es results)
  show ?case
  proof (cases "fs_is_dir s (path_join dir name)")
    case True
    with "3.prems"(1) obtain sub where sub: "walk (path_join dir name) = Some (Inr sub)"
      "walk_entries walk s dir es (results @ sub) = Some (Inr ps)"
      by (auto simp: Let_def split: option.splits sum.splits)
    then have "\<forall>q \<in> set (results @ sub). P q" using "3.prems"(3,5) by auto
    with "3.IH"(1) [OF refl True sub(1) refl sub(2)] "3.prems"(2-4) show ?thesis by simp
  next
    case False
    then have "walk_entries walk s dir es (results @ [path_join dir name]) = Some (Inr ps)"
      using "3.prems"(1) by (simp add: Let_def)
    moreover have "\<forall>q \<in> set (results @ [path_join dir name]). P q" using "3.prems"(4,5) by auto
    ultimately show ?thesis using "3.IH"(2) [OF refl False] "3.prems"(2-4) by simp
  qed
qed auto

lemma walkdir_paths:
  assumes "lists_names ls"
  shows "walkdir n ls s dir = Some (Inr ps) \<Longrightarrow> q \<in> set ps \<Longrightarrow> \<exists>d name. q = path_join d name \<and> valid_name name"
proof (induction n arbitrary: dir ps q)
  case (Suc n)
  show ?case
  proof (cases "fs_is_dir s dir")
    case True
    with Suc.prems(1) obtain es where es: "ls s dir = Inr es"
      "walk_entries (walkdir n ls s) s dir es [] = Some (Inr ps)" by (auto split: sum.splits)
    show ?thesis
    proof (rule walk_entries_paths [OF _ _ _ es(2) Suc.prems(2)])
      show "\<forall>p ps q. walkdir n ls s p = Some (Inr ps) \<longrightarrow> q \<in> set ps \<longrightarrow> (\<exists>d name. q = path_join d name \<and> valid_name name)"
        using Suc.IH by blast
      show "\<forall>m. Inr m \<in> set es \<longrightarrow> (\<exists>d name. path_join dir m = path_join d name \<and> valid_name name)"
        using lists_namesD [OF assms es(1)] by blast
    qed simp
  qed (use Suc.prems in simp)
qed simp

lemma lookup_last_name:
  assumes "valid_name n" and "fs_lookup s False (path_join d n) = Found l"
  shows "\<exists>k. l = k @ [n]"
proof -
  let ?p = "path_join d n" and ?start = "if is_absolute (path_join d n) then [] else fs_cwd s"
  obtain xs where xs: "path_segs ?p = xs @ [n]" using path_segs_join_name [OF assms(1)] by blast
  from assms(2) have w: "fs_walk max_links (fs_nodes s) False ?start (xs @ [n]) = Found l"
    by (simp add: fs_lookup_def xs split: if_splits)
  then have "\<forall>e. fs_walk max_links (fs_nodes s) False ?start (xs @ [n]) \<noteq> Bad e" by simp
  from fs_walk_append [OF _ this] w obtain cur m where "fs_walk m (fs_nodes s) False cur [n] = Found l" by auto
  with assms(1) have "l = cur @ [n]"
    by (auto simp: valid_name_def split: if_splits option.splits fs_node.splits)
  then show ?thesis by blast
qed

text \<open>A location with a temporary name.\<close>

definition orphan_loc :: "location \<Rightarrow> bool" where
  "orphan_loc l \<longleftrightarrow> l \<noteq> [] \<and> contains_str (last l) ''.ama.'' \<and> ends_with (last l) ''.tmp''"

lemma fs_remove_file_changes:
  assumes "fs_remove_file s p = (s1, r)" and "fs_nodes s1 l \<noteq> fs_nodes s l"
  shows "fs_nodes s1 l = None \<and> fs_lookup s False p = Found l \<and> \<not> is_dir_at (fs_nodes s) l"
  using assms
  by (auto simp: fs_remove_file_def set_node_def split: option.splits fs_lookup.splits if_splits)

lemma remove_orphans_changes:
  "\<forall>q \<in> set ps. \<exists>d name. q = path_join d name \<and> valid_name name \<Longrightarrow> remove_orphans s ps c = (s', n) \<Longrightarrow>
     fs_nodes s' l \<noteq> fs_nodes s l \<Longrightarrow> fs_nodes s' l = None \<and> orphan_loc l \<and> \<not> is_dir_at (fs_nodes s) l"
proof (induction ps arbitrary: s c)
  case (Cons path paths)
  from Cons.prems(1) obtain d name where p: "path = path_join d name" "valid_name name" by auto
  obtain s1 r where rm: "fs_remove_file s path = (s1, r)" by (cases "fs_remove_file s path")
  show ?case
  proof (cases "is_orphan_name path")
    case False
    with Cons show ?thesis by simp
  next
    case True
    then obtain c' where rest: "remove_orphans s1 paths c' = (s', n)"
      using rm Cons.prems(2) by (auto split: sum.splits)
    have IH: "fs_nodes s' l = None \<and> orphan_loc l \<and> \<not> is_dir_at (fs_nodes s1) l" if "fs_nodes s' l \<noteq> fs_nodes s1 l"
      using Cons.IH [OF _ rest that] Cons.prems(1) by auto
    show ?thesis
    proof (cases "fs_nodes s1 l = fs_nodes s l")
      case True
      with IH Cons.prems(3) show ?thesis by (auto simp: is_dir_at_def)
    next
      case False
      note gone = fs_remove_file_changes [OF rm False]
      then obtain k where "l = k @ [name]" using lookup_last_name [OF p(2)] p(1) by blast
      moreover have "contains_str name ''.ama.''" "ends_with name ''.tmp''"
        using \<open>is_orphan_name path\<close> p path_file_name_join [of name d] by (auto simp: is_orphan_name_def)
      ultimately have "orphan_loc l" by (simp add: orphan_loc_def)
      with gone IH show ?thesis by metis
    qed
  qed
qed simp

lemma cleanup_changes:
  assumes "lists_names ls" and "cleanup_orphan_temps fuel ls s root = Some (s', n)"
    and "fs_nodes s' l \<noteq> fs_nodes s l"
  shows "fs_nodes s' l = None \<and> orphan_loc l \<and> \<not> is_dir_at (fs_nodes s) l"
proof -
  from assms(2,3) obtain ps where ps: "walkdir fuel ls s root = Some (Inr ps)"
    "remove_orphans s ps 0 = (s', n)"
    by (auto simp: cleanup_orphan_temps_def split: option.splits sum.splits)
  from walkdir_paths [OF assms(1) ps(1)] remove_orphans_changes [OF _ ps(2) assms(3)] show ?thesis by blast
qed

text \<open>C40: the cleanup removes nothing but orphans. Whatever it was asked to walk, an entry that is
  different afterwards is gone, was not a directory, and its name contains \<open>.ama.\<close> and ends in
  \<open>.tmp\<close>.\<close>

theorem cleanup_only_orphans:
  assumes "lists_names ls" and "cleanup_orphan_temps fuel ls s root = Some (s', n)"
    and "fs_nodes s' l \<noteq> fs_nodes s l"
  shows "fs_nodes s' l = None \<and> orphan_loc l \<and> \<not> is_dir_at (fs_nodes s) l"
  using assms by (rule cleanup_changes)

section \<open>A concrete walk\<close>

text \<open>The listing a tree itself gives, for trees named by a list of entries.\<close>

definition listing :: "(location \<times> fs_node) list \<Rightarrow> lister" where
  "listing nodes s d =
     (case fs_lookup s True d of
        Found l \<Rightarrow> Inr (map (\<lambda>(k, nd). Inr (last k)) (filter (\<lambda>(k, nd). k \<noteq> [] \<and> butlast k = l) nodes))
      | _ \<Rightarrow> Inl enoent)"

lemma listing_names:
  "list_all (\<lambda>(k, nd). list_all valid_name k) nodes \<Longrightarrow> lists_names (listing nodes)"
  by (fastforce simp: lists_names_def listing_def list_all_iff split: fs_lookup.splits)

text \<open>A workspace with a link to another program's spool, and one with a link to itself as well.\<close>

definition linked_nodes :: "(location \<times> fs_node) list" where
  "linked_nodes =
     [([''spool''], Directory 493), ([''spool'', ''job.ama.1.tmp''], RegFile ''work'' 420),
      ([''ws''], Directory 493), ([''ws'', ''out''], Symlink ''/spool''),
      ([''ws'', ''a.txt.ama.7.tmp''], RegFile ''hi'' 420), ([''ws'', ''a.txt''], RegFile ''hi'' 420)]"

definition looping_nodes :: "(location \<times> fs_node) list" where
  "looping_nodes = ([''ws'', ''self''], Symlink ''.'') # linked_nodes"

lemma list_height:
  assumes "list_all (\<lambda>(k, nd). length k \<le> h) nodes"
  shows "\<forall>l. fs_nodes (fs_of_list nodes) l \<noteq> None \<longrightarrow> length l \<le> h"
proof (intro allI impI)
  fix l assume "fs_nodes (fs_of_list nodes) l \<noteq> None"
  then have "l = [] \<or> (\<exists>nd. (l, nd) \<in> set nodes)"
    by (auto simp: fs_of_list_def split: if_splits dest: map_of_SomeD)
  with assms show "length l \<le> h" by (auto simp: list_all_iff)
qed

theorem cleanup_terminates_witness:
  "\<exists>s' n. cleanup_orphan_temps 123 (listing looping_nodes) (fs_of_list looping_nodes) ''/ws'' = Some (s', n)"
proof (rule cleanup_terminates [where h = 2])
  show "lists_names (listing looping_nodes)" by (rule listing_names) code_simp
  show "\<forall>l. fs_nodes (fs_of_list looping_nodes) l \<noteq> None \<longrightarrow> length l \<le> 2" by (rule list_height) code_simp
qed simp_all

theorem cleanup_only_orphans_witness:
  "case cleanup_orphan_temps 9 (listing linked_nodes) (fs_of_list linked_nodes) ''/ws'' of
     None \<Rightarrow> False
   | Some (s', n) \<Rightarrow> fs_nodes s' [''ws'', ''a.txt.ama.7.tmp''] = None \<and> orphan_loc [''ws'', ''a.txt.ama.7.tmp''] \<and>
       fs_nodes s' [''ws'', ''a.txt''] \<noteq> None"
proof -
  let ?c = "cleanup_orphan_temps 9 (listing linked_nodes) (fs_of_list linked_nodes) ''/ws''"
  have run: "(case ?c of None \<Rightarrow> False | Some (s', n) \<Rightarrow> fs_nodes s' [''ws'', ''a.txt.ama.7.tmp''] = None \<and>
       fs_nodes s' [''ws'', ''a.txt''] \<noteq> None)" by code_simp
  then obtain s' n where c: "?c = Some (s', n)" "fs_nodes s' [''ws'', ''a.txt.ama.7.tmp''] = None"
    "fs_nodes s' [''ws'', ''a.txt''] \<noteq> None" by (auto split: option.splits)
  have "fs_nodes (fs_of_list linked_nodes) [''ws'', ''a.txt.ama.7.tmp''] \<noteq> None" by code_simp
  with c(2) have "fs_nodes s' [''ws'', ''a.txt.ama.7.tmp''] \<noteq>
      fs_nodes (fs_of_list linked_nodes) [''ws'', ''a.txt.ama.7.tmp'']" by metis
  from cleanup_only_orphans [OF _ c(1) this] have "orphan_loc [''ws'', ''a.txt.ama.7.tmp'']"
    using listing_names [of linked_nodes] by (simp add: linked_nodes_def valid_name_def)
  with c show ?thesis by simp
qed

text \<open>The cleanup leaves the workspace. It follows links to directories, so with a link to another
  program's spool in the workspace it deletes that program's temporary file.\<close>

theorem cleanup_leaves_workspace:
  "case cleanup_orphan_temps 9 (listing linked_nodes) (fs_of_list linked_nodes) ''/ws'' of
     None \<Rightarrow> False
   | Some (s', n) \<Rightarrow> n = 2 \<and> fs_nodes s' [''spool'', ''job.ama.1.tmp''] = None \<and>
       fs_nodes (fs_of_list linked_nodes) [''spool'', ''job.ama.1.tmp''] = Some (RegFile ''work'' 420)"
  by code_simp

end
