(* ===== verification/Daemon_Main.thy ===== *)
theory Daemon_Main
  imports Config_Load Router Orphan_Cleanup
begin

text \<open>
  The start of the daemon, \<open>main\<close> in \<open>safa-daemon/src/main.rs\<close>: load the configuration from the
  directory \<open>config\<close>, remove orphaned temporary files from the workspace, build the state and
  the bind address, bind the listener. What follows, serving requests until shutdown, is \<open>answers\<close>.
  Binding a TCP listener is an input: the error it gives for an address, if any.
\<close>

section \<open>Starting\<close>

record start_env =
  se_toml :: toml_reader
  se_lister :: lister
  se_fuel :: nat
  se_authorizer_session :: "string \<Rightarrow> string"
  se_session :: string
  se_now :: instant
  se_bind :: "string \<Rightarrow> string option"

text \<open>Both errors end \<open>main\<close>; the cleanup has run before the second.\<close>

datatype start_error = BootFailed ama_error | BindFailed string

definition bind_addr :: "ama_config \<Rightarrow> string" where
  "bind_addr cfg = cf_bind_host cfg @ '':'' @ show_nat (cf_bind_port cfg)"

definition start_daemon ::
  "start_env \<Rightarrow> fs_state \<Rightarrow> (fs_state \<times> (start_error + string \<times> app_state)) option" where
  "start_daemon E s =
     (case load_config (se_toml E) (se_lister E) s ''config'' of
        Inl e \<Rightarrow> Some (s, Inl (BootFailed e))
      | Inr cfg \<Rightarrow>
          (case cleanup_orphan_temps (se_fuel E) (se_lister E) s (cf_workspace_root cfg) of
             None \<Rightarrow> None
           | Some (s1, cleaned) \<Rightarrow>
               (let addr = bind_addr cfg;
                    state = app_state_new cfg (se_authorizer_session E) (se_session E) (se_now E) s1
                in case se_bind E addr of
                     Some e \<Rightarrow> Some (s1, Inl (BindFailed e))
                   | None \<Rightarrow> Some (s1, Inr (addr, state)))))"

lemma start_daemon_cases:
  assumes "start_daemon E s = Some (s1, r)"
  obtains (refused) e where "load_config (se_toml E) (se_lister E) s ''config'' = Inl e" "s1 = s" "r = Inl (BootFailed e)"
  | (unbound) cfg n e where "load_config (se_toml E) (se_lister E) s ''config'' = Inr cfg"
      "cleanup_orphan_temps (se_fuel E) (se_lister E) s (cf_workspace_root cfg) = Some (s1, n)"
      "r = Inl (BindFailed e)"
  | (listening) cfg n where "load_config (se_toml E) (se_lister E) s ''config'' = Inr cfg"
      "cleanup_orphan_temps (se_fuel E) (se_lister E) s (cf_workspace_root cfg) = Some (s1, n)"
      "r = Inr (bind_addr cfg, app_state_new cfg (se_authorizer_session E) (se_session E) (se_now E) s1)"
  using assms by (auto simp: start_daemon_def Let_def split: sum.splits option.splits)


text \<open>What a request may do to the parts of the state that actions touch.\<close>

lemma serve_action_step:
  assumes "serve_action W too_large rd st q = (resp, st', effs, log)"
  obtains (kept) "st_config st' = st_config st" "st_agent_registry st' = st_agent_registry st" "st_fs st' = st_fs st"
  | (acted) aid a rq cx where "resolve_agent_id st q = Inr aid" "registry_get (st_agent_registry st) aid = Some a"
      "cx_agent_id cx = Some aid" "cx_action_id cx = rd_action_id rd" "st_config st' = st_config st"
      "st_agent_registry st' =
         hm_insert aid (oc_auth (process_action (w_host W) (st_fs st) a rq (st_config st) cx)) (st_agent_registry st)"
      "st_fs st' = oc_fs (process_action (w_host W) (st_fs st) a rq (st_config st) cx)"
proof (cases "handle_action W rd st q = (resp, st', effs, log)")
  case False
  with assms have "st' = st" by (auto simp: serve_action_def split: if_splits)
  then show ?thesis by (intro kept) simp_all
next
  case True
  show ?thesis
  proof (cases rule: handle_action_cases [of W rd st q])
    case (stopped r s)
    with True show ?thesis by (intro kept) auto
  next
    case (checked aid key st1 status cache)
    have st1: "st1 = snd (check_rate_limit st aid (rd_now rd))" by (simp add: checked(3))
    show ?thesis
    proof (cases "status = New")
      case False
      with checked(6) True show ?thesis by (intro kept) (auto simp: st1 split: idem_status.splits)
    next
      case new: True
      let ?st = "st1\<lparr>st_cache := cache\<rparr>"
      from checked(6) new True have run: "run_owned W ?st rd aid key (hq_body q) = (resp, st', effs, log)" by simp
      show ?thesis
      proof (cases rule: run_owned_cases [of W "hq_body q" ?st rd aid key])
        case (ran rq a cx st2)
        show ?thesis
          by (rule acted [of aid a cx rq]) (use ran run checked(1) in \<open>auto simp: st1\<close>)
      qed (use run in \<open>auto intro!: kept simp: st1\<close>)
    qed
  qed
qed

text \<open>The registry has an authorizer for exactly the configured agents, each with its agent's limits.\<close>

definition registry_matches :: "ama_config \<Rightarrow> agent_registry \<Rightarrow> bool" where
  "registry_matches cfg reg \<longleftrightarrow>
     (\<forall>aid. map_option (\<lambda>a. (pa_max_capacity a, hm_get (pa_domains a))) (registry_get reg aid) =
            map_option (\<lambda>c. (ac_max_capacity c, hm_get (ac_domain_policies c))) (hm_get (cf_agents cfg) aid))"

lemma registry_matches_dom:
  assumes "registry_matches cfg reg"
  shows "registry_get reg aid = None \<longleftrightarrow> hm_get (cf_agents cfg) aid = None"
proof -
  from assms have "map_option (\<lambda>a. (pa_max_capacity a, hm_get (pa_domains a))) (registry_get reg aid) =
      map_option (\<lambda>c. (ac_max_capacity c, hm_get (ac_domain_policies c))) (hm_get (cf_agents cfg) aid)"
    unfolding registry_matches_def by blast
  then show ?thesis by (cases "registry_get reg aid"; cases "hm_get (cf_agents cfg) aid"; simp)
qed

lemma process_action_limits:
  "pa_max_capacity (oc_auth (process_action H s a rq cfg cx)) = pa_max_capacity a"
  "pa_domains (oc_auth (process_action H s a rq cfg cx)) = pa_domains a"
  by (cases rule: process_action_cases [of H s rq cfg cx a];
      auto simp: refused_def try_reserve_def split: sum.splits option.splits)+

lemma registry_matches_insert:
  "registry_matches cfg reg \<Longrightarrow> registry_get reg aid = Some a \<Longrightarrow>
     pa_max_capacity a' = pa_max_capacity a \<Longrightarrow> pa_domains a' = pa_domains a \<Longrightarrow>
     registry_matches cfg (hm_insert aid a' reg)"
  unfolding registry_matches_def registry_get_def by (auto simp: hmap_simps) (metis option.simps(9))+

lemma registry_new_matches:
  assumes "wf_agents U (cf_agents cfg)"
  shows "registry_matches cfg (registry_new session (map snd (cf_agents cfg)))"
proof -
  let ?new = "\<lambda>c. p0_new (ac_max_capacity c) (ac_domain_policies c) (session (ac_agent_id c))"
  from assms have wf: "hm_wf (cf_agents cfg)"
    and ag: "hm_get (cf_agents cfg) aid = Some c \<Longrightarrow> ac_agent_id c = aid \<and> wf_agent U c" for aid c
    by (auto simp: wf_agents_def)
  have key: "(aid, c) \<in> set (cf_agents cfg) \<Longrightarrow> ac_agent_id c = aid \<and> hm_wf (ac_domain_policies c)" for aid c
    using ag hm_mem_get [OF wf] by (auto simp: wf_agent_def)
  have reg: "map (\<lambda>c. (ac_agent_id c, ?new c)) (map snd (cf_agents cfg)) = map (\<lambda>(aid, c). (aid, ?new c)) (cf_agents cfg)"
    using key by auto
  have "hm_wf (map (\<lambda>(aid, c). (aid, ?new c)) (cf_agents cfg))" using wf
    by (simp add: hm_wf_def o_def split_def)
  note get = hm_get_collect [OF this]
  have this_reg: "registry_get (registry_new session (map snd (cf_agents cfg))) aid = map_option ?new (hm_get (cf_agents cfg) aid)" for aid
    unfolding registry_get_def registry_new_def reg get
    by (simp add: hm_get_def map_of_map)
  have "map_option (\<lambda>a. (pa_max_capacity a, hm_get (pa_domains a)))
        (registry_get (registry_new session (map snd (cf_agents cfg))) aid) =
      map_option (\<lambda>c. (ac_max_capacity c, hm_get (ac_domain_policies c))) (hm_get (cf_agents cfg) aid)" for aid
  proof (cases "hm_get (cf_agents cfg) aid")
    case (Some c)
    with ag have "hm_wf (ac_domain_policies c)" by (auto simp: wf_agent_def)
    then have "hm_get (hm_collect (ac_domain_policies c)) = hm_get (ac_domain_policies c)"
      by (intro ext hm_get_collect)
    with Some this_reg show ?thesis by (simp add: p0_new_def)
  qed (simp add: this_reg)
  then show ?thesis by (simp add: registry_matches_def)
qed

section \<open>What every reachable state satisfies\<close>

definition daemon_ok :: "unicode \<Rightarrow> app_state \<Rightarrow> bool" where
  "daemon_ok U st \<longleftrightarrow> app_inv st \<and> wf_config U (st_config st) \<and> registry_matches (st_config st) (st_agent_registry st)"

lemma serves_daemon_ok:
  "serves W st0 st \<Longrightarrow> daemon_ok U st0 \<Longrightarrow> picks (w_first_key W) \<Longrightarrow> daemon_ok U st \<and> st_config st = st_config st0"
proof (induction rule: serves.induct)
  case (served st too_large rd q resp st' effs log)
  then have ok: "daemon_ok U st" "st_config st = st_config st0" by simp_all
  have "app_inv st'"
    using serves_inv [OF serves.served [OF serves.booted served.hyps(2)]] ok(1) served.prems(2)
    by (simp add: daemon_ok_def)
  with served.hyps(2) ok show ?case
    by (cases rule: serve_action_step)
      (auto simp: daemon_ok_def intro!: registry_matches_insert process_action_limits)
qed simp


text \<open>A boot beside a half-written temporary file, and one write.\<close>

definition sample_boot_nodes :: "(location \<times> fs_node) list" where
  "sample_boot_nodes =
     [([''ws''], Directory 493), ([''ws'', ''a.txt.ama.7.tmp''], RegFile ''half'' 420),
      ([''config''], Directory 493),
      ([''config'', ''config.toml''], RegFile ''c'' 420), ([''config'', ''domains.toml''], RegFile ''d'' 420),
      ([''config'', ''intents.toml''], RegFile ''i'' 420), ([''config'', ''allowlist.toml''], RegFile ''a'' 420)]"

definition sample_env :: start_env where
  "sample_env = \<lparr>se_toml = sample_reader, se_lister = listing sample_boot_nodes, se_fuel = 82,
     se_authorizer_session = (\<lambda>_. ''s''), se_session = ''sess'', se_now = 0, se_bind = (\<lambda>_. None)\<rparr>"

definition sample_fallbacks :: fallbacks where
  "sample_fallbacks =
     \<lparr>fb_unmatched = (\<lambda>_ _. \<lparr>re_status = 404, re_headers = [], re_body = []\<rparr>),
      fb_too_large = \<lparr>re_status = 413, re_headers = [], re_body = []\<rparr>,
      fb_declared_too_large = (\<lambda>q. length (hq_body q) > body_limit), fb_decode = Inr\<rparr>"

text \<open>The daemon's state after it has served one write.\<close>

definition sample_life :: "(fs_state \<times> (start_error + string \<times> app_state)) option \<Rightarrow> (string \<times> app_state) option" where
  "sample_life r =
     (case r of
        Some (s1, Inr (addr, st0)) \<Rightarrow>
          Some (addr, fst (snd (serve_request sample_world sample_fallbacks (sample_reading 5) st0 ''/ama/action''
            (sample_post ''default'' ''write''))))
      | _ \<Rightarrow> None)"


end
