(* ===== verification/Idempotency_Concurrent.thy ===== *)
theory Idempotency_Concurrent
  imports Idempotency
begin

text \<open>
  The cache under concurrent handlers (\<open>check_or_insert\<close> in
  \<open>safa-core/src/idempotency.rs\<close>, its caller \<open>handle_action\<close> in
  \<open>safa-daemon/src/server.rs\<close>, lines 385 to 407). A handler purges entry by entry, reads the
  map's length, and enters the shard's critical section: three moments between which others
  run. \<open>DashMap::len\<close> adds up shards one at a time, so the bit a handler keeps of it is
  whatever the event says; runs in which it is exact are singled out by \<open>exact\<close>.
\<close>

datatype handler =
    Idle
  | Purging uuid instant
  | Snapped uuid bool
  | Owner uuid instant
  | Dropping uuid

record cc_state =
  cc_cache :: idem_cache
  cc_now :: instant
  cc_pc :: "nat \<Rightarrow> handler"
  cc_grants :: "(uuid \<times> instant) list"

datatype cc_event =
    Tick nat
  | Start nat uuid
  | Purge nat uuid
  | Snap nat bool
  | Enter nat nat
  | Remove nat
  | Finish nat string
  | Cancel nat

definition cc_init :: "nat \<Rightarrow> nat \<Rightarrow> cc_state" where
  "cc_init max_entries ttl =
     \<lparr>cc_cache = cache_new max_entries ttl, cc_now = 0, cc_pc = (\<lambda>_. Idle), cc_grants = []\<rparr>"

text \<open>One handler's move to a new program point.\<close>

definition goto :: "nat \<Rightarrow> handler \<Rightarrow> cc_state \<Rightarrow> cc_state" where
  "goto t h s = s\<lparr>cc_pc := (cc_pc s)(t := h)\<rparr>"

lemma goto_simps [simp]:
  "cc_cache (goto t h s) = cc_cache s" "cc_now (goto t h s) = cc_now s"
  "cc_grants (goto t h s) = cc_grants s" "cc_pc (goto t h s) = (cc_pc s)(t := h)"
  by (simp_all add: goto_def)

text \<open>\<open>retain\<close> visiting one entry with the instant read at the start of the purge.\<close>

definition purge_key :: "idem_cache \<Rightarrow> instant \<Rightarrow> uuid \<Rightarrow> idem_cache" where
  "purge_key c now k =
     (case hm_get (ic_entries c) k of
        Some e \<Rightarrow> if now - ce_created_at e < ic_ttl c then c else cache_remove c k
      | None \<Rightarrow> c)"

text \<open>
  The critical section, by its outcome: the owner goes on, a refused handler answers at once,
  and on \<open>Full\<close> the handler still has its \<open>remove\<close> to run. \<open>d\<close> is the time that passes
  between the two readings of the clock inside the section.
\<close>

definition enter :: "nat \<Rightarrow> uuid \<Rightarrow> bool \<Rightarrow> nat \<Rightarrow> cc_state \<Rightarrow> cc_state" where
  "enter t k full d s =
     (let t3 = cc_now s + d;
          (st, c) = entry_step (cc_cache s) k full (cc_now s) t3;
          s' = s\<lparr>cc_cache := c, cc_now := t3\<rparr>
      in case st of
           New \<Rightarrow> goto t (Owner k t3) (s'\<lparr>cc_grants := (k, t3) # cc_grants s\<rparr>)
         | Full \<Rightarrow> goto t (Dropping k) s'
         | _ \<Rightarrow> goto t Idle s')"

fun cc_exec :: "cc_event \<Rightarrow> cc_state \<Rightarrow> cc_state option" where
  "cc_exec (Tick d) s = Some (s\<lparr>cc_now := cc_now s + d\<rparr>)"
| "cc_exec (Start t k) s =
     (case cc_pc s t of Idle \<Rightarrow> Some (goto t (Purging k (cc_now s)) s) | _ \<Rightarrow> None)"
| "cc_exec (Purge t k') s =
     (case cc_pc s t of
        Purging k t1 \<Rightarrow> Some (s\<lparr>cc_cache := purge_key (cc_cache s) t1 k'\<rparr>) | _ \<Rightarrow> None)"
| "cc_exec (Snap t full) s =
     (case cc_pc s t of Purging k t1 \<Rightarrow> Some (goto t (Snapped k full) s) | _ \<Rightarrow> None)"
| "cc_exec (Enter t d) s =
     (case cc_pc s t of Snapped k full \<Rightarrow> Some (enter t k full d s) | _ \<Rightarrow> None)"
| "cc_exec (Remove t) s =
     (case cc_pc s t of
        Dropping k \<Rightarrow> Some (goto t Idle (s\<lparr>cc_cache := cache_remove (cc_cache s) k\<rparr>)) | _ \<Rightarrow> None)"
| "cc_exec (Finish t r) s =
     (case cc_pc s t of
        Owner k g \<Rightarrow> Some (goto t Idle (s\<lparr>cc_cache := cache_complete (cc_cache s) k r\<rparr>)) | _ \<Rightarrow> None)"
| "cc_exec (Cancel t) s = (case cc_pc s t of Owner k g \<Rightarrow> Some (goto t Idle s) | _ \<Rightarrow> None)"

fun cc_run :: "cc_event list \<Rightarrow> cc_state \<Rightarrow> cc_state option" where
  "cc_run [] s = Some s"
| "cc_run (e # es) s = (case cc_exec e s of Some s' \<Rightarrow> cc_run es s' | None \<Rightarrow> None)"

lemma cc_run_append:
  "cc_run (es @ fs) s = (case cc_run es s of Some s' \<Rightarrow> cc_run fs s' | None \<Rightarrow> None)"
  by (induction es arbitrary: s) (auto split: option.splits)

text \<open>Runs whose snapshots count the map as it is, and the handlers an event belongs to.\<close>

fun exact :: "cc_event list \<Rightarrow> cc_state \<Rightarrow> bool" where
  "exact [] s = True"
| "exact (e # es) s =
     ((case e of Snap t full \<Rightarrow> full = at_capacity (cc_cache s) | _ \<Rightarrow> True) \<and>
      (case cc_exec e s of Some s' \<Rightarrow> exact es s' | None \<Rightarrow> True))"

fun event_thread :: "cc_event \<Rightarrow> nat option" where
  "event_thread (Tick d) = None"
| "event_thread (Start t k) = Some t"
| "event_thread (Purge t k) = Some t"
| "event_thread (Snap t full) = Some t"
| "event_thread (Enter t d) = Some t"
| "event_thread (Remove t) = Some t"
| "event_thread (Finish t r) = Some t"
| "event_thread (Cancel t) = Some t"

definition threads_below :: "nat \<Rightarrow> cc_event list \<Rightarrow> bool" where
  "threads_below n es \<longleftrightarrow> (\<forall>e \<in> set es. \<forall>t. event_thread e = Some t \<longrightarrow> t < n)"

fun is_remove :: "cc_event \<Rightarrow> bool" where
  "is_remove (Remove t) = True"
| "is_remove _ = False"

definition no_remove :: "cc_event list \<Rightarrow> bool" where
  "no_remove es \<longleftrightarrow> list_all (\<lambda>e. \<not> is_remove e) es"

section \<open>Ownership without \<open>remove\<close>\<close>

text \<open>
  The invariant: a key granted less than \<open>ttl\<close> ago still has the entry its grant wrote, and
  no purge in progress carries an instant from the future.
\<close>

definition cc_inv :: "cc_state \<Rightarrow> bool" where
  "cc_inv s \<longleftrightarrow>
     hm_wf (ic_entries (cc_cache s)) \<and> 0 < ic_ttl (cc_cache s) \<and>
     (\<forall>t k t1. cc_pc s t = Purging k t1 \<longrightarrow> t1 \<le> cc_now s) \<and>
     (\<forall>(k, g) \<in> set (cc_grants s).
        g + ic_ttl (cc_cache s) \<le> cc_now s \<or>
        (\<exists>e. hm_get (ic_entries (cc_cache s)) k = Some e \<and> g \<le> ce_created_at e)) \<and>
     sorted_wrt (\<lambda>(k', g') (k, g). k' = k \<longrightarrow> g + ic_ttl (cc_cache s) \<le> g') (cc_grants s)"

lemma purge_key_simps [simp]:
  "ic_ttl (purge_key c t k) = ic_ttl c"
  "ic_max_entries (purge_key c t k) = ic_max_entries c"
  "hm_wf (ic_entries c) \<Longrightarrow> hm_wf (ic_entries (purge_key c t k))"
  by (auto simp: purge_key_def cache_remove_def hmap_simps split: option.splits)

lemma purge_key_get:
  "hm_wf (ic_entries c) \<Longrightarrow> hm_get (ic_entries (purge_key c t k)) k' =
     (case hm_get (ic_entries c) k' of
        Some e \<Rightarrow> if k' = k \<and> \<not> t - ce_created_at e < ic_ttl c then None else Some e
      | None \<Rightarrow> None)"
  by (auto simp: purge_key_def cache_remove_def hmap_simps split: option.splits)

lemma cache_complete_simps [simp]:
  "ic_ttl (cache_complete c k r) = ic_ttl c"
  "ic_max_entries (cache_complete c k r) = ic_max_entries c"
  "hm_wf (ic_entries c) \<Longrightarrow> hm_wf (ic_entries (cache_complete c k r))"
  by (auto simp: cache_complete_def hmap_simps split: option.splits)

lemma cache_complete_get:
  "hm_get (ic_entries (cache_complete c k r)) k' =
     (case hm_get (ic_entries c) k' of
        Some e \<Rightarrow> Some (if k' = k then e\<lparr>ce_in_flight := False, ce_result := Some r\<rparr> else e)
      | None \<Rightarrow> None)"
  by (auto simp: cache_complete_def hmap_simps split: option.splits)

lemma cc_inv_init: "0 < ttl \<Longrightarrow> cc_inv (cc_init n ttl)"
  by (simp add: cc_inv_def cc_init_def cache_new_def hm_wf_def)

lemma cc_inv_move:
  assumes "cc_inv s" and "cc_now s \<le> cc_now s'" and "cc_grants s' = cc_grants s"
    and "ic_ttl (cc_cache s') = ic_ttl (cc_cache s)" and "hm_wf (ic_entries (cc_cache s'))"
    and "\<And>t k t1. cc_pc s' t = Purging k t1 \<Longrightarrow> t1 \<le> cc_now s'"
    and "\<And>k e. hm_get (ic_entries (cc_cache s)) k = Some e \<Longrightarrow>
       ce_created_at e + ic_ttl (cc_cache s) \<le> cc_now s' \<or>
       (\<exists>e'. hm_get (ic_entries (cc_cache s')) k = Some e' \<and> ce_created_at e \<le> ce_created_at e')"
  shows "cc_inv s'"
proof -
  have "g + ic_ttl (cc_cache s) \<le> cc_now s' \<or>
        (\<exists>e. hm_get (ic_entries (cc_cache s')) k = Some e \<and> g \<le> ce_created_at e)"
    if "(k, g) \<in> set (cc_grants s)" for k g
  proof -
    from that assms(1) consider "g + ic_ttl (cc_cache s) \<le> cc_now s"
      | e where "hm_get (ic_entries (cc_cache s)) k = Some e" "g \<le> ce_created_at e"
      unfolding cc_inv_def by blast
    then show ?thesis
    proof cases
      case 1
      with assms(2) show ?thesis by simp
    next
      case 2
      with assms(7) [OF 2(1)] show ?thesis by (meson add_le_mono1 le_trans)
    qed
  qed
  then have held: "\<forall>(k, g) \<in> set (cc_grants s'). g + ic_ttl (cc_cache s') \<le> cc_now s' \<or>
      (\<exists>e. hm_get (ic_entries (cc_cache s')) k = Some e \<and> g \<le> ce_created_at e)"
    using assms(3,4) by (intro ballI, clarsimp) blast
  have "\<forall>t k t1. cc_pc s' t = Purging k t1 \<longrightarrow> t1 \<le> cc_now s'"
    using assms(6) by blast
  with held assms(1-5) show ?thesis unfolding cc_inv_def by simp
qed

lemma enter_cases:
  obtains (grant) "enter t k full d s = goto t (Owner k (cc_now s + d))
        (s\<lparr>cc_cache := (cc_cache s)\<lparr>ic_entries :=
             hm_insert k (fresh_entry (cc_now s + d)) (ic_entries (cc_cache s))\<rparr>,
           cc_now := cc_now s + d, cc_grants := (k, cc_now s + d) # cc_grants s\<rparr>)"
      "hm_get (ic_entries (cc_cache s)) k = None \<and> \<not> full \<or>
       (\<exists>e. hm_get (ic_entries (cc_cache s)) k = Some e \<and>
            ic_ttl (cc_cache s) < cc_now s - ce_created_at e)"
  | (same) h where "enter t k full d s = goto t h (s\<lparr>cc_now := cc_now s + d\<rparr>)"
      "h = Idle \<or> h = Dropping k \<and> full"
proof (cases rule: entry_step_cases [of "cc_cache s" k full "cc_now s" "cc_now s + d"])
  case new
  then show ?thesis by (intro grant) (simp_all add: enter_def Let_def)
next
  case (same st e)
  have "enter t k full d s = goto t Idle (s\<lparr>cc_now := cc_now s + d\<rparr>)"
    using same by (auto simp: enter_def split: option.splits)
  with that(2) show ?thesis by blast
next
  case full
  have "enter t k full d s = goto t (Dropping k) (s\<lparr>cc_now := cc_now s + d\<rparr>)"
    using full by (simp add: enter_def)
  with full that(2) show ?thesis by blast
qed

lemma enter_inv:
  assumes "cc_inv s"
  shows "cc_inv (enter t k full d s)"
proof (cases rule: enter_cases [of t k full d s])
  case grant
  let ?ttl = "ic_ttl (cc_cache s)"
  have "g + ?ttl \<le> cc_now s" if "(k, g) \<in> set (cc_grants s)" for g
    using assms that grant(2) unfolding cc_inv_def by fastforce
  then have sorted: "\<forall>(k', g) \<in> set (cc_grants s). k = k' \<longrightarrow> g + ?ttl \<le> cc_now s + d"
    by fastforce
  have held: "g + ?ttl \<le> cc_now s + d \<or>
      (\<exists>e. hm_get (hm_insert k (fresh_entry (cc_now s + d)) (ic_entries (cc_cache s))) k' = Some e \<and>
           g \<le> ce_created_at e)" if "(k', g) \<in> set (cc_grants s)" for k' g
  proof (cases "k' = k")
    case True
    with sorted that show ?thesis by auto
  next
    case False
    with assms that show ?thesis unfolding cc_inv_def by (fastforce simp: hmap_simps)
  qed
  with assms sorted grant(1) show ?thesis
    unfolding cc_inv_def by (auto simp: hmap_simps fresh_entry_def trans_le_add1)
next
  case (same h)
  show ?thesis unfolding same(1)
    by (rule cc_inv_move [OF assms])
      (use assms same(2) in \<open>auto simp: cc_inv_def trans_le_add1 split: if_splits\<close>)
qed

lemma cc_inv_facts:
  assumes "cc_inv s"
  shows "hm_wf (ic_entries (cc_cache s))" and "0 < ic_ttl (cc_cache s)"
    and "cc_pc s t = Purging k t1 \<Longrightarrow> t1 \<le> cc_now s"
  using assms by (auto simp: cc_inv_def)

lemma cc_exec_inv:
  assumes "cc_inv s" and "cc_exec e s = Some s'" and "\<not> is_remove e"
  shows "cc_inv s'"
proof -
  note facts = cc_inv_facts [OF assms(1)]
  show ?thesis
  proof (cases "\<exists>t d. e = Enter t d")
    case True
    with assms(1,2) enter_inv show ?thesis by (auto split: handler.splits)
  next
    case False
    show ?thesis
    proof (rule cc_inv_move [OF assms(1)])
      show "cc_now s \<le> cc_now s'" and "cc_grants s' = cc_grants s"
        and "ic_ttl (cc_cache s') = ic_ttl (cc_cache s)" and "hm_wf (ic_entries (cc_cache s'))"
        using assms(2,3) False facts(1) by (cases e; auto split: handler.splits)+
      show "t1 \<le> cc_now s'" if "cc_pc s' t = Purging k t1" for t k t1
      proof -
        have "cc_pc s t = Purging k t1 \<or> t1 = cc_now s" and "cc_now s \<le> cc_now s'"
          using assms(2,3) that False by (cases e; auto split: handler.splits if_splits)+
        with facts(3) show ?thesis by fastforce
      qed
      show "ce_created_at a + ic_ttl (cc_cache s) \<le> cc_now s' \<or>
            (\<exists>e'. hm_get (ic_entries (cc_cache s')) k = Some e' \<and> ce_created_at a \<le> ce_created_at e')"
        if "hm_get (ic_entries (cc_cache s)) k = Some a" for k a
      proof (cases "\<exists>t k'. e = Purge t k'")
        case True
        then obtain t k' where e: "e = Purge t k'" by blast
        with assms(2) obtain k0 t1 where pc: "cc_pc s t = Purging k0 t1"
          and s': "s' = s\<lparr>cc_cache := purge_key (cc_cache s) t1 k'\<rparr>" by (auto split: handler.splits)
        from facts(3) [OF pc] that facts(1,2) show ?thesis
          by (auto simp: s' purge_key_get)
      next
        case not_purge: False
        from assms(2,3) that False not_purge show ?thesis
          by (cases e) (auto split: handler.splits simp: cache_complete_get)
      qed
    qed
  qed
qed

lemma enter_limits: "ic_ttl (cc_cache (enter t k full d s)) = ic_ttl (cc_cache s) \<and>
    ic_max_entries (cc_cache (enter t k full d s)) = ic_max_entries (cc_cache s)"
  by (cases rule: enter_cases [of t k full d s]) simp_all

lemma cc_exec_limits: "cc_exec e s = Some s' \<Longrightarrow> ic_ttl (cc_cache s') = ic_ttl (cc_cache s) \<and>
    ic_max_entries (cc_cache s') = ic_max_entries (cc_cache s)"
  by (cases e) (auto split: handler.splits simp: cache_remove_def enter_limits)

lemma cc_run_inv:
  "cc_inv s \<Longrightarrow> cc_run es s = Some s' \<Longrightarrow> no_remove es \<Longrightarrow>
     cc_inv s' \<and> ic_ttl (cc_cache s') = ic_ttl (cc_cache s)"
proof (induction es arbitrary: s)
  case (Cons e es)
  from Cons.prems(2) obtain s1 where s1: "cc_exec e s = Some s1" "cc_run es s1 = Some s'"
    by (auto split: option.splits)
  from Cons.prems(3) have e: "\<not> is_remove e" "no_remove es" by (simp_all add: no_remove_def)
  from Cons.IH [OF cc_exec_inv [OF Cons.prems(1) s1(1) e(1)] s1(2) e(2)] cc_exec_limits [OF s1(1)]
  show ?case by simp
qed simp

section \<open>The size under concurrency\<close>

text \<open>Handlers that read a length below the limit and have not entered yet.\<close>

definition pending :: "nat \<Rightarrow> cc_state \<Rightarrow> nat set" where
  "pending n s = {t. t < n \<and> (\<exists>k. cc_pc s t = Snapped k False)}"

lemma pending_finite [simp]: "finite (pending n s)" and pending_card: "card (pending n s) \<le> n"
proof -
  have sub: "pending n s \<subseteq> {..<n}" by (auto simp: pending_def)
  then show "finite (pending n s)" by (rule finite_subset) simp
  from card_mono [OF _ sub] show "card (pending n s) \<le> n" by simp
qed

lemma pending_goto:
  "t < n \<Longrightarrow> pending n (goto t h s) =
     (if \<exists>k. h = Snapped k False then insert t (pending n s) else pending n s - {t})"
  by (auto simp: pending_def)

lemma pending_update [simp]:
  "pending n (s\<lparr>cc_cache := c\<rparr>) = pending n s"
  "pending n (s\<lparr>cc_now := x\<rparr>) = pending n s"
  "pending n (s\<lparr>cc_grants := gs\<rparr>) = pending n s"
  by (simp_all add: pending_def)

definition cc_bounded :: "nat \<Rightarrow> cc_state \<Rightarrow> bool" where
  "cc_bounded n s \<longleftrightarrow>
     hm_wf (ic_entries (cc_cache s)) \<and>
     cache_len (cc_cache s) + card (pending n s) \<le> ic_max_entries (cc_cache s) - 1 + n"

lemma cache_remove_len: "hm_wf (ic_entries c) \<Longrightarrow> cache_len (cache_remove c k) \<le> cache_len c"
  by (auto simp: cache_remove_def cache_len_def hmap_simps)

lemma purge_key_len: "hm_wf (ic_entries c) \<Longrightarrow> cache_len (purge_key c t k) \<le> cache_len c"
  by (auto simp: purge_key_def cache_remove_len split: option.splits)

lemma cc_bounded_shrink:
  assumes "cc_bounded n s" and "hm_wf (ic_entries (cc_cache s'))"
    and "cache_len (cc_cache s') \<le> cache_len (cc_cache s)" and "pending n s' \<subseteq> pending n s"
    and "ic_max_entries (cc_cache s') = ic_max_entries (cc_cache s)"
  shows "cc_bounded n s'"
  using assms card_mono [OF pending_finite assms(4)] by (simp add: cc_bounded_def)

lemma enter_bounded:
  assumes "cc_bounded n s" and "t < n" and "cc_pc s t = Snapped k full"
  shows "cc_bounded n (enter t k full d s)"
proof (cases rule: enter_cases [of t k full d s])
  case (same h)
  with assms show ?thesis
    by (auto intro!: cc_bounded_shrink [OF assms(1)] simp: pending_goto) (auto simp: cc_bounded_def)
next
  case grant
  let ?c = "cc_cache s"
  have wf: "hm_wf (ic_entries ?c)" using assms(1) by (simp add: cc_bounded_def)
  show ?thesis
  proof (cases "hm_get (ic_entries ?c) k")
    case None
    with grant assms(2,3) have t: "t \<in> pending n s" by (auto simp: pending_def)
    from card_Diff_singleton [OF t] card_gt_0_iff [of "pending n s"] t
    have "card (pending n s - {t}) + 1 = card (pending n s)" by fastforce
    with None wf assms(1,2) grant(1) show ?thesis
      by (simp add: cc_bounded_def pending_goto cache_len_def hmap_simps)
  next
    case (Some e)
    with wf assms(1,2) grant(1) show ?thesis
      by (intro cc_bounded_shrink [OF assms(1)]) (auto simp: cache_len_def hmap_simps pending_goto)
  qed
qed

lemma snap_bounded:
  assumes "cc_bounded n s" and "t < n" and "cc_pc s t = Purging k t1"
    and "full = at_capacity (cc_cache s)"
  shows "cc_bounded n (goto t (Snapped k full) s)"
proof (cases full)
  case True
  with assms show ?thesis
    by (intro cc_bounded_shrink [OF assms(1)]) (auto simp: cc_bounded_def pending_goto)
next
  case False
  with assms have "cache_len (cc_cache s) \<le> ic_max_entries (cc_cache s) - 1"
    by (simp add: at_capacity_def cache_len_def)
  with pending_card [of n "goto t (Snapped k full) s"] assms(1)
  show ?thesis by (auto simp: cc_bounded_def)
qed

lemma cc_exec_bounded:
  assumes "cc_bounded n s" and "cc_exec e s = Some s'"
    and "\<forall>t. event_thread e = Some t \<longrightarrow> t < n" and "exact [e] s"
  shows "cc_bounded n s'"
proof -
  have wf: "hm_wf (ic_entries (cc_cache s))" using assms(1) by (simp add: cc_bounded_def)
  consider (enter) t d where "e = Enter t d" | (snap) t full where "e = Snap t full"
    | (other) "\<And>t d. e \<noteq> Enter t d" "\<And>t full. e \<noteq> Snap t full" by blast
  then show ?thesis
  proof cases
    case enter
    with assms show ?thesis by (auto split: handler.splits intro: enter_bounded)
  next
    case snap
    with assms show ?thesis by (auto split: handler.splits intro: snap_bounded)
  next
    case other
    have "hm_wf (ic_entries (cc_cache s')) \<and> cache_len (cc_cache s') \<le> cache_len (cc_cache s) \<and>
          ic_max_entries (cc_cache s') = ic_max_entries (cc_cache s)"
      using other assms(2) wf
      by (cases e) (auto split: handler.splits simp: purge_key_len cache_remove_len cache_complete_len,
          auto simp: cache_remove_def)
    moreover have "pending n s' \<subseteq> pending n s"
      using other assms(2,3) by (cases e) (auto split: handler.splits simp: pending_goto)
    ultimately show ?thesis by (blast intro: cc_bounded_shrink [OF assms(1)])
  qed
qed

lemma cc_run_bounded:
  "cc_bounded n s \<Longrightarrow> cc_run es s = Some s' \<Longrightarrow> threads_below n es \<Longrightarrow> exact es s \<Longrightarrow>
     cc_bounded n s' \<and> ic_max_entries (cc_cache s') = ic_max_entries (cc_cache s)"
proof (induction es arbitrary: s)
  case (Cons e es)
  from Cons.prems(2) obtain s1 where s1: "cc_exec e s = Some s1" "cc_run es s1 = Some s'"
    by (auto split: option.splits)
  from Cons.prems s1(1) have e: "\<forall>t. event_thread e = Some t \<longrightarrow> t < n" "threads_below n es"
    "exact [e] s" "exact es s1" by (auto simp: threads_below_def split: option.splits)
  from Cons.IH [OF cc_exec_bounded [OF Cons.prems(1) s1(1) e(1,3)] s1(2) e(2,4)]
    cc_exec_limits [OF s1(1)]
  show ?case by simp
qed simp

lemma cc_bounded_init: "cc_bounded n (cc_init m ttl)"
  by (simp add: cc_bounded_def cc_init_def cache_new_def cache_len_def hm_len_def pending_def)

section \<open>Properties\<close>

text \<open>Whatever handlers run, in whatever interleaving of the purge, the length snapshot and
  the shard's critical section, and whatever completions and cancellations happen between, two
  grants of the same key are at least the time to live apart, as long as no handler runs the
  \<open>remove\<close> that follows \<open>Full\<close>.\<close>

theorem ownership_exclusive:
  assumes "0 < ttl" and "cc_run es (cc_init max_entries ttl) = Some s" and "no_remove es"
  shows "sorted_wrt (\<lambda>(k', g') (k, g). k' = k \<longrightarrow> g + ttl \<le> g') (cc_grants s)"
proof -
  have "ic_ttl (cc_cache (cc_init max_entries ttl)) = ttl" by (simp add: cc_init_def cache_new_def)
  with cc_run_inv [OF cc_inv_init [OF assms(1)] assms(2,3)]
  have inv: "cc_inv s" and ttl: "ic_ttl (cc_cache s) = ttl" by simp_all
  from inv show ?thesis unfolding cc_inv_def ttl by blast
qed

text \<open>Two handlers race for key 7, both past the snapshot: one owns it, the other is refused;
  after the time to live the key is granted again.\<close>

theorem ownership_exclusive_witness:
  "\<exists>s. cc_run [Start 0 7, Start 1 7, Snap 0 False, Snap 1 False, Enter 0 0, Enter 1 0, Tick 6,
               Start 1 7, Purge 1 7, Snap 1 False, Enter 1 0] (cc_init 2 5) = Some s \<and>
       cc_grants s = [(7, 6), (7, 0)] \<and>
       sorted_wrt (\<lambda>(k', g') (k, g). k' = k \<longrightarrow> g + 5 \<le> g') (cc_grants s)"
proof -
  let ?es = "[Start 0 7, Start 1 7, Snap 0 False, Snap 1 False, Enter 0 0, Enter 1 0, Tick 6,
              Start 1 7, Purge 1 7, Snap 1 False, Enter 1 0]"
  have "\<exists>s. cc_run ?es (cc_init 2 5) = Some s \<and> cc_grants s = [(7, 6), (7, 0)]"
    by (simp add: cc_init_def cache_new_def enter_def entry_step_def purge_key_def cache_remove_def
        hmap_simps fresh_entry_def)
  then obtain s where "cc_run ?es (cc_init 2 5) = Some s" "cc_grants s = [(7, 6), (7, 0)]" by blast
  with ownership_exclusive [of 5 ?es 2 s] show ?thesis by (auto simp: no_remove_def)
qed

text \<open>When snapshots are exact, \<open>n\<close> concurrent handlers can push the cache past its limit
  by at most \<open>n - 1\<close> entries.\<close>

theorem cache_overshoot:
  assumes "0 < max_entries" and "cc_run es (cc_init max_entries ttl) = Some s"
    and "threads_below n es" and "exact es (cc_init max_entries ttl)"
  shows "cache_len (cc_cache s) + 1 \<le> max_entries + n"
  using cc_run_bounded [OF cc_bounded_init assms(2-4)] assms(1)
  by (auto simp: cc_bounded_def cc_init_def cache_new_def)

text \<open>The bound is reached: two handlers that read the same length both insert.\<close>

theorem cache_overshoot_witness:
  "\<exists>s. cc_run [Start 0 7, Start 1 8, Snap 0 False, Snap 1 False, Enter 0 0, Enter 1 0]
         (cc_init 1 5) = Some s \<and> cache_len (cc_cache s) = 2 \<and> cache_len (cc_cache s) + 1 \<le> 1 + 2"
proof -
  let ?es = "[Start 0 7, Start 1 8, Snap 0 False, Snap 1 False, Enter 0 0, Enter 1 0]"
  have "\<exists>s. cc_run ?es (cc_init 1 5) = Some s \<and> cache_len (cc_cache s) = 2 \<and> exact ?es (cc_init 1 5)"
    by (simp add: cc_init_def cache_new_def enter_def entry_step_def cache_len_def hm_len_def
        hm_insert_def hmap_simps fresh_entry_def at_capacity_def)
  then obtain s where s: "cc_run ?es (cc_init 1 5) = Some s" "cache_len (cc_cache s) = 2"
    "exact ?es (cc_init 1 5)" by blast
  have "threads_below 2 ?es" by (simp add: threads_below_def)
  from cache_overshoot [OF _ s(1) this s(3)] s show ?thesis by auto
qed

section \<open>A handler on its own\<close>

lemma map_of_distinct_mem: "hm_wf m \<Longrightarrow> (k, e) \<in> set m \<Longrightarrow> hm_get m k = Some e"
  by (simp add: hm_wf_def hm_get_def)

lemma purge_key_filter:
  assumes "hm_wf (ic_entries c)"
  shows "ic_entries (purge_key c t k) =
     filter (\<lambda>(k', e). k' = k \<longrightarrow> t - ce_created_at e < ic_ttl c) (ic_entries c)"
proof -
  have all: "filter P (ic_entries c) = ic_entries c" if "\<And>k' e. (k', e) \<in> set (ic_entries c) \<Longrightarrow> P (k', e)" for P
    using that by (auto simp: filter_id_conv)
  show ?thesis
  proof (cases "hm_get (ic_entries c) k")
    case None
    then have "k \<notin> fst ` set (ic_entries c)" by (simp add: hm_get_def map_of_eq_None_iff)
    then show ?thesis using None by (subst all) (auto simp: purge_key_def image_iff)
  next
    case (Some e)
    have same: "e' = e" if "(k, e') \<in> set (ic_entries c)" for e'
      using map_of_distinct_mem [OF assms that] Some by simp
    show ?thesis
    proof (cases "t - ce_created_at e < ic_ttl c")
      case True
      with Some same show ?thesis by (subst all) (auto simp: purge_key_def)
    next
      case False
      with Some show ?thesis
        by (auto simp: purge_key_def cache_remove_def hm_remove_def intro!: filter_cong dest: same)
    qed
  qed
qed

text \<open>Visiting every key purges the map.\<close>

lemma purge_keys:
  "hm_wf (ic_entries c) \<Longrightarrow> foldl (\<lambda>c k. purge_key c t k) c ks =
     c\<lparr>ic_entries := filter (\<lambda>(k', e). k' \<in> set ks \<longrightarrow> t - ce_created_at e < ic_ttl c) (ic_entries c)\<rparr>"
proof (induction ks arbitrary: c)
  case (Cons k ks)
  have wf: "hm_wf (ic_entries (purge_key c t k))"
    using Cons.prems by (auto simp: purge_key_filter hm_wf_def distinct_map_filter split_def)
  have upd: "(purge_key c t k)\<lparr>ic_entries := x\<rparr> = c\<lparr>ic_entries := x\<rparr>" for x
    by (simp add: purge_key_def cache_remove_def split: option.splits)
  have split: "filter (\<lambda>(k', e). (k' = k \<longrightarrow> P e) \<and> (k' \<in> set ks \<longrightarrow> P e)) m =
      filter (\<lambda>x. (case x of (k', e) \<Rightarrow> k' = k \<longrightarrow> P e) \<and> (case x of (k', e) \<Rightarrow> k' \<in> set ks \<longrightarrow> P e)) m" for P m
    by (auto intro: filter_cong)
  show ?case
    using Cons.IH [OF wf] by (simp add: purge_key_filter [OF Cons.prems] upd split)
qed simp

lemma purge_all:
  assumes "hm_wf (ic_entries c)" and "set ks = set (hm_keys (ic_entries c))"
  shows "foldl (\<lambda>c k. purge_key c now k) c ks = purge_expired c now"
  unfolding purge_keys [OF assms(1)] purge_expired_def hm_retain_def
  using assms(2) by (intro arg_cong [where f = "\<lambda>x. c\<lparr>ic_entries := x\<rparr>"] filter_cong)
    (force simp: hm_keys_def)+

lemma cc_run_purge:
  "cc_pc s t = Purging k t1 \<Longrightarrow>
     cc_run (map (Purge t) ks) s = Some (s\<lparr>cc_cache := foldl (\<lambda>c k. purge_key c t1 k) (cc_cache s) ks\<rparr>)"
  by (induction ks arbitrary: s) simp_all

text \<open>Undisturbed, a handler's three moments are the sequential operation. If a handler that starts
  in a well-formed state visits every key of the map, reads its length exactly and enters, with the
  clock moving on by \<open>d1\<close> and \<open>d2\<close> meanwhile, then the cache is the one \<open>check_or_insert\<close> returns,
  and the handler goes on as its answer says: owner of the key, bound to drop it, or answered.\<close>

theorem lone_handler_sequential:
  assumes "hm_wf (ic_entries (cc_cache s))" and "cc_pc s t = Idle"
    and "set ks = set (hm_keys (ic_entries (cc_cache s)))"
  shows "\<exists>s'. cc_run (Start t k # map (Purge t) ks @
         [Snap t (at_capacity (purge_expired (cc_cache s) (cc_now s))), Tick d1, Enter t d2]) s = Some s' \<and>
     cc_cache s' = snd (check_or_insert (cc_cache s) k (cc_now s) (cc_now s + d1) (cc_now s + d1 + d2)) \<and>
     cc_pc s' t = (case fst (check_or_insert (cc_cache s) k (cc_now s) (cc_now s + d1) (cc_now s + d1 + d2)) of
         New \<Rightarrow> Owner k (cc_now s + d1 + d2) | Full \<Rightarrow> Dropping k | _ \<Rightarrow> Idle)"
proof -
  let ?c = "purge_expired (cc_cache s) (cc_now s)" and ?s1 = "goto t (Purging k (cc_now s)) s"
  note purged = purge_all [OF assms(1,3)]
  have run: "cc_run (Start t k # map (Purge t) ks @ es) s = cc_run es (?s1\<lparr>cc_cache := ?c\<rparr>)" for es
    using assms(2) cc_run_purge [of ?s1 t k "cc_now s" ks] purged by (simp add: cc_run_append)
  obtain st c where step: "entry_step ?c k (at_capacity ?c) (cc_now s + d1) (cc_now s + d1 + d2) = (st, c)"
    by fastforce
  then show ?thesis
    unfolding run by (cases st) (simp_all add: enter_def Let_def check_or_insert_def add.assoc)
qed

text \<open>A handler that purges an expired entry and is granted its key.\<close>

theorem lone_handler_sequential_witness:
  "let s = \<lparr>cc_cache = \<lparr>ic_entries = [(9, fresh_entry 0)], ic_max_entries = 1, ic_ttl = 10\<rparr>, cc_now = 20,
            cc_pc = (\<lambda>_. Idle), cc_grants = []\<rparr>
   in \<exists>s'. cc_run [Start 0 7, Purge 0 9, Snap 0 False, Tick 1, Enter 0 2] s = Some s' \<and>
        cc_cache s' = snd (check_or_insert (cc_cache s) 7 20 21 23) \<and> cc_pc s' 0 = Owner 7 23"
proof -
  let ?s = "\<lparr>cc_cache = \<lparr>ic_entries = [(9 :: uuid, fresh_entry 0)], ic_max_entries = 1, ic_ttl = 10\<rparr>, cc_now = 20,
            cc_pc = (\<lambda>_. Idle), cc_grants = []\<rparr>"
  have full: "at_capacity (purge_expired (cc_cache ?s) (cc_now ?s)) = False" by code_simp
  have new: "fst (check_or_insert (cc_cache ?s) 7 (cc_now ?s) (cc_now ?s + 1) (cc_now ?s + 1 + 2)) = New" by code_simp
  have "hm_wf (ic_entries (cc_cache ?s))" "set [9] = set (hm_keys (ic_entries (cc_cache ?s)))"
    by (simp_all add: hm_wf_def hm_keys_def)
  from lone_handler_sequential [OF this(1) _ this(2), of 0 7 1 2, unfolded full new] show ?thesis
    by (simp add: Let_def)
qed

section \<open>The remove after full\<close>

text \<open>With the \<open>remove\<close> that \<open>handle_action\<close> runs after \<open>Full\<close>, exactness of the snapshots
  does not save ownership: a handler refused for lack of space deletes the entry another handler
  has obtained for the same key in the meantime, and a third handler is granted the key while the
  second still executes, at the same instant and within the time to live.\<close>

theorem remove_after_full_double_owner:
  "\<exists>es s. cc_run es (cc_init 1 300) = Some s \<and> exact es (cc_init 1 300) \<and>
     cc_pc s 2 = Owner 7 300 \<and> cc_pc s 3 = Owner 7 300 \<and>
     length (filter is_remove es) = 1"
proof (intro exI conjI)
  let ?es = "[Start 0 9, Snap 0 False, Enter 0 0, Tick 299, Start 1 7, Snap 1 True, Tick 1,
              Enter 1 0, Start 2 7, Purge 2 9, Snap 2 False, Enter 2 0, Remove 1,
              Start 3 7, Snap 3 False, Enter 3 0]"
  let ?s = "the (cc_run ?es (cc_init 1 300))"
  note defs = cc_init_def cache_new_def enter_def entry_step_def purge_key_def cache_remove_def
    hmap_simps fresh_entry_def at_capacity_def hm_len_def hm_insert_def hm_remove_def
  show "cc_run ?es (cc_init 1 300) = Some ?s" by (simp add: defs)
  show "exact ?es (cc_init 1 300)" by (simp add: defs)
  show "cc_pc ?s 2 = Owner 7 300" by (simp add: defs)
  show "cc_pc ?s 3 = Owner 7 300" by (simp add: defs)
  show "length (filter is_remove ?es) = 1" by simp
qed

end
