(* ===== verification/Daemon_Concurrent.thy ===== *)
theory Daemon_Concurrent
  imports Daemon_Main Idempotency_Concurrent
begin

text \<open>
  The whole daemon under interleaving. The concurrency limit admits 8 calls of the action route at
  a time; each occupies a slot, and between any two accesses of a handler to shared state
  (\<open>AppState\<close>, the file system, the clock) the other slots' handlers run. An event is one such
  access by one slot, or the passage of time. A handler suspends only in the shell and HTTP actuators; there the
  30 second deadline or a client that goes away may drop it. Within an access nothing interleaves:
  the reservation's loop is atomic by \<open>Slime_Concurrent\<close>, and a file action, which never awaits, is
  taken as one access.
\<close>

section \<open>Handlers and their program points\<close>

record call =
  ca_agent :: string
  ca_key :: uuid
  ca_body :: bytes

record task =
  tk_agent :: string
  tk_key :: uuid
  tk_since :: instant
  tk_action_id :: string
  tk_request :: action_request

text \<open>Where a handler awaits while its action runs.\<close>

datatype suspension = Running | InChild | InNet

text \<open>
  In order: waiting for a request; past the guards; sweeping expired entries; with the length of the
  map read; refused and about to remove its key; owner of its key; with a typed action; with a
  reservation; in the actuator, with the effects still to come and the result; with the pipeline's
  result; with the proof record stored.
\<close>

datatype phase =
    Free
  | Keyed call
  | Sweeping call instant
  | Measured call bool
  | Refused call
  | Owns call instant
  | Prepared task canonical_action mapped_domain
  | Granted task canonical_action mapped_domain
  | Waiting task mapped_domain suspension "effect list" "ama_error + action_result"
  | Ended task "ama_error + action_response"
  | Recorded task "ama_error + action_response"

text \<open>
  The daemon's state, the clock and the slots; and what has happened so far: ownership granted,
  magnitudes reserved and effects, each with the key and the instant of the grant it belongs to;
  audit entries and answers; and whether a signal has asked the daemon to stop.
\<close>

record d_state =
  d_app :: app_state
  d_now :: instant
  d_phase :: "nat \<Rightarrow> phase"
  d_grants :: "(uuid \<times> instant) list"
  d_spent :: "((uuid \<times> instant) \<times> string \<times> u64) list"
  d_effects :: "((uuid \<times> instant) \<times> effect) list"
  d_audit :: "audit_entry list"
  d_answers :: "response list"
  d_stopping :: bool

text \<open>\<open>shutdown_signal\<close> completes on SIGTERM and on Ctrl+C; then no new request is taken.\<close>

datatype os_signal = SigTerm | CtrlC | OtherSignal

definition shutdown_signal :: "os_signal \<Rightarrow> bool" where
  "shutdown_signal sig \<longleftrightarrow> (case sig of SigTerm \<Rightarrow> True | CtrlC \<Rightarrow> True | OtherSignal \<Rightarrow> False)"

datatype d_event =
    Elapse nat
  | Signal os_signal
  | Turn_away http_req
  | Look string http_req reading
  | Arrive nat http_req u64
  | Begin nat
  | Sweep nat uuid
  | Measure nat bool
  | Claim nat nat
  | Unclaim nat
  | Admit nat string
  | Reserve nat u64 nat
  | Act nat "command \<Rightarrow> nat \<Rightarrow> child" net bool
  | Emit nat
  | Settle nat u64 nat
  | Abandon nat
  | Prove nat u64
  | Respond nat

definition d_boot :: "app_state \<Rightarrow> d_state" where
  "d_boot st =
     \<lparr>d_app = st, d_now = st_start_time st, d_phase = (\<lambda>_. Free), d_grants = [], d_spent = [],
      d_effects = [], d_audit = [], d_answers = [], d_stopping = False\<rparr>"

section \<open>The steps\<close>

definition moved :: "nat \<Rightarrow> phase \<Rightarrow> d_state \<Rightarrow> d_state" where
  "moved t p s = s\<lparr>d_phase := (d_phase s)(t := p)\<rparr>"

definition replied :: "response \<Rightarrow> d_state \<Rightarrow> d_state" where
  "replied resp s = s\<lparr>d_answers := resp # d_answers s\<rparr>"

definition answered :: "nat \<Rightarrow> response \<Rightarrow> d_state \<Rightarrow> d_state" where
  "answered t resp s = moved t Free (replied resp s)"

definition cached :: "idem_cache \<Rightarrow> d_state \<Rightarrow> d_state" where
  "cached c s = s\<lparr>d_app := (d_app s)\<lparr>st_cache := c\<rparr>\<rparr>"

definition logged :: "audit_entry \<Rightarrow> d_state \<Rightarrow> d_state" where
  "logged entry s = s\<lparr>d_audit := d_audit s @ [entry]\<rparr>"

definition happened :: "task \<Rightarrow> effect list \<Rightarrow> d_state \<Rightarrow> d_state" where
  "happened tk effs s =
     s\<lparr>d_effects := d_effects s @ map (Pair (tk_key tk, tk_since tk)) effs\<rparr>"

text \<open>Steps 0 to 3 of \<open>handle_action\<close>; of these only the rate limit touches shared state.\<close>

definition admission ::
  "world \<Rightarrow> app_state \<Rightarrow> http_req \<Rightarrow> u64 \<Rightarrow> instant \<Rightarrow> app_state \<times> (response + call)" where
  "admission W st q epoch now =
     (case resolve_agent_id st q of
        Inl e \<Rightarrow> (st, Inl (ama_error_response W e))
      | Inr aid \<Rightarrow>
          (case check_identity W st aid q epoch of
             Inl e \<Rightarrow>
               (st, Inl (json_response W 403
                  (error_body ''identity_verification_failed'' (identity_error_display e))))
           | Inr u \<Rightarrow>
               (let (allowed, st1) = check_rate_limit st aid now in
                if \<not> allowed then
                  (st1, Inl (json_response W 429 (error_body ''rate_limited'' ''rate limit exceeded'')))
                else
                  (case idempotency_key W q of
                     Inl e \<Rightarrow> (st1, Inl (ama_error_response W e))
                   | Inr key \<Rightarrow> (st1, Inr \<lparr>ca_agent = aid, ca_key = key, ca_body = hq_body q\<rparr>)))))"

definition arrive :: "world \<Rightarrow> nat \<Rightarrow> http_req \<Rightarrow> u64 \<Rightarrow> d_state \<Rightarrow> d_state" where
  "arrive W t q epoch s =
     (let (st, r) = admission W (d_app s) q epoch (d_now s); s1 = s\<lparr>d_app := st\<rparr>
      in case r of Inl resp \<Rightarrow> replied resp s1 | Inr c \<Rightarrow> moved t (Keyed c) s1)"

text \<open>Step 4: the critical section of the cache, \<open>d\<close> passing between its two readings of the clock.\<close>

definition claim :: "world \<Rightarrow> nat \<Rightarrow> call \<Rightarrow> bool \<Rightarrow> nat \<Rightarrow> d_state \<Rightarrow> d_state" where
  "claim W t c full d s =
     (let now = d_now s + d;
          (status, cache) = entry_step (st_cache (d_app s)) (ca_key c) full (d_now s) now;
          s1 = cached cache (s\<lparr>d_now := now\<rparr>)
      in case status of
           Cached body \<Rightarrow>
             answered t \<lparr>re_status = 200, re_headers = [(''content-type'', ''application/json'')],
                         re_body = body\<rparr> s1
         | InFlight \<Rightarrow>
             answered t (ama_error_response W
               (Conflict ''duplicate Idempotency-Key with in-flight request'')) s1
         | Full \<Rightarrow> moved t (Refused c) s1
         | New \<Rightarrow> moved t (Owns c now) (s1\<lparr>d_grants := (ca_key c, now) # d_grants s\<rparr>))"

definition unclaim :: "world \<Rightarrow> nat \<Rightarrow> call \<Rightarrow> d_state \<Rightarrow> d_state" where
  "unclaim W t c s =
     answered t (json_response W 503 (error_body ''service_unavailable'' full_message))
       (cached (cache_remove (st_cache (d_app s)) (ca_key c)) s)"

text \<open>Step 5 and the checks of the pipeline, which read the file system.\<close>

definition admit_call :: "world \<Rightarrow> nat \<Rightarrow> call \<Rightarrow> instant \<Rightarrow> string \<Rightarrow> d_state \<Rightarrow> d_state" where
  "admit_call W t c g action_id s =
     (let st = d_app s in
      case w_parse_request W (ca_body c) of
        Inl e \<Rightarrow>
          (let v = error_body ''bad_request'' (''invalid JSON: '' @ e)
           in answered t (json_response W 400 v)
                (cached (cache_complete (st_cache st) (ca_key c) (w_print W v)) s))
      | Inr request \<Rightarrow>
          (case registry_get (st_agent_registry st) (ca_agent c) of
             None \<Rightarrow>
               answered t (ama_error_response W (BadRequest (''unknown agent: '' @ ca_agent c)))
                 (cached (cache_remove (st_cache st) (ca_key c)) s)
           | Some a \<Rightarrow>
               (let tk = \<lparr>tk_agent = ca_agent c, tk_key = ca_key c, tk_since = g,
                          tk_action_id = action_id, tk_request = request\<rparr>
                in case prepare (w_host W) (st_fs st) request (st_config st) (Some (ca_agent c)) of
                     Inl e \<Rightarrow> moved t (Ended tk (Inl e)) s
                   | Inr (act, md) \<Rightarrow> moved t (Prepared tk act md) s)))"

definition task_ctx :: "app_state \<Rightarrow> task \<Rightarrow> u64 \<Rightarrow> nat \<Rightarrow> call_ctx" where
  "task_ctx st tk secs ms =
     \<lparr>cx_action_id = tk_action_id tk, cx_session_id = st_session_id st, cx_agent_id = Some (tk_agent tk),
      cx_timestamp = chrono_now secs, cx_duration_ms = ms\<rparr>"

text \<open>Authorization: a dry run only looks, a real one reserves; denials and dry runs are logged here.\<close>

definition reserve_step ::
  "world \<Rightarrow> nat \<Rightarrow> task \<Rightarrow> canonical_action \<Rightarrow> mapped_domain \<Rightarrow> u64 \<Rightarrow> nat \<Rightarrow> p0_authorizer \<Rightarrow> d_state \<Rightarrow> d_state" where
  "reserve_step W t tk act md secs ms a s =
     (let st = d_app s; d = md_domain_id md; m = md_magnitude md;
          entry = (\<lambda>status. audit_of (w_host W) (task_ctx st tk secs ms) (tk_request tk) md status False)
      in if rq_dry_run (tk_request tk) then
           (case check_only a d m of
              VAuthorized \<Rightarrow>
                moved t (Ended tk (Inr \<lparr>rs_status = ''authorized'', rs_action_id = tk_action_id tk,
                                        rs_dry_run = True, rs_result = None\<rparr>))
                  (logged (entry ''authorized'') s)
            | VImpossible \<Rightarrow> moved t (Ended tk (Inl Impossible)) (logged (entry ''impossible'') s))
         else
           (case try_reserve a d m of
              (VAuthorized, a') \<Rightarrow>
                moved t (Granted tk act md)
                  (s\<lparr>d_app := st\<lparr>st_agent_registry := hm_insert (tk_agent tk) a' (st_agent_registry st)\<rparr>,
                     d_spent := ((tk_key tk, tk_since tk), tk_agent tk, m) # d_spent s\<rparr>)
            | (VImpossible, a') \<Rightarrow>
                moved t (Ended tk (Inl Impossible)) (logged (entry ''impossible'') s)))"

text \<open>
  Actuation. What the kernel and the network answer to this call comes with the event. A file
  action is done at once; a program is started before the first await; a request is sent only after
  one.
\<close>

definition suspends :: "host \<Rightarrow> canonical_action \<Rightarrow> effect list \<Rightarrow> suspension" where
  "suspends H act effs =
     (case act of
        CShellExec intent args \<Rightarrow> if effs = [] then Running else InChild
      | CHttpRequest method url body \<Rightarrow>
          (case net_parse (ho_net H) (url_str url) of Inr (Some h) \<Rightarrow> InNet | _ \<Rightarrow> Running)
      | _ \<Rightarrow> Running)"

definition at_once :: "suspension \<Rightarrow> effect list \<Rightarrow> nat" where
  "at_once p effs = (case p of Running \<Rightarrow> length effs | InChild \<Rightarrow> 1 | InNet \<Rightarrow> 0)"

definition act_step ::
  "world \<Rightarrow> nat \<Rightarrow> task \<Rightarrow> canonical_action \<Rightarrow> mapped_domain
    \<Rightarrow> (command \<Rightarrow> nat \<Rightarrow> child) \<Rightarrow> net \<Rightarrow> bool \<Rightarrow> d_state \<Rightarrow> d_state" where
  "act_step W t tk act md sp N late s =
     (let st = d_app s;
          H = (w_host W)\<lparr>ho_spawn := sp, ho_net := N, ho_http_overruns := late\<rparr>;
          (fs, effs, result) = actuate H (st_fs st) act (tk_action_id tk) (st_config st);
          p = suspends H act effs;
          n = at_once p effs
      in moved t (Waiting tk md p (drop n effs) result)
           (happened tk (take n effs) (s\<lparr>d_app := st\<lparr>st_fs := fs\<rparr>\<rparr>)))"

text \<open>
  A handler can be dropped while it awaits: its child, before the child is reaped (SIGKILL is sent
  as soon as the sleep before it is over), or the network.
\<close>

definition droppable :: "suspension \<Rightarrow> effect list \<Rightarrow> bool" where
  "droppable p effs =
     (case p of
        Running \<Rightarrow> False
      | InChild \<Rightarrow>
          (case effs of [] \<Rightarrow> False | ProcEvent (Killed pid sig) # _ \<Rightarrow> sig \<noteq> sigkill | _ \<Rightarrow> True)
      | InNet \<Rightarrow> True)"

definition settle_step ::
  "world \<Rightarrow> nat \<Rightarrow> task \<Rightarrow> mapped_domain \<Rightarrow> ama_error + action_result \<Rightarrow> u64 \<Rightarrow> nat \<Rightarrow> d_state \<Rightarrow> d_state" where
  "settle_step W t tk md result secs ms s =
     (let (status, truncated) =
            (case result of Inr r \<Rightarrow> (''authorized'', is_truncated r) | Inl e \<Rightarrow> (''error'', False))
      in moved t
           (Ended tk (rbind result (\<lambda>r.
              Inr \<lparr>rs_status = ''authorized'', rs_action_id = tk_action_id tk,
                   rs_dry_run = False, rs_result = Some (action_result_json r)\<rparr>)))
           (logged (audit_of (w_host W) (task_ctx (d_app s) tk secs ms) (tk_request tk) md status truncated) s))"

text \<open>Step 7: the proof record, then the counter, the cached answer and the response.\<close>

definition prove_step ::
  "world \<Rightarrow> nat \<Rightarrow> task \<Rightarrow> ama_error + action_response \<Rightarrow> u64 \<Rightarrow> d_state \<Rightarrow> d_state" where
  "prove_step W t tk r secs s =
     (let st = d_app s
      in moved t (Recorded tk r) (s\<lparr>d_app := st\<lparr>st_proof_store :=
           proof_insert (w_first_key W) (st_proof_store st)
             \<lparr>pr_request_id = tk_action_id tk, pr_agent_id = tk_agent tk,
              pr_action = rq_action (tk_request tk),
              pr_verdict = (if is_ok r then ''AUTHORIZED'' else ''IMPOSSIBLE''),
              pr_manifest_hash = policy_hash_of W st (tk_agent tk), pr_timestamp = show_u64 secs\<rparr>\<rparr>\<rparr>))"

definition respond_step ::
  "world \<Rightarrow> nat \<Rightarrow> task \<Rightarrow> ama_error + action_response \<Rightarrow> d_state \<Rightarrow> d_state" where
  "respond_step W t tk r s =
     (let st = d_app s; hash = policy_hash_of W st (tk_agent tk); rq = tk_request tk in
      case r of
        Inr resp \<Rightarrow>
          (let body = w_print W (action_response_json resp);
               st1 = (case map_action (rq_action rq) (rq_magnitude rq) (st_config st) of
                        Inr mapping \<Rightarrow> increment_domain_counter st (md_domain_id mapping)
                      | Inl e \<Rightarrow> st)
           in answered t
                \<lparr>re_status = 200,
                 re_headers = (''content-type'', ''application/json'')
                   # (if hash \<noteq> [] then [(policy_hash_header, hash)] else []),
                 re_body = body\<rparr>
                (s\<lparr>d_app := st1\<lparr>st_cache := cache_complete (st_cache st1) (tk_key tk) body\<rparr>\<rparr>))
      | Inl e \<Rightarrow>
          answered t (ama_error_response W e)
            (cached (cache_complete (st_cache st) (tk_key tk) (w_print W (cached_error_json e))) s))"

text \<open>
  What one event does, if the slot is where the event starts. \<open>Turn_away\<close> is a request the outer
  layers answer, \<open>Look\<close> one to another route; neither takes a slot of the action route.
\<close>

fun d_exec :: "world \<Rightarrow> fallbacks \<Rightarrow> d_event \<Rightarrow> d_state \<Rightarrow> d_state option" where
  "d_exec W F (Elapse d) s = Some (s\<lparr>d_now := d_now s + d\<rparr>)"
| "d_exec W F (Signal sig) s = Some (s\<lparr>d_stopping := (d_stopping s \<or> shutdown_signal sig)\<rparr>)"
| "d_exec W F (Turn_away q) s =
     (if d_stopping s \<or> hq_method q \<noteq> ''POST'' then None
      else if \<not> content_type_ok q then Some (replied (ama_error_response W UnsupportedMediaType) s)
      else if length (hq_body q) > body_limit then Some (replied (fb_too_large F) s)
      else None)"
| "d_exec W F (Look path q rd) s =
     (if d_stopping s \<or> (match_route path = Some RAction \<and> hq_method q = ''POST'') then None
      else Some (replied (fst (serve_request W F (rd\<lparr>rd_now := d_now s\<rparr>) (d_app s) path q)) s))"
| "d_exec W F (Arrive t q epoch) s =
     (case d_phase s t of
        Free \<Rightarrow>
          if \<not> d_stopping s \<and> t < max_concurrent_requests \<and> hq_method q = ''POST'' \<and> content_type_ok q \<and>
             length (hq_body q) \<le> body_limit
          then Some (arrive W t q epoch s) else None
      | _ \<Rightarrow> None)"
| "d_exec W F (Begin t) s =
     (case d_phase s t of Keyed c \<Rightarrow> Some (moved t (Sweeping c (d_now s)) s) | _ \<Rightarrow> None)"
| "d_exec W F (Sweep t k) s =
     (case d_phase s t of
        Sweeping c t1 \<Rightarrow> Some (cached (purge_key (st_cache (d_app s)) t1 k) s) | _ \<Rightarrow> None)"
| "d_exec W F (Measure t full) s =
     (case d_phase s t of Sweeping c t1 \<Rightarrow> Some (moved t (Measured c full) s) | _ \<Rightarrow> None)"
| "d_exec W F (Claim t d) s =
     (case d_phase s t of Measured c full \<Rightarrow> Some (claim W t c full d s) | _ \<Rightarrow> None)"
| "d_exec W F (Unclaim t) s =
     (case d_phase s t of Refused c \<Rightarrow> Some (unclaim W t c s) | _ \<Rightarrow> None)"
| "d_exec W F (Admit t action_id) s =
     (case d_phase s t of Owns c g \<Rightarrow> Some (admit_call W t c g action_id s) | _ \<Rightarrow> None)"
| "d_exec W F (Reserve t secs ms) s =
     (case d_phase s t of
        Prepared tk act md \<Rightarrow>
          map_option (\<lambda>a. reserve_step W t tk act md secs ms a s)
            (registry_get (st_agent_registry (d_app s)) (tk_agent tk))
      | _ \<Rightarrow> None)"
| "d_exec W F (Act t sp N late) s =
     (case d_phase s t of Granted tk act md \<Rightarrow> Some (act_step W t tk act md sp N late s) | _ \<Rightarrow> None)"
| "d_exec W F (Emit t) s =
     (case d_phase s t of
        Waiting tk md p (e # effs) r \<Rightarrow> Some (moved t (Waiting tk md p effs r) (happened tk [e] s))
      | _ \<Rightarrow> None)"
| "d_exec W F (Settle t secs ms) s =
     (case d_phase s t of
        Waiting tk md p [] r \<Rightarrow> Some (settle_step W t tk md r secs ms s) | _ \<Rightarrow> None)"
| "d_exec W F (Abandon t) s =
     (case d_phase s t of
        Waiting tk md p effs r \<Rightarrow> if droppable p effs then Some (moved t Free s) else None
      | _ \<Rightarrow> None)"
| "d_exec W F (Prove t secs) s =
     (case d_phase s t of Ended tk r \<Rightarrow> Some (prove_step W t tk r secs s) | _ \<Rightarrow> None)"
| "d_exec W F (Respond t) s =
     (case d_phase s t of Recorded tk r \<Rightarrow> Some (respond_step W t tk r s) | _ \<Rightarrow> None)"

fun d_run :: "world \<Rightarrow> fallbacks \<Rightarrow> d_event list \<Rightarrow> d_state \<Rightarrow> d_state option" where
  "d_run W F [] s = Some s"
| "d_run W F (e # es) s =
     (case d_exec W F e s of Some s' \<Rightarrow> d_run W F es s' | None \<Rightarrow> None)"

text \<open>The slot an event belongs to.\<close>

fun event_slot :: "d_event \<Rightarrow> nat option" where
  "event_slot (Arrive t q e) = Some t"
| "event_slot (Begin t) = Some t"
| "event_slot (Sweep t k) = Some t"
| "event_slot (Measure t full) = Some t"
| "event_slot (Claim t d) = Some t"
| "event_slot (Unclaim t) = Some t"
| "event_slot (Admit t a) = Some t"
| "event_slot (Reserve t secs ms) = Some t"
| "event_slot (Act t sp N late) = Some t"
| "event_slot (Emit t) = Some t"
| "event_slot (Settle t secs ms) = Some t"
| "event_slot (Abandon t) = Some t"
| "event_slot (Prove t secs) = Some t"
| "event_slot (Respond t) = Some t"
| "event_slot _ = None"

lemma d_run_append:
  "d_run W F (es @ fs) s = (case d_run W F es s of Some s' \<Rightarrow> d_run W F fs s' | None \<Rightarrow> None)"
  by (induction es arbitrary: s) (auto split: option.splits)

section \<open>What the building blocks touch\<close>

lemma moved_simps [simp]:
  "d_app (moved t p s) = d_app s" "d_now (moved t p s) = d_now s"
  "d_phase (moved t p s) = (d_phase s)(t := p)" "d_grants (moved t p s) = d_grants s"
  "d_spent (moved t p s) = d_spent s" "d_effects (moved t p s) = d_effects s"
  "d_audit (moved t p s) = d_audit s" "d_answers (moved t p s) = d_answers s"
  "d_stopping (moved t p s) = d_stopping s"
  by (simp_all add: moved_def)

lemma replied_simps [simp]:
  "d_app (replied r s) = d_app s" "d_now (replied r s) = d_now s" "d_phase (replied r s) = d_phase s"
  "d_grants (replied r s) = d_grants s" "d_spent (replied r s) = d_spent s"
  "d_effects (replied r s) = d_effects s" "d_audit (replied r s) = d_audit s"
  "d_answers (replied r s) = r # d_answers s"
  "d_stopping (replied r s) = d_stopping s"
  by (simp_all add: replied_def)

lemma answered_simps [simp]:
  "d_app (answered t r s) = d_app s" "d_now (answered t r s) = d_now s"
  "d_phase (answered t r s) = (d_phase s)(t := Free)" "d_grants (answered t r s) = d_grants s"
  "d_spent (answered t r s) = d_spent s" "d_effects (answered t r s) = d_effects s"
  "d_audit (answered t r s) = d_audit s" "d_answers (answered t r s) = r # d_answers s"
  "d_stopping (answered t r s) = d_stopping s"
  by (simp_all add: answered_def)

lemma cached_simps [simp]:
  "d_app (cached c s) = (d_app s)\<lparr>st_cache := c\<rparr>" "d_now (cached c s) = d_now s"
  "d_phase (cached c s) = d_phase s" "d_grants (cached c s) = d_grants s"
  "d_spent (cached c s) = d_spent s" "d_effects (cached c s) = d_effects s"
  "d_audit (cached c s) = d_audit s" "d_answers (cached c s) = d_answers s"
  "d_stopping (cached c s) = d_stopping s"
  by (simp_all add: cached_def)

lemma logged_simps [simp]:
  "d_app (logged e s) = d_app s" "d_now (logged e s) = d_now s" "d_phase (logged e s) = d_phase s"
  "d_grants (logged e s) = d_grants s" "d_spent (logged e s) = d_spent s"
  "d_effects (logged e s) = d_effects s" "d_audit (logged e s) = d_audit s @ [e]"
  "d_answers (logged e s) = d_answers s"
  "d_stopping (logged e s) = d_stopping s"
  by (simp_all add: logged_def)

lemma happened_simps [simp]:
  "d_app (happened tk es s) = d_app s" "d_now (happened tk es s) = d_now s"
  "d_phase (happened tk es s) = d_phase s" "d_grants (happened tk es s) = d_grants s"
  "d_spent (happened tk es s) = d_spent s" "d_audit (happened tk es s) = d_audit s"
  "d_effects (happened tk es s) = d_effects s @ map (Pair (tk_key tk, tk_since tk)) es"
  "d_answers (happened tk es s) = d_answers s"
  "d_stopping (happened tk es s) = d_stopping s"
  by (simp_all add: happened_def)

text \<open>The guards change the limiters only, and a call they let through is an existing agent's.\<close>

lemma admission_cases:
  obtains (refused) resp where "admission W st q epoch now = (st, Inl resp)"
  | (limited) aid resp where "resolve_agent_id st q = Inr aid"
      "admission W st q epoch now = (snd (check_rate_limit st aid now), Inl resp)"
  | (passed) aid key where "resolve_agent_id st q = Inr aid" "idempotency_key W q = Inr key"
      "fst (check_rate_limit st aid now)"
      "admission W st q epoch now =
         (snd (check_rate_limit st aid now), Inr \<lparr>ca_agent = aid, ca_key = key, ca_body = hq_body q\<rparr>)"
proof (cases "resolve_agent_id st q")
  case (Inl e)
  then show ?thesis by (intro refused) (simp add: admission_def)
next
  case aid: (Inr aid)
  show ?thesis
  proof (cases "check_identity W st aid q epoch")
    case (Inl e)
    with aid show ?thesis by (intro refused) (simp add: admission_def)
  next
    case (Inr u)
    obtain ok st1 where "check_rate_limit st aid now = (ok, st1)" by fastforce
    with aid Inr show ?thesis
      by (cases ok; cases "idempotency_key W q")
        (auto intro: limited passed simp: admission_def Let_def)
  qed
qed

lemma respond_step_simps [simp]:
  "d_now (respond_step W t tk r s) = d_now s" "d_grants (respond_step W t tk r s) = d_grants s"
  "d_phase (respond_step W t tk r s) = (d_phase s)(t := Free)"
  "d_spent (respond_step W t tk r s) = d_spent s" "d_effects (respond_step W t tk r s) = d_effects s"
  "d_audit (respond_step W t tk r s) = d_audit s"
  "st_agent_registry (d_app (respond_step W t tk r s)) = st_agent_registry (d_app s)"
  "st_config (d_app (respond_step W t tk r s)) = st_config (d_app s)"
  "st_fs (d_app (respond_step W t tk r s)) = st_fs (d_app s)"
  by (simp_all add: respond_step_def Let_def split: sum.splits)

definition answer_body :: "world \<Rightarrow> ama_error + action_response \<Rightarrow> string" where
  "answer_body W r =
     (case r of
        Inr resp \<Rightarrow> w_print W (action_response_json resp)
      | Inl e \<Rightarrow> w_print W (cached_error_json e))"

lemma respond_step_cache [simp]:
  "st_cache (d_app (respond_step W t tk r s)) = cache_complete (st_cache (d_app s)) (tk_key tk) (answer_body W r)"
  by (simp add: respond_step_def answer_body_def Let_def split: sum.splits)

section \<open>The cache's view\<close>

text \<open>A slot as the handlers of \<open>Idempotency_Concurrent\<close> see it.\<close>

fun cc_phase :: "phase \<Rightarrow> handler" where
  "cc_phase Free = Idle"
| "cc_phase (Keyed c) = Idle"
| "cc_phase (Sweeping c t1) = Purging (ca_key c) t1"
| "cc_phase (Measured c full) = Snapped (ca_key c) full"
| "cc_phase (Refused c) = Dropping (ca_key c)"
| "cc_phase (Owns c g) = Owner (ca_key c) g"
| "cc_phase (Prepared tk act md) = Owner (tk_key tk) (tk_since tk)"
| "cc_phase (Granted tk act md) = Owner (tk_key tk) (tk_since tk)"
| "cc_phase (Waiting tk md p effs r) = Owner (tk_key tk) (tk_since tk)"
| "cc_phase (Ended tk r) = Owner (tk_key tk) (tk_since tk)"
| "cc_phase (Recorded tk r) = Owner (tk_key tk) (tk_since tk)"

definition cc_of :: "d_state \<Rightarrow> cc_state" where
  "cc_of s = \<lparr>cc_cache = st_cache (d_app s), cc_now = d_now s, cc_pc = cc_phase \<circ> d_phase s,
              cc_grants = d_grants s\<rparr>"

fun cc_events :: "world \<Rightarrow> d_event \<Rightarrow> d_state \<Rightarrow> cc_event list" where
  "cc_events W (Elapse d) s = [Tick d]"
| "cc_events W (Begin t) s = (case d_phase s t of Keyed c \<Rightarrow> [Start t (ca_key c)] | _ \<Rightarrow> [])"
| "cc_events W (Sweep t k) s = [Purge t k]"
| "cc_events W (Measure t full) s = [Snap t full]"
| "cc_events W (Claim t d) s = [Enter t d]"
| "cc_events W (Unclaim t) s = [Remove t]"
| "cc_events W (Admit t a) s =
     (case d_phase s t of
        Owns c g \<Rightarrow>
          (case w_parse_request W (ca_body c) of
             Inl e \<Rightarrow> [Finish t (w_print W (error_body ''bad_request'' (''invalid JSON: '' @ e)))]
           | Inr rq \<Rightarrow> [])
      | _ \<Rightarrow> [])"
| "cc_events W (Abandon t) s = [Cancel t]"
| "cc_events W (Respond t) s =
     (case d_phase s t of Recorded tk r \<Rightarrow> [Finish t (answer_body W r)] | _ \<Rightarrow> [])"
| "cc_events W _ s = []"

lemma cc_of_simps [simp]:
  "cc_cache (cc_of s) = st_cache (d_app s)" "cc_now (cc_of s) = d_now s"
  "cc_pc (cc_of s) t = cc_phase (d_phase s t)" "cc_grants (cc_of s) = d_grants s"
  by (simp_all add: cc_of_def)

lemma cc_of_eqI:
  assumes "cc_cache c = st_cache (d_app s)" and "cc_now c = d_now s" and "cc_grants c = d_grants s"
    and "cc_pc c = cc_phase \<circ> d_phase s"
  shows "c = cc_of s"
  using assms by (simp add: cc_of_def)

lemma cc_of_same:
  assumes "st_cache (d_app s') = st_cache (d_app s)" and "d_now s' = d_now s" and "d_grants s' = d_grants s"
    and "\<And>u. cc_phase (d_phase s' u) = cc_phase (d_phase s u)"
  shows "cc_of s' = cc_of s"
  using assms by (auto simp: cc_of_def)

text \<open>The agents of the calls in progress have authorizers; so does the default agent.\<close>

fun phase_agent :: "phase \<Rightarrow> string option" where
  "phase_agent Free = None"
| "phase_agent (Keyed c) = Some (ca_agent c)"
| "phase_agent (Sweeping c t1) = Some (ca_agent c)"
| "phase_agent (Measured c full) = Some (ca_agent c)"
| "phase_agent (Refused c) = Some (ca_agent c)"
| "phase_agent (Owns c g) = Some (ca_agent c)"
| "phase_agent (Prepared tk act md) = Some (tk_agent tk)"
| "phase_agent (Granted tk act md) = Some (tk_agent tk)"
| "phase_agent (Waiting tk md p effs r) = Some (tk_agent tk)"
| "phase_agent (Ended tk r) = Some (tk_agent tk)"
| "phase_agent (Recorded tk r) = Some (tk_agent tk)"

definition agents_known :: "d_state \<Rightarrow> bool" where
  "agents_known s \<longleftrightarrow>
     (\<forall>aid. cf_default_agent_id (st_config (d_app s)) = Some aid \<longrightarrow>
        registry_get (st_agent_registry (d_app s)) aid \<noteq> None) \<and>
     (\<forall>t aid. phase_agent (d_phase s t) = Some aid \<longrightarrow>
        registry_get (st_agent_registry (d_app s)) aid \<noteq> None)"

section \<open>The shape of a step\<close>

text \<open>What a slot holds: the grant of its key, the reservation its action runs under.\<close>

fun phase_grant :: "phase \<Rightarrow> (uuid \<times> instant) option" where
  "phase_grant (Owns c g) = Some (ca_key c, g)"
| "phase_grant (Prepared tk act md) = Some (tk_key tk, tk_since tk)"
| "phase_grant (Granted tk act md) = Some (tk_key tk, tk_since tk)"
| "phase_grant (Waiting tk md p effs r) = Some (tk_key tk, tk_since tk)"
| "phase_grant (Ended tk r) = Some (tk_key tk, tk_since tk)"
| "phase_grant (Recorded tk r) = Some (tk_key tk, tk_since tk)"
| "phase_grant _ = None"

fun unspent :: "phase \<Rightarrow> bool" where
  "unspent (Owns c g) = True"
| "unspent (Prepared tk act md) = True"
| "unspent _ = False"

fun reserved :: "phase \<Rightarrow> (string \<times> u64) option" where
  "reserved (Granted tk act md) = Some (tk_agent tk, md_magnitude md)"
| "reserved (Waiting tk md p effs r) = Some (tk_agent tk, md_magnitude md)"
| "reserved _ = None"

text \<open>A move that neither acquires nor spends anything.\<close>

definition quiet :: "phase \<Rightarrow> phase \<Rightarrow> bool" where
  "quiet old new \<longleftrightarrow>
     phase_grant new = None \<or>
     phase_grant new = phase_grant old \<and> (unspent new \<longrightarrow> unspent old) \<and>
     (reserved new = None \<or> reserved new = reserved old)"

lemma quiet_refl [simp]: "quiet p p"
  by (simp add: quiet_def)

definition unchanged :: "d_state \<Rightarrow> d_state \<Rightarrow> bool" where
  "unchanged s s' \<longleftrightarrow>
     d_grants s' = d_grants s \<and> d_spent s' = d_spent s \<and> d_effects s' = d_effects s \<and>
     st_agent_registry (d_app s') = st_agent_registry (d_app s) \<and>
     st_config (d_app s') = st_config (d_app s) \<and> st_fs (d_app s') = st_fs (d_app s)"

definition agent_origin :: "d_state \<Rightarrow> phase \<Rightarrow> phase \<Rightarrow> bool" where
  "agent_origin s old new \<longleftrightarrow>
     (\<forall>aid. phase_agent new = Some aid \<longrightarrow>
        phase_agent old = Some aid \<or> (\<exists>q. resolve_agent_id (d_app s) q = Inr aid))"

lemma agent_origin_refl [simp]: "agent_origin s p p"
  by (simp add: agent_origin_def)

lemma phase_update_triv: "d_phase s' = d_phase s \<Longrightarrow> d_phase s' = (d_phase s)(t := d_phase s t)"
  by simp

lemma reserve_denied:
  "check_only a (md_domain_id md) (md_magnitude md) = VImpossible \<Longrightarrow>
     reserve_step W t tk act md secs ms a s =
       moved t (Ended tk (Inl Impossible))
         (logged (audit_of (w_host W) (task_ctx (d_app s) tk secs ms) (tk_request tk) md ''impossible'' False) s)"
  by (auto simp: reserve_step_def Let_def simp flip: try_reserve_fst split: prod.splits)

lemma reserve_dry:
  "rq_dry_run (tk_request tk) \<Longrightarrow> check_only a (md_domain_id md) (md_magnitude md) = VAuthorized \<Longrightarrow>
     reserve_step W t tk act md secs ms a s =
       moved t (Ended tk (Inr \<lparr>rs_status = ''authorized'', rs_action_id = tk_action_id tk,
                               rs_dry_run = True, rs_result = None\<rparr>))
         (logged (audit_of (w_host W) (task_ctx (d_app s) tk secs ms) (tk_request tk) md ''authorized'' False) s)"
  by (simp add: reserve_step_def Let_def)

lemma reserve_granted:
  "\<not> rq_dry_run (tk_request tk) \<Longrightarrow> check_only a (md_domain_id md) (md_magnitude md) = VAuthorized \<Longrightarrow>
     reserve_step W t tk act md secs ms a s =
       moved t (Granted tk act md)
         (s\<lparr>d_app := (d_app s)\<lparr>st_agent_registry :=
              hm_insert (tk_agent tk) (snd (try_reserve a (md_domain_id md) (md_magnitude md)))
                (st_agent_registry (d_app s))\<rparr>,
            d_spent := ((tk_key tk, tk_since tk), tk_agent tk, md_magnitude md) # d_spent s\<rparr>)"
  by (auto simp: reserve_step_def Let_def simp flip: try_reserve_fst split: prod.splits)

lemma reserve_step_cases:
  obtains (granted) "\<not> rq_dry_run (tk_request tk)" "check_only a (md_domain_id md) (md_magnitude md) = VAuthorized"
      "reserve_step W t tk act md secs ms a s =
         moved t (Granted tk act md)
           (s\<lparr>d_app := (d_app s)\<lparr>st_agent_registry :=
                hm_insert (tk_agent tk) (snd (try_reserve a (md_domain_id md) (md_magnitude md)))
                  (st_agent_registry (d_app s))\<rparr>,
              d_spent := ((tk_key tk, tk_since tk), tk_agent tk, md_magnitude md) # d_spent s\<rparr>)"
  | (ended) r entry where "reserve_step W t tk act md secs ms a s = moved t (Ended tk r) (logged entry s)"
      "rq_dry_run (tk_request tk) \<or> check_only a (md_domain_id md) (md_magnitude md) = VImpossible"
proof (cases "check_only a (md_domain_id md) (md_magnitude md)")
  case VAuthorized
  then show ?thesis
    by (cases "rq_dry_run (tk_request tk)") (auto intro: granted ended simp: reserve_granted reserve_dry)
qed (auto intro: ended simp: reserve_denied)

lemma admit_call_cases:
  obtains (answered) resp c' where "admit_call W t c g action_id s = answered t resp (cached c' s)"
  | (ended) tk r where "admit_call W t c g action_id s = moved t (Ended tk r) s"
  | (prepared) tk act md where "admit_call W t c g action_id s = moved t (Prepared tk act md) s"
proof (cases "w_parse_request W (ca_body c)")
  case (Inl e)
  then show ?thesis by (intro answered) (simp add: admit_call_def Let_def)
next
  case (Inr rq)
  show ?thesis
  proof (cases "registry_get (st_agent_registry (d_app s)) (ca_agent c)")
    case None
    with Inr show ?thesis by (intro answered) (simp add: admit_call_def)
  next
    case (Some a)
    with Inr show ?thesis
      by (cases "prepare (w_host W) (st_fs (d_app s)) rq (st_config (d_app s)) (Some (ca_agent c))")
        (auto intro: ended prepared simp: admit_call_def Let_def)
  qed
qed

lemma d_exec_shape:
  assumes "d_exec W F ev s = Some s'"
  obtains (claimed) t d c full where "ev = Claim t d" "d_phase s t = Measured c full" "s' = claim W t c full d s"
  | (granted) t secs ms tk act md a where "ev = Reserve t secs ms" "d_phase s t = Prepared tk act md"
      "registry_get (st_agent_registry (d_app s)) (tk_agent tk) = Some a" "\<not> rq_dry_run (tk_request tk)"
      "check_only a (md_domain_id md) (md_magnitude md) = VAuthorized"
      "s' = moved t (Granted tk act md)
           (s\<lparr>d_app := (d_app s)\<lparr>st_agent_registry :=
                hm_insert (tk_agent tk) (snd (try_reserve a (md_domain_id md) (md_magnitude md)))
                  (st_agent_registry (d_app s))\<rparr>,
              d_spent := ((tk_key tk, tk_since tk), tk_agent tk, md_magnitude md) # d_spent s\<rparr>)"
  | (acting) t sp N late tk act md where "ev = Act t sp N late" "d_phase s t = Granted tk act md"
      "s' = act_step W t tk act md sp N late s"
  | (emitting) t tk md p e effs r where "ev = Emit t" "d_phase s t = Waiting tk md p (e # effs) r"
      "s' = moved t (Waiting tk md p effs r) (happened tk [e] s)"
  | (quiet) t p where "d_phase s' = (d_phase s)(t := p)" "quiet (d_phase s t) p" "unchanged s s'"
      "agent_origin s (d_phase s t) p" "event_slot ev = Some t \<or> p = d_phase s t"
proof (cases ev)
  case (Arrive t q epoch)
  show ?thesis
    using assms Arrive
    by (cases rule: admission_cases [of W "d_app s" q epoch "d_now s"])
      (auto intro!: quiet [of t] simp: quiet_def unchanged_def agent_origin_def arrive_def split: phase.splits if_splits)
next
  case (Admit t a)
  with assms show ?thesis
    by (intro quiet [of t "d_phase s' t"])
      (auto simp: quiet_def unchanged_def agent_origin_def admit_call_def Let_def
        split: phase.splits sum.splits option.splits prod.splits)
next
  case (Reserve t secs ms)
  with assms obtain tk act md a where ph: "d_phase s t = Prepared tk act md"
    "registry_get (st_agent_registry (d_app s)) (tk_agent tk) = Some a"
    and s': "s' = reserve_step W t tk act md secs ms a s" by (auto split: phase.splits)
  show ?thesis
  proof (cases rule: reserve_step_cases [of tk a md W t act secs ms s])
    case granted
    with Reserve ph s' show ?thesis using that(2) by blast
  next
    case (ended r entry)
    with Reserve ph s' show ?thesis
      by (intro quiet [of t "d_phase s' t"]) (auto simp: quiet_def unchanged_def agent_origin_def)
  qed
next
  case (Respond t)
  with assms show ?thesis
    by (intro quiet [of t Free]) (auto simp: quiet_def unchanged_def agent_origin_def split: phase.splits)
next
  case (Settle t secs ms)
  with assms show ?thesis
    by (intro quiet [of t "d_phase s' t"])
      (auto simp: quiet_def unchanged_def agent_origin_def settle_step_def Let_def split: phase.splits list.splits prod.splits)
next
  case (Elapse d)
  with assms show ?thesis by (intro quiet [of 0]) (auto simp: unchanged_def)
next
  case (Signal sig)
  with assms show ?thesis by (intro quiet [of 0]) (auto simp: unchanged_def)
next
  case (Turn_away q)
  with assms show ?thesis by (intro quiet [of 0]) (auto simp: unchanged_def split: if_splits)
next
  case (Look path q rd)
  with assms show ?thesis by (intro quiet [of 0]) (auto simp: unchanged_def split: if_splits)
next
  case (Claim t d)
  with assms show ?thesis by (auto intro: claimed split: phase.splits)
next
  case (Act t sp N late)
  with assms show ?thesis by (auto intro: acting split: phase.splits)
next
  case (Emit t)
  with assms show ?thesis by (auto intro: emitting split: phase.splits list.splits)
qed (use assms in \<open>auto intro!: quiet simp: quiet_def unchanged_def agent_origin_def unclaim_def prove_step_def Let_def
       split: phase.splits if_splits\<close>)

lemma claim_cases:
  obtains (owned) cache where "claim W t c full d s = moved t (Owns c (d_now s + d))
        (cached cache (s\<lparr>d_now := d_now s + d, d_grants := (ca_key c, d_now s + d) # d_grants s\<rparr>))"
  | (other) p where "d_phase (claim W t c full d s) = (d_phase s)(t := p)" "p = Free \<or> p = Refused c"
      "unchanged s (claim W t c full d s)"
proof -
  obtain st cache where step: "entry_step (st_cache (d_app s)) (ca_key c) full (d_now s) (d_now s + d) = (st, cache)"
    by fastforce
  show ?thesis
  proof (cases st)
    case New
    show ?thesis
      by (rule owned [of cache]) (simp add: claim_def step New cached_def Let_def)
  qed (use step in \<open>auto intro!: other simp: claim_def unchanged_def\<close>)
qed

text \<open>A step leaves the other slots alone.\<close>

lemma d_exec_other:
  assumes "d_exec W F ev s = Some s'" and "event_slot ev \<noteq> Some u"
  shows "d_phase s' u = d_phase s u"
  using assms(1)
proof (cases rule: d_exec_shape)
  case (claimed t d c full)
  with assms(2) show ?thesis by (cases rule: claim_cases [of W t c full d s]) auto
next
  case (acting t sp N late tk act md)
  with assms(2) show ?thesis by (auto simp: act_step_def Let_def split: prod.splits)
qed (use assms(2) in auto)

section \<open>Agents\<close>

lemma resolve_agent_known:
  assumes "resolve_agent_id st q = Inr aid"
    and "\<And>a. cf_default_agent_id (st_config st) = Some a \<Longrightarrow> registry_get (st_agent_registry st) a \<noteq> None"
  shows "registry_get (st_agent_registry st) aid \<noteq> None"
  using assms by (auto simp: resolve_agent_id_def result_simps ok_or_def split: option.splits if_splits)

lemma agents_known_phase:
  "agents_known s \<Longrightarrow> phase_agent (d_phase s t) = Some aid \<Longrightarrow>
     registry_get (st_agent_registry (d_app s)) aid \<noteq> None"
  by (simp add: agents_known_def)

lemma agents_known_origin:
  assumes "agents_known s" and "agent_origin s (d_phase s t) p" and "phase_agent p = Some aid"
  shows "registry_get (st_agent_registry (d_app s)) aid \<noteq> None"
  using assms resolve_agent_known [of "d_app s"] unfolding agents_known_def agent_origin_def by blast

text \<open>A step that moves slot \<open>t\<close> and keeps the agents keeps them known.\<close>

lemma agents_known_move:
  assumes "agents_known s" and "d_phase s' = (d_phase s)(t := p)" and "agent_origin s (d_phase s t) p"
    and "st_config (d_app s') = st_config (d_app s)"
    and "\<And>aid. registry_get (st_agent_registry (d_app s)) aid \<noteq> None \<Longrightarrow>
       registry_get (st_agent_registry (d_app s')) aid \<noteq> None"
  shows "agents_known s'"
proof -
  have "registry_get (st_agent_registry (d_app s)) aid \<noteq> None"
    if "phase_agent (d_phase s' u) = Some aid" for u aid
    using that assms(2) agents_known_phase [OF assms(1), of u aid] agents_known_origin [OF assms(1,3)]
    by (cases "u = t") auto
  with assms(1,4,5) show ?thesis unfolding agents_known_def by metis
qed

lemma agents_known_step:
  assumes "agents_known s" and "d_exec W F ev s = Some s'"
  shows "agents_known s'"
  using assms(2)
proof (cases rule: d_exec_shape)
  case (claimed t d c full)
  show ?thesis
  proof (cases rule: claim_cases [of W t c full d s])
    case (owned cache)
    with claimed show ?thesis
      by (intro agents_known_move [OF assms(1), of _ t "Owns c (d_now s + d)"]) (auto simp: agent_origin_def)
  next
    case (other p)
    with claimed show ?thesis
      by (intro agents_known_move [OF assms(1), of _ t p]) (auto simp: agent_origin_def unchanged_def)
  qed
next
  case (granted t secs ms tk act md a)
  then show ?thesis
    by (intro agents_known_move [OF assms(1), of _ t "Granted tk act md"])
      (auto simp: agent_origin_def registry_get_def hmap_simps)
next
  case (acting t sp N late tk act md)
  then show ?thesis
    by (intro agents_known_move [OF assms(1), of _ t "d_phase s' t"])
      (auto simp: agent_origin_def act_step_def Let_def split: prod.splits)
next
  case (emitting t tk md p e effs r)
  then show ?thesis
    by (intro agents_known_move [OF assms(1), of _ t "Waiting tk md p effs r"]) (auto simp: agent_origin_def)
next
  case (quiet t p)
  then show ?thesis by (intro agents_known_move [OF assms(1)]) (auto simp: unchanged_def)
qed

section \<open>The cache of the daemon is the cache of its handlers\<close>

lemma comp_upd: "(f \<circ> g)(t := h) = f \<circ> g(t := p) \<longleftrightarrow> h = f p"
  by (auto simp: fun_eq_iff)

lemma claim_enter: "enter t (ca_key c) full d (cc_of s) = cc_of (claim W t c full d s)"
  by (rule cc_of_eqI)
    (auto simp: enter_def claim_def Let_def comp_upd cc_of_def goto_def split: idem_status.splits prod.splits)

theorem d_exec_cc:
  assumes "agents_known s" and "d_exec W F ev s = Some s'"
  shows "cc_run (cc_events W ev s) (cc_of s) = Some (cc_of s')"
proof (cases ev)
  case (Arrive t q e)
  with assms show ?thesis
    by (cases rule: admission_cases [of W "d_app s" q e "d_now s"])
      (auto simp: arrive_def intro!: cc_of_same [symmetric] split: phase.splits if_splits)
next
  case (Claim t d)
  with assms show ?thesis
    by (auto simp: claim_enter split: phase.splits)
next
  case (Admit t a)
  with assms obtain c g where ph: "d_phase s t = Owns c g" and s': "s' = admit_call W t c g a s"
    by (auto split: phase.splits)
  from agents_known_phase [OF assms(1), of t] ph
  have "registry_get (st_agent_registry (d_app s)) (ca_agent c) \<noteq> None" by simp
  with ph s' Admit show ?thesis
    by (auto simp: admit_call_def Let_def comp_upd intro!: cc_of_eqI cc_of_same [symmetric]
        split: sum.splits prod.splits)
next
  case (Reserve t secs ms)
  with assms obtain tk act md a where ph: "d_phase s t = Prepared tk act md"
    and s': "s' = reserve_step W t tk act md secs ms a s" by (auto split: phase.splits)
  with Reserve show ?thesis
    by (cases rule: reserve_step_cases [of tk a md W t act secs ms s])
      (auto intro!: cc_of_same [symmetric])
next
  case (Act t sp N late)
  with assms show ?thesis
    by (auto simp: act_step_def Let_def intro!: cc_of_same [symmetric] split: phase.splits prod.splits)
next
  case (Settle t secs ms)
  with assms show ?thesis
    by (auto simp: settle_step_def Let_def intro!: cc_of_same [symmetric]
        split: phase.splits list.splits prod.splits)
next
  case (Sweep t k)
  with assms show ?thesis by (auto simp: cc_of_def split: phase.splits)
qed (use assms in \<open>auto simp: unclaim_def prove_step_def goto_def cc_of_def comp_upd Let_def
       intro!: cc_of_same [symmetric, unfolded cc_of_def] split: phase.splits list.splits if_splits\<close>)

end
