(* ===== verification/Daemon_Sequential.thy ===== *)
theory Daemon_Sequential
  imports Daemon_Concurrent
begin

text \<open>
  The interleaved model agrees with the sequential one: the events of one slot, with no other slot's
  in between, add up to \<open>serve_action\<close>.
\<close>

section \<open>The call after the guards\<close>

definition serve_call ::
  "world \<Rightarrow> reading \<Rightarrow> call \<Rightarrow> app_state \<Rightarrow> response \<times> app_state \<times> effect list \<times> audit_entry list" where
  "serve_call W rd c st =
     (let (status, cache) = check_or_insert (st_cache st) (ca_key c) (rd_t1 rd) (rd_t2 rd) (rd_t3 rd);
          st2 = st\<lparr>st_cache := cache\<rparr>
      in case status of
           Cached body \<Rightarrow>
             (\<lparr>re_status = 200, re_headers = [(''content-type'', ''application/json'')], re_body = body\<rparr>, st2, [], [])
         | InFlight \<Rightarrow>
             (ama_error_response W (Conflict ''duplicate Idempotency-Key with in-flight request''), st2, [], [])
         | Full \<Rightarrow>
             (json_response W 503 (error_body ''service_unavailable'' full_message),
              st2\<lparr>st_cache := cache_remove (st_cache st2) (ca_key c)\<rparr>, [], [])
         | New \<Rightarrow> run_owned W st2 rd (ca_agent c) (ca_key c) (ca_body c))"

lemma handle_action_admission:
  "handle_action W rd st q =
     (let (st1, r) = admission W st q (rd_epoch_secs rd) (rd_now rd)
      in case r of Inl resp \<Rightarrow> (resp, st1, [], []) | Inr c \<Rightarrow> serve_call W rd c st1)"
  by (auto simp: handle_action_def admission_def serve_call_def Let_def split: sum.splits prod.splits idem_status.splits)

text \<open>What a slot's events add up to: the state it leaves, one answer, its effects and audit entries.\<close>

definition delivers ::
  "nat \<Rightarrow> d_state \<Rightarrow> response \<times> app_state \<times> effect list \<times> audit_entry list \<Rightarrow> d_state \<Rightarrow> bool" where
  "delivers t s out s' \<longleftrightarrow>
     (case out of (resp, st, effs, log) \<Rightarrow>
        d_app s' = st \<and> d_answers s' = resp # d_answers s \<and> d_audit s' = d_audit s @ log \<and>
        map snd (d_effects s') = map snd (d_effects s) @ effs \<and> d_phase s' = (d_phase s)(t := Free))"

lemma delivers_trans:
  assumes "delivers t s1 out s2" and "d_answers s1 = d_answers s" and "d_audit s1 = d_audit s"
    and "d_effects s1 = d_effects s" and "d_phase s1 = (d_phase s)(t := p)"
  shows "delivers t s out s2"
  using assms by (auto simp: delivers_def split: prod.splits)

text \<open>From the pipeline's result to the response: the steps \<open>finish_action\<close> makes at once.\<close>

lemma run_finish:
  assumes "d_phase s t = Ended tk r" and "r = oc_result oc" and "tk_agent tk = aid" and "tk_key tk = key"
    and "tk_request tk = rq" and "tk_action_id tk = rd_action_id rd"
  shows "\<exists>s'. d_run W F [Prove t (rd_proof_epoch_secs rd), Respond t] s = Some s' \<and>
     delivers t s (fst (finish_action W (d_app s) rd aid key rq oc),
       snd (finish_action W (d_app s) rd aid key rq oc), [], []) s'"
  using assms
  by (auto simp: prove_step_def respond_step_def finish_action_def proof_of_def delivers_def cached_def
      policy_hash_of_def Let_def split: sum.splits)

lemma run_emit:
  "d_phase s t = Waiting tk md p effs r \<Longrightarrow>
     d_run W F (replicate (length effs) (Emit t)) s =
       Some (moved t (Waiting tk md p [] r) (happened tk effs s))"
proof (induction effs arbitrary: s)
  case Nil
  then show ?case by (simp add: moved_def happened_def fun_upd_idem)
next
  case (Cons e effs)
  then show ?case by (simp add: moved_def happened_def)
qed

lemma hm_insert_same: "hm_get m k = Some v \<Longrightarrow> hm_insert k v m = m"
  by (induction m) (auto simp: hm_get_def hm_insert_def split: if_splits)

definition only_slot :: "nat \<Rightarrow> d_event list \<Rightarrow> bool" where
  "only_slot t es \<longleftrightarrow> list_all (\<lambda>e. event_slot e = None \<or> event_slot e = Some t) es"

lemma only_slot_simps [simp]:
  "only_slot t []" "only_slot t (e # es) \<longleftrightarrow> (event_slot e = None \<or> event_slot e = Some t) \<and> only_slot t es"
  "only_slot t (es @ fs) \<longleftrightarrow> only_slot t es \<and> only_slot t fs"
  "only_slot t (replicate n (Emit t))"
  by (auto simp: only_slot_def list_all_iff)

text \<open>Continuing with the last two steps.\<close>

lemma run_then_finish:
  assumes "d_run W F es s = Some s1" and "only_slot t es"
    and "d_phase s1 = (d_phase s)(t := Ended tk (oc_result oc))"
    and "tk_agent tk = aid" and "tk_key tk = key" and "tk_request tk = rq" and "tk_action_id tk = rd_action_id rd"
    and "d_answers s1 = d_answers s" and "d_audit s1 = d_audit s @ oc_audit oc"
    and "map snd (d_effects s1) = map snd (d_effects s) @ oc_effects oc"
  shows "\<exists>es s'. d_run W F es s = Some s' \<and> only_slot t es \<and>
     delivers t s (fst (finish_action W (d_app s1) rd aid key rq oc),
       snd (finish_action W (d_app s1) rd aid key rq oc), oc_effects oc, oc_audit oc) s'"
proof -
  from assms(3) have "d_phase s1 t = Ended tk (oc_result oc)" by simp
  from run_finish [OF this refl assms(4-7), of W F] obtain s' where
    s': "d_run W F [Prove t (rd_proof_epoch_secs rd), Respond t] s1 = Some s'"
      "delivers t s1 (fst (finish_action W (d_app s1) rd aid key rq oc),
         snd (finish_action W (d_app s1) rd aid key rq oc), [], []) s'" by blast
  from s'(1) assms(1) have "d_run W F (es @ [Prove t (rd_proof_epoch_secs rd), Respond t]) s = Some s'"
    by (simp add: d_run_append)
  moreover have "delivers t s (fst (finish_action W (d_app s1) rd aid key rq oc),
       snd (finish_action W (d_app s1) rd aid key rq oc), oc_effects oc, oc_audit oc) s'"
    using s'(2) assms(3,8-10) by (simp add: delivers_def)
  ultimately show ?thesis
    using assms(2) by (intro exI [of _ "es @ [Prove t (rd_proof_epoch_secs rd), Respond t]"]) auto
qed

text \<open>The actuator, from the reservation to the pipeline's result.\<close>

lemma run_actuator:
  assumes "d_phase s t = Granted tk act md"
    and "actuate (w_host W) (st_fs (d_app s)) act (tk_action_id tk) (st_config (d_app s)) = (fs, effs, result)"
  shows "\<exists>es s'. d_run W F es s = Some s' \<and> only_slot t es \<and>
     d_app s' = (d_app s)\<lparr>st_fs := fs\<rparr> \<and> d_answers s' = d_answers s \<and>
     d_phase s' = (d_phase s)(t := Ended tk (rbind result (\<lambda>r.
       Inr \<lparr>rs_status = ''authorized'', rs_action_id = tk_action_id tk,
            rs_dry_run = False, rs_result = Some (action_result_json r)\<rparr>))) \<and>
     d_audit s' = d_audit s @ [audit_of (w_host W) (task_ctx (d_app s) tk secs ms) (tk_request tk) md
       (if is_ok result then ''authorized'' else ''error'')
       (case result of Inr r \<Rightarrow> is_truncated r | Inl e \<Rightarrow> False)] \<and>
     map snd (d_effects s') = map snd (d_effects s) @ effs"
proof -
  let ?H = "w_host W"
  define p where "p = suspends ?H act effs"
  define n where "n = at_once p effs"
  let ?w = "\<lambda>es. moved t (Waiting tk md p es result)"
  have act: "d_exec W F (Act t (ho_spawn ?H) (ho_net ?H) (ho_http_overruns ?H)) s =
      Some (?w (drop n effs) (happened tk (take n effs) (s\<lparr>d_app := (d_app s)\<lparr>st_fs := fs\<rparr>\<rparr>)))"
    using assms by (simp add: act_step_def Let_def p_def n_def)
  let ?s1 = "?w (drop n effs) (happened tk (take n effs) (s\<lparr>d_app := (d_app s)\<lparr>st_fs := fs\<rparr>\<rparr>))"
  have emit: "d_run W F (replicate (length (drop n effs)) (Emit t)) ?s1 =
      Some (?w [] (happened tk (drop n effs) ?s1))" by (rule run_emit) simp
  let ?es = "Act t (ho_spawn ?H) (ho_net ?H) (ho_http_overruns ?H) #
    replicate (length (drop n effs)) (Emit t) @ [Settle t secs ms]"
  have "map snd (map (Pair (tk_key tk, tk_since tk)) (take n effs) @ map (Pair (tk_key tk, tk_since tk)) (drop n effs)) = effs"
    by (simp add: o_def)
  then show ?thesis using act emit
    by (intro exI [of _ ?es] exI [of _ "settle_step W t tk md result secs ms (?w [] (happened tk (drop n effs) ?s1))"])
      (cases result; simp add: d_run_append settle_step_def task_ctx_def o_def)
qed


text \<open>A reservation that is granted, and what follows.\<close>

lemma run_prepared:
  assumes "d_phase s t = Prepared tk act md" and "registry_get (st_agent_registry (d_app s)) (tk_agent tk) = Some a"
    and "\<not> rq_dry_run (tk_request tk)" and "check_only a (md_domain_id md) (md_magnitude md) = VAuthorized"
    and "actuate (w_host W) (st_fs (d_app s)) act (tk_action_id tk) (st_config (d_app s)) = (fs, effs, result)"
  shows "\<exists>es s'. d_run W F (Reserve t secs ms # es) s = Some s' \<and> only_slot t es \<and>
     d_app s' = (d_app s)\<lparr>st_agent_registry := hm_insert (tk_agent tk)
       (snd (try_reserve a (md_domain_id md) (md_magnitude md))) (st_agent_registry (d_app s)), st_fs := fs\<rparr> \<and>
     d_answers s' = d_answers s \<and>
     d_phase s' = (d_phase s)(t := Ended tk (rbind result (\<lambda>r.
       Inr \<lparr>rs_status = ''authorized'', rs_action_id = tk_action_id tk,
            rs_dry_run = False, rs_result = Some (action_result_json r)\<rparr>))) \<and>
     d_audit s' = d_audit s @ [audit_of (w_host W) (task_ctx (d_app s) tk secs ms) (tk_request tk) md
       (if is_ok result then ''authorized'' else ''error'')
       (case result of Inr r \<Rightarrow> is_truncated r | Inl e \<Rightarrow> False)] \<and>
     map snd (d_effects s') = map snd (d_effects s) @ effs"
proof -
  let ?s1 = "reserve_step W t tk act md secs ms a s"
  note s1 = reserve_granted [OF assms(3,4), of W t act secs ms s]
  have reserve: "d_exec W F (Reserve t secs ms) s = Some ?s1" using assms(1,2) by simp
  have granted: "d_phase ?s1 t = Granted tk act md"
    and act: "actuate (w_host W) (st_fs (d_app ?s1)) act (tk_action_id tk) (st_config (d_app ?s1)) = (fs, effs, result)"
    and cx: "task_ctx (d_app ?s1) tk secs ms = task_ctx (d_app s) tk secs ms"
    using assms(5) by (simp_all add: s1 task_ctx_def)
  from run_actuator [OF granted act, of F secs ms, unfolded cx] reserve show ?thesis
    by (auto simp: s1)
qed

lemma run_pipeline:
  assumes "d_phase s t = Owns c g" and "w_parse_request W (ca_body c) = Inr rq"
    and "registry_get (st_agent_registry (d_app s)) (ca_agent c) = Some a"
    and "tk = \<lparr>tk_agent = ca_agent c, tk_key = ca_key c, tk_since = g, tk_action_id = action_id, tk_request = rq\<rparr>"
    and "oc = process_action (w_host W) (st_fs (d_app s)) a rq (st_config (d_app s)) (task_ctx (d_app s) tk secs ms)"
  shows "\<exists>es s'. d_run W F es s = Some s' \<and> only_slot t es \<and>
     d_app s' = (d_app s)\<lparr>st_agent_registry := hm_insert (ca_agent c) (oc_auth oc) (st_agent_registry (d_app s)),
                         st_fs := oc_fs oc\<rparr> \<and>
     d_phase s' = (d_phase s)(t := Ended tk (oc_result oc)) \<and> d_answers s' = d_answers s \<and>
     d_audit s' = d_audit s @ oc_audit oc \<and> map snd (d_effects s') = map snd (d_effects s) @ oc_effects oc"
proof -
  let ?st = "d_app s" and ?A = "Admit t action_id" and ?R = "Reserve t secs ms"
  let ?cx = "task_ctx ?st tk secs ms"
  have reg: "hm_insert (ca_agent c) a (st_agent_registry ?st) = st_agent_registry ?st"
    using assms(3) by (simp add: registry_get_def hm_insert_same)
  have cx: "cx_agent_id ?cx = Some (ca_agent c)" "cx_action_id ?cx = action_id"
    by (simp_all add: task_ctx_def assms(4))
  have tk [simp]: "tk_agent tk = ca_agent c" "tk_key tk = ca_key c" "tk_action_id tk = action_id" "tk_request tk = rq"
    by (simp_all add: assms(4))
  have admit: "d_exec W F ?A s = Some (case prepare (w_host W) (st_fs ?st) rq (st_config ?st) (Some (ca_agent c)) of
      Inl e \<Rightarrow> moved t (Ended tk (Inl e)) s | Inr (act, md) \<Rightarrow> moved t (Prepared tk act md) s)"
    using assms(1-4) by (simp add: admit_call_def Let_def split: sum.splits)
  have prepared: "d_exec W F ?A s = Some (moved t (Prepared tk act md) s)"
    if "prepare (w_host W) (st_fs ?st) rq (st_config ?st) (cx_agent_id ?cx) = Inr (act, md)" for act md
    using admit that by (simp add: cx)
  show ?thesis
  proof (cases rule: process_action_cases [of "w_host W" "st_fs ?st" rq "st_config ?st" ?cx a])
    case (invalid e)
    with admit reg show ?thesis by (intro exI [of _ "[?A]"]) (simp add: assms(5) cx refused_def)
  next
    case (denied act md)
    with prepared [OF denied(1)] reg assms(3) show ?thesis
      by (intro exI [of _ "[?A, ?R]"]) (simp add: assms(5) refused_def reserve_denied)
  next
    case (dry act md)
    with prepared [OF dry(1)] reg assms(3) show ?thesis
      by (intro exI [of _ "[?A, ?R]"]) (simp add: assms(5) cx reserve_dry)
  next
    case (run act md fs effs result)
    let ?s1 = "moved t (Prepared tk act md) s"
    have "d_phase ?s1 t = Prepared tk act md" by simp
    from run_prepared [OF this, of a W fs effs result F secs ms] obtain es s' where
      "d_run W F (?R # es) ?s1 = Some s'" "only_slot t es" and
      s': "d_app s' = ?st\<lparr>st_agent_registry := hm_insert (ca_agent c) (oc_auth oc) (st_agent_registry ?st),
             st_fs := oc_fs oc\<rparr>" "d_phase s' = (d_phase s)(t := Ended tk (oc_result oc))"
        "d_answers s' = d_answers s" "d_audit s' = d_audit s @ oc_audit oc"
        "map snd (d_effects s') = map snd (d_effects s) @ oc_effects oc"
      using run(2-5) assms(3) by (auto simp: assms(5) cx task_ctx_def)
    moreover note prepared [OF run(1)]
    ultimately show ?thesis by (intro exI [of _ "?A # ?R # es"] exI [of _ s']) simp
  qed
qed

lemma run_owned_lone:
  assumes "d_phase s t = Owns c g"
  shows "\<exists>es s'. d_run W F es s = Some s' \<and> only_slot t es \<and>
     delivers t s (run_owned W (d_app s) rd (ca_agent c) (ca_key c) (ca_body c)) s'"
proof (cases rule: run_owned_cases [of W "ca_body c" "d_app s" rd "ca_agent c" "ca_key c"])
  case (bad_json e)
  with assms show ?thesis
    by (intro exI [of _ "[Admit t (rd_action_id rd)]"]) (simp add: admit_call_def delivers_def Let_def)
next
  case (no_agent rq)
  with assms show ?thesis
    by (intro exI [of _ "[Admit t (rd_action_id rd)]"]) (simp add: admit_call_def delivers_def Let_def)
next
  case (ran rq a cx st1)
  let ?oc = "process_action (w_host W) (st_fs (d_app s)) a rq (st_config (d_app s)) cx"
  let ?tk = "\<lparr>tk_agent = ca_agent c, tk_key = ca_key c, tk_since = g, tk_action_id = rd_action_id rd, tk_request = rq\<rparr>"
  have cx: "cx = task_ctx (d_app s) ?tk (rd_audit_epoch_secs rd) (rd_duration_ms rd)"
    by (simp add: task_ctx_def ran(3))
  have "?oc = process_action (w_host W) (st_fs (d_app s)) a rq (st_config (d_app s))
      (task_ctx (d_app s) ?tk (rd_audit_epoch_secs rd) (rd_duration_ms rd))" by (simp add: cx)
  from run_pipeline [OF assms ran(1,2) refl this, of F]
  obtain es s1 where "d_run W F es s = Some s1" "only_slot t es" "d_app s1 = st1"
    "d_phase s1 = (d_phase s)(t := Ended ?tk (oc_result ?oc))" "d_answers s1 = d_answers s"
    "d_audit s1 = d_audit s @ oc_audit ?oc" "map snd (d_effects s1) = map snd (d_effects s) @ oc_effects ?oc"
    unfolding ran(4) by blast
  with run_then_finish [of W F es s s1 t ?tk ?oc "ca_agent c" "ca_key c" rq rd] ran(5)
  show ?thesis by simp
qed

text \<open>The cache, from the guards to its answer.\<close>

lemma d_run_sweep:
  "d_phase s t = Sweeping c t1 \<Longrightarrow>
     d_run W F (map (Sweep t) ks) s = Some (cached (foldl (\<lambda>c k. purge_key c t1 k) (st_cache (d_app s)) ks) s)"
  by (induction ks arbitrary: s) (simp_all add: cached_def)

definition claim_script :: "nat \<Rightarrow> reading \<Rightarrow> d_state \<Rightarrow> d_event list" where
  "claim_script t rd s =
     (let c1 = purge_expired (st_cache (d_app s)) (rd_t1 rd)
      in [Elapse (rd_t1 rd - d_now s), Begin t] @ map (Sweep t) (hm_keys (ic_entries (st_cache (d_app s)))) @
         [Measure t (at_capacity c1), Elapse (rd_t2 rd - rd_t1 rd), Claim t (rd_t3 rd - rd_t2 rd)])"

lemma run_claim:
  assumes "d_phase s t = Keyed c" and "hm_wf (ic_entries (st_cache (d_app s)))"
    and "d_now s \<le> rd_t1 rd" and "rd_t1 rd \<le> rd_t2 rd" and "rd_t2 rd \<le> rd_t3 rd"
  shows "d_run W F (claim_script t rd s) s = Some (claim W t c
     (at_capacity (purge_expired (st_cache (d_app s)) (rd_t1 rd))) (rd_t3 rd - rd_t2 rd)
     ((moved t (Measured c (at_capacity (purge_expired (st_cache (d_app s)) (rd_t1 rd))))
       (cached (purge_expired (st_cache (d_app s)) (rd_t1 rd)) s))\<lparr>d_now := rd_t2 rd\<rparr>))"
proof -
  let ?c = "st_cache (d_app s)" and ?s1 = "moved t (Sweeping c (rd_t1 rd)) (s\<lparr>d_now := rd_t1 rd\<rparr>)"
  have "d_run W F (map (Sweep t) (hm_keys (ic_entries ?c))) ?s1 = Some (cached (purge_expired ?c (rd_t1 rd)) ?s1)"
    using d_run_sweep [of ?s1 t c "rd_t1 rd" W F "hm_keys (ic_entries ?c)"] purge_all [OF assms(2) refl]
    by simp
  with assms(1,3-5) show ?thesis
    by (simp add: claim_script_def d_run_append Let_def) (simp add: moved_def cached_def)
qed

lemma only_slot_sweep [simp]: "only_slot t (map (Sweep t) ks)"
  by (simp add: only_slot_def list_all_iff)

lemma serve_call_lone:
  assumes "d_phase s t = Keyed c" and "hm_wf (ic_entries (st_cache (d_app s)))"
    and "d_now s \<le> rd_t1 rd" and "rd_t1 rd \<le> rd_t2 rd" and "rd_t2 rd \<le> rd_t3 rd"
  shows "\<exists>es s'. d_run W F es s = Some s' \<and> only_slot t es \<and> delivers t s (serve_call W rd c (d_app s)) s'"
proof -
  let ?full = "at_capacity (purge_expired (st_cache (d_app s)) (rd_t1 rd))"
  let ?s1 = "(moved t (Measured c ?full) (cached (purge_expired (st_cache (d_app s)) (rd_t1 rd)) s))\<lparr>d_now := rd_t2 rd\<rparr>"
  let ?s2 = "claim W t c ?full (rd_t3 rd - rd_t2 rd) ?s1"
  note run = run_claim [OF assms, of W F]
  have slot: "only_slot t (claim_script t rd s)" by (simp add: claim_script_def Let_def)
  obtain status cache where ci:
    "check_or_insert (st_cache (d_app s)) (ca_key c) (rd_t1 rd) (rd_t2 rd) (rd_t3 rd) = (status, cache)" by fastforce
  then have step: "entry_step (purge_expired (st_cache (d_app s)) (rd_t1 rd)) (ca_key c) ?full (rd_t2 rd)
      (rd_t2 rd + (rd_t3 rd - rd_t2 rd)) = (status, cache)"
    using assms(5) by (simp add: check_or_insert_def Let_def)
  show ?thesis
  proof (cases status)
    case New
    have "d_phase ?s2 t = Owns c (rd_t3 rd)" using step New assms(5) by (simp add: claim_def Let_def)
    from run_owned_lone [OF this, of W F rd] obtain es s' where es: "d_run W F es ?s2 = Some s'" "only_slot t es"
      "delivers t ?s2 (run_owned W (d_app ?s2) rd (ca_agent c) (ca_key c) (ca_body c)) s'" by blast
    have "delivers t s (run_owned W (d_app ?s2) rd (ca_agent c) (ca_key c) (ca_body c)) s'"
      by (rule delivers_trans [OF es(3)]) (use step New in \<open>auto simp: claim_def Let_def\<close>)
    moreover have "d_app ?s2 = (d_app s)\<lparr>st_cache := cache\<rparr>" using step New by (simp add: claim_def Let_def)
    ultimately have "delivers t s (serve_call W rd c (d_app s)) s'" by (simp add: serve_call_def ci New)
    with run es(1,2) slot show ?thesis
      by (intro exI [of _ "claim_script t rd s @ es"] exI [of _ s']) (simp add: d_run_append)
  next
    case Full
    with run step slot ci show ?thesis
      by (intro exI [of _ "claim_script t rd s @ [Unclaim t]"] exI [of _ "unclaim W t c ?s2"])
        (simp add: d_run_append claim_def unclaim_def delivers_def serve_call_def Let_def)
  qed (use run step slot ci in \<open>auto intro!: exI [of _ "claim_script t rd s"]
         simp: claim_def delivers_def serve_call_def Let_def\<close>)
qed



end
