(* ===== verification/Daemon_Interleaved.thy ===== *)
theory Daemon_Interleaved
  imports Daemon_Sequential
begin

text \<open>
  What holds of the daemon under every interleaving of its handlers (\<open>Daemon_Concurrent\<close>): runs of
  events, their trace as the cache sees it, and two invariants, of the capacity each agent has spent
  and of the keys the slots own; the size of the cache; and that every handler can answer.
\<close>

section \<open>Runs\<close>

fun cc_trace :: "world \<Rightarrow> fallbacks \<Rightarrow> d_event list \<Rightarrow> d_state \<Rightarrow> cc_event list" where
  "cc_trace W F [] s = []"
| "cc_trace W F (e # es) s =
     cc_events W e s @ (case d_exec W F e s of Some s' \<Rightarrow> cc_trace W F es s' | None \<Rightarrow> [])"

fun is_unclaim :: "d_event \<Rightarrow> bool" where
  "is_unclaim (Unclaim t) = True"
| "is_unclaim _ = False"

definition no_unclaim :: "d_event list \<Rightarrow> bool" where
  "no_unclaim es \<longleftrightarrow> list_all (\<lambda>e. \<not> is_unclaim e) es"

lemma d_run_induct [consumes 1, case_names start step]:
  assumes "d_run W F es s = Some s'" and "P [] s"
    and "\<And>es e s1 s2. d_run W F es s = Some s1 \<Longrightarrow> P es s1 \<Longrightarrow> d_exec W F e s1 = Some s2 \<Longrightarrow> P (es @ [e]) s2"
  shows "P es s'"
  using assms(1)
proof (induction es arbitrary: s' rule: rev_induct)
  case Nil
  with assms(2) show ?case by simp
next
  case (snoc e es)
  then show ?case using assms(3) by (auto simp: d_run_append split: option.splits)
qed

lemma agents_known_run: "d_run W F es s = Some s' \<Longrightarrow> agents_known s \<Longrightarrow> agents_known s'"
proof (induction rule: d_run_induct)
  case (step es e s1 s2)
  then show ?case by (blast intro: agents_known_step)
qed

lemma d_run_cc:
  "agents_known s \<Longrightarrow> d_run W F es s = Some s' \<Longrightarrow> cc_run (cc_trace W F es s) (cc_of s) = Some (cc_of s')"
  by (induction es arbitrary: s)
    (auto simp: cc_run_append d_exec_cc agents_known_step split: option.splits)

lemma cc_events_remove: "\<not> is_unclaim e \<Longrightarrow> no_remove (cc_events W e s)"
  by (cases e) (auto simp: no_remove_def split: phase.splits sum.splits)

lemma cc_trace_remove: "no_unclaim es \<Longrightarrow> no_remove (cc_trace W F es s)"
  by (induction es arbitrary: s)
    (auto simp: no_unclaim_def no_remove_def cc_events_remove [unfolded no_remove_def] split: option.splits)

section \<open>Capacity\<close>

definition spent_by :: "string \<Rightarrow> ((uuid \<times> instant) \<times> string \<times> u64) list \<Rightarrow> nat" where
  "spent_by aid spent = sum_list (map (\<lambda>(kg, aid', m). if aid' = aid then unat m else 0) spent)"

lemma spent_by_simps [simp]:
  "spent_by aid [] = 0"
  "spent_by aid ((kg, aid', m) # spent) = (if aid' = aid then unat m else 0) + spent_by aid spent"
  by (simp_all add: spent_by_def)

text \<open>Each authorizer's counter is what has been reserved by its agent, whoever was dropped.\<close>

definition capacity_inv :: "(string \<Rightarrow> u64) \<Rightarrow> d_state \<Rightarrow> bool" where
  "capacity_inv cap s \<longleftrightarrow>
     (\<forall>aid a. registry_get (st_agent_registry (d_app s)) aid = Some a \<longrightarrow>
        unat (capacity_used a) = spent_by aid (d_spent s) \<and> capacity_ok a \<and> capacity_max a = cap aid)"

lemma capacity_inv_same:
  "capacity_inv cap s \<Longrightarrow> unchanged s s' \<Longrightarrow> capacity_inv cap s'"
  by (simp add: capacity_inv_def unchanged_def)

lemma capacity_inv_step:
  assumes "capacity_inv cap s" and "d_exec W F ev s = Some s'"
  shows "capacity_inv cap s'"
  using assms(2)
proof (cases rule: d_exec_shape)
  case (claimed t d c full)
  show ?thesis
    by (cases rule: claim_cases [of W t c full d s])
      (use assms(1) claimed(3) in \<open>auto simp: capacity_inv_def unchanged_def\<close>)
next
  case (granted t secs ms tk act md a)
  let ?d = "md_domain_id md" and ?m = "md_magnitude md"
  from assms(1) granted(3) have a: "unat (capacity_used a) = spent_by (tk_agent tk) (d_spent s)"
    "capacity_ok a" "capacity_max a = cap (tk_agent tk)" by (auto simp: capacity_inv_def)
  have "unat (capacity_used (snd (try_reserve a ?d ?m))) = unat (capacity_used a) + unat ?m"
    using granted(5) by (intro p0.reserve_authorized) (simp add: try_reserve_fst)
  with a have "unat (capacity_used (snd (try_reserve a ?d ?m))) = spent_by (tk_agent tk) (d_spent s) + unat ?m"
    by simp
  with a assms(1) granted(6) show ?thesis
    by (auto simp: capacity_inv_def registry_get_def hmap_simps p0.reserve_inv p0.reserve_limit)
next
  case (acting t sp N late tk act md)
  with assms(1) show ?thesis by (auto simp: capacity_inv_def act_step_def Let_def split: prod.splits)
qed (use assms(1) in \<open>auto simp: capacity_inv_def unchanged_def\<close>)

lemma capacity_inv_run: "d_run W F es s = Some s' \<Longrightarrow> capacity_inv cap s \<Longrightarrow> capacity_inv cap s'"
proof (induction rule: d_run_induct)
  case (step es e s1 s2)
  then show ?case by (blast intro: capacity_inv_step)
qed

section \<open>Ownership\<close>

definition slot_ok :: "(uuid \<times> instant) list \<Rightarrow> ((uuid \<times> instant) \<times> string \<times> u64) list \<Rightarrow> phase \<Rightarrow> bool" where
  "slot_ok grants spent p \<longleftrightarrow>
     (\<forall>kg. phase_grant p = Some kg \<longrightarrow>
        kg \<in> set grants \<and> (unspent p \<longrightarrow> kg \<notin> fst ` set spent) \<and>
        (\<forall>r. reserved p = Some r \<longrightarrow> (kg, r) \<in> set spent))"

definition holders_distinct :: "(nat \<Rightarrow> phase) \<Rightarrow> bool" where
  "holders_distinct ph \<longleftrightarrow>
     (\<forall>t u. phase_grant (ph t) \<noteq> None \<and> phase_grant (ph t) = phase_grant (ph u) \<longrightarrow> t = u)"

definition ownership_inv :: "d_state \<Rightarrow> bool" where
  "ownership_inv s \<longleftrightarrow>
     (\<forall>t. slot_ok (d_grants s) (d_spent s) (d_phase s t)) \<and> holders_distinct (d_phase s) \<and>
     distinct (map fst (d_spent s)) \<and> fst ` set (d_spent s) \<subseteq> set (d_grants s) \<and>
     fst ` set (d_effects s) \<subseteq> fst ` set (d_spent s)"

lemma slot_ok_quiet: "slot_ok gs sp old \<Longrightarrow> quiet old new \<Longrightarrow> slot_ok gs sp new"
  unfolding slot_ok_def quiet_def by (metis option.distinct(1))

lemma holders_distinct_move:
  "holders_distinct ph \<Longrightarrow> phase_grant p = None \<or> phase_grant p = phase_grant (ph t) \<Longrightarrow>
     holders_distinct (ph(t := p))"
  unfolding holders_distinct_def by (metis fun_upd_apply)

lemma holders_distinct_quiet: "holders_distinct ph \<Longrightarrow> quiet (ph t) p \<Longrightarrow> holders_distinct (ph(t := p))"
  by (rule holders_distinct_move) (auto simp: quiet_def)

text \<open>A quiet move, which may add effects of a reservation.\<close>

lemma ownership_move:
  assumes "ownership_inv s" and "d_phase s' = (d_phase s)(t := p)" and "quiet (d_phase s t) p"
    and "d_grants s' = d_grants s" and "d_spent s' = d_spent s"
    and "fst ` set (d_effects s') \<subseteq> fst ` set (d_effects s) \<union> fst ` set (d_spent s)"
  shows "ownership_inv s'"
proof -
  note inv = assms(1) [unfolded ownership_inv_def]
  have "slot_ok (d_grants s') (d_spent s') (d_phase s' u)" for u
    using inv slot_ok_quiet [OF _ assms(3), of "d_grants s" "d_spent s"] assms(2,4,5) by simp
  moreover have "holders_distinct (d_phase s')"
    unfolding assms(2) using inv holders_distinct_quiet [of "d_phase s" t p] assms(3) by simp
  moreover have "fst ` set (d_effects s') \<subseteq> fst ` set (d_spent s')"
    using inv assms(5,6) by (simp add: Un_absorb1)
  ultimately show ?thesis using inv assms(4,5) by (simp add: ownership_inv_def)
qed

text \<open>A slot in the actuator has its reservation on record.\<close>

lemma reserved_spent:
  assumes "ownership_inv s" and "phase_grant (d_phase s t) = Some kg" and "reserved (d_phase s t) = Some r"
  shows "kg \<in> fst ` set (d_spent s)"
proof -
  from assms(1) have "slot_ok (d_grants s) (d_spent s) (d_phase s t)" by (simp add: ownership_inv_def)
  with assms(2,3) have "(kg, r) \<in> set (d_spent s)" by (simp add: slot_ok_def)
  then show ?thesis by (rule rev_image_eqI) simp
qed

text \<open>The instant of a grant is one the key has not been granted at before.\<close>

lemma cc_inv_distinct:
  assumes "cc_inv c"
  shows "distinct (cc_grants c)"
proof -
  from assms have "0 < ic_ttl (cc_cache c)"
    and "sorted_wrt (\<lambda>(k', g') (k, g). k' = k \<longrightarrow> g + ic_ttl (cc_cache c) \<le> g') (cc_grants c)"
    by (auto simp: cc_inv_def)
  then show ?thesis by (induction "cc_grants c") (fastforce simp: distinct_conv_nth sorted_wrt_iff_nth_less nat_neq_iff)+
qed

lemma cc_inv_spaced:
  assumes "cc_inv c" and "(k, g) \<in> set (cc_grants c)" and "(k, g') \<in> set (cc_grants c)" and "g < g'"
  shows "g + ic_ttl (cc_cache c) \<le> g'"
proof -
  from assms(2,3) obtain i j where ij: "i < length (cc_grants c)" "cc_grants c ! i = (k, g)"
    "j < length (cc_grants c)" "cc_grants c ! j = (k, g')" by (metis in_set_conv_nth)
  have "i = j \<or> i < j \<or> j < i" by linarith
  moreover from assms(1) have "sorted_wrt (\<lambda>(k', g') (k, g). k' = k \<longrightarrow> g + ic_ttl (cc_cache c) \<le> g') (cc_grants c)"
    by (simp add: cc_inv_def)
  ultimately show ?thesis using ij assms(4) by (fastforce simp: sorted_wrt_iff_nth_less)
qed

lemma ownership_claim:
  assumes "ownership_inv s" and "d_phase s t = Measured c full" and "cc_inv (cc_of (claim W t c full d s))"
  shows "ownership_inv (claim W t c full d s)"
proof (cases rule: claim_cases [of W t c full d s])
  case (owned cache)
  let ?kg = "(ca_key c, d_now s + d)"
  from cc_inv_distinct [OF assms(3)] have fresh: "?kg \<notin> set (d_grants s)"
    by (simp add: owned)
  with assms(1) have unspent: "?kg \<notin> fst ` set (d_spent s)" by (auto simp: ownership_inv_def)
  have "phase_grant (d_phase s u) \<noteq> Some ?kg" for u
    using assms(1) fresh by (auto simp: ownership_inv_def slot_ok_def)
  then have "holders_distinct ((d_phase s)(t := Owns c (d_now s + d)))"
    using assms(1) unfolding ownership_inv_def holders_distinct_def
    by (metis fun_upd_apply phase_grant.simps(1))
  moreover have "slot_ok (?kg # d_grants s) (d_spent s) (if u = t then Owns c (d_now s + d) else d_phase s u)" for u
    using assms(1) unspent by (auto simp: ownership_inv_def slot_ok_def)
  ultimately show ?thesis
    using assms(1) unfolding owned ownership_inv_def by (auto simp: fun_upd_def)
next
  case (other p)
  with assms show ?thesis by (intro ownership_move [OF assms(1) other(1)]) (auto simp: quiet_def unchanged_def)
qed

lemma ownership_step:
  assumes "ownership_inv s" and "d_exec W F ev s = Some s'" and "cc_inv (cc_of s')"
  shows "ownership_inv s'"
  using assms(2)
proof (cases rule: d_exec_shape)
  case (claimed t d c full)
  with assms ownership_claim show ?thesis by blast
next
  case (granted t secs ms tk act md a)
  let ?kg = "(tk_key tk, tk_since tk)"
  have t: "?kg \<in> set (d_grants s)" "?kg \<notin> fst ` set (d_spent s)"
    using assms(1) granted(2) unfolding ownership_inv_def slot_ok_def by (metis phase_grant.simps(2) unspent.simps(2))+
  have sole: "phase_grant (d_phase s u) = Some ?kg \<Longrightarrow> u = t" for u
    using assms(1) granted(2) unfolding ownership_inv_def holders_distinct_def
    by (metis option.distinct(1) phase_grant.simps(2))
  have "slot_ok (d_grants s') (d_spent s') (d_phase s' u)" for u
  proof (cases "u = t")
    case True
    with t(1) granted(6) show ?thesis by (simp add: slot_ok_def)
  next
    case False
    with sole [of u] have "phase_grant (d_phase s u) \<noteq> Some ?kg" by blast
    with False assms(1) granted(6) show ?thesis by (auto simp: ownership_inv_def slot_ok_def)
  qed
  moreover have "holders_distinct (d_phase s')"
    using assms(1) granted(2,6) by (auto simp: ownership_inv_def intro: holders_distinct_move)
  ultimately show ?thesis
    using assms(1) t granted(6) by (auto simp: ownership_inv_def)
next
  case (acting t sp N late tk act md)
  with reserved_spent [OF assms(1), of t] show ?thesis
    by (intro ownership_move [OF assms(1), of s' t "d_phase s' t"])
      (auto simp: act_step_def quiet_def Let_def split: prod.splits)
next
  case (emitting t tk md p e effs r)
  with reserved_spent [OF assms(1), of t] show ?thesis
    by (intro ownership_move [OF assms(1), of s' t "d_phase s' t"]) (auto simp: quiet_def)
next
  case (quiet t p)
  then show ?thesis by (intro ownership_move [OF assms(1)]) (auto simp: unchanged_def)
qed

section \<open>From the boot\<close>

lemma app_state_new_simps:
  "st_config (app_state_new cfg asess session now s) = cfg"
  "st_agent_registry (app_state_new cfg asess session now s) = registry_new asess (map snd (cf_agents cfg))"
  "st_cache (app_state_new cfg asess session now s) = cache_new 10000 (300 * nanos_per_sec)"
  "st_fs (app_state_new cfg asess session now s) = s"
  by (simp_all add: app_state_new_def Let_def)

lemma started:
  assumes "start_daemon E s = Some (s1, Inr (addr, st0))"
  obtains asess session now where
    "st0 = app_state_new (st_config st0) asess session now s1"
    "load_config (se_toml E) (se_lister E) s ''config'' = Inr (st_config st0)"
    "wf_config (tr_unicode (se_toml E)) (st_config st0)"
    "registry_matches (st_config st0) (st_agent_registry st0)"
  using assms
proof (cases rule: start_daemon_cases)
  case (listening cfg n)
  from listening(3) have st0: "st0 = app_state_new cfg (se_authorizer_session E) (se_session E) (se_now E) s1" by simp
  from load_config_wf [OF listening(1)] have wf: "wf_config (tr_unicode (se_toml E)) cfg" by simp
  then have "registry_matches cfg (st_agent_registry st0)"
    unfolding wf_config_def st0 app_state_new_def by (auto simp: Let_def intro: registry_new_matches)
  with listening(1) st0 wf show ?thesis by (intro that) (simp_all add: app_state_new_simps)
qed simp_all

lemma d_boot_simps [simp]:
  "d_app (d_boot st) = st" "d_now (d_boot st) = st_start_time st" "d_phase (d_boot st) t = Free"
  "d_grants (d_boot st) = []" "d_spent (d_boot st) = []" "d_effects (d_boot st) = []"
  "d_audit (d_boot st) = []" "d_answers (d_boot st) = []" "d_stopping (d_boot st) = False"
  by (simp_all add: d_boot_def)

text \<open>A new registry's authorizers have spent nothing.\<close>

lemma registry_new_unused: "registry_get (registry_new session cfgs) aid = Some a \<Longrightarrow> capacity_used a = 0"
  by (auto simp: registry_new_def registry_get_def hm_get_collect_last capacity_used_def p0_new_def
      dest!: map_of_SomeD)

definition agent_limit :: "ama_config \<Rightarrow> string \<Rightarrow> u64" where
  "agent_limit cfg aid = (case hm_get (cf_agents cfg) aid of Some c \<Rightarrow> ac_max_capacity c | None \<Rightarrow> 0)"

lemma registry_matches_Some:
  assumes "registry_matches cfg reg" and "registry_get reg aid = Some a"
  shows "\<exists>c. hm_get (cf_agents cfg) aid = Some c \<and> pa_max_capacity a = ac_max_capacity c \<and>
     hm_get (pa_domains a) = hm_get (ac_domain_policies c)"
proof -
  from assms(1) have "map_option (\<lambda>a. (pa_max_capacity a, hm_get (pa_domains a))) (registry_get reg aid) =
      map_option (\<lambda>c. (ac_max_capacity c, hm_get (ac_domain_policies c))) (hm_get (cf_agents cfg) aid)"
    unfolding registry_matches_def by blast
  with assms(2) show ?thesis by (cases "hm_get (cf_agents cfg) aid") auto
qed

lemma boot_inv:
  assumes "start_daemon E s = Some (s1, Inr (addr, st0))"
  shows "agents_known (d_boot st0)" and "cc_inv (cc_of (d_boot st0))"
    and "ic_ttl (cc_cache (cc_of (d_boot st0))) = 300 * nanos_per_sec"
    and "capacity_inv (agent_limit (st_config st0)) (d_boot st0)" and "ownership_inv (d_boot st0)"
    and "cc_bounded n (cc_of (d_boot st0))" and "ic_max_entries (cc_cache (cc_of (d_boot st0))) = 10000"
proof -
  from assms obtain asess session now where st0: "st0 = app_state_new (st_config st0) asess session now s1"
    and wf: "wf_config (tr_unicode (se_toml E)) (st_config st0)"
    and reg: "registry_matches (st_config st0) (st_agent_registry st0)" by (rule started)
  have cache: "st_cache st0 = cache_new 10000 (300 * nanos_per_sec)" by (subst st0) (simp add: app_state_new_simps)
  show "agents_known (d_boot st0)"
    using wf registry_matches_dom [OF reg] by (simp add: agents_known_def wf_config_def)
  show "cc_inv (cc_of (d_boot st0))"
    by (simp add: cc_inv_def cache cache_new_def hm_wf_def nanos_per_sec_def)
  show "ic_ttl (cc_cache (cc_of (d_boot st0))) = 300 * nanos_per_sec"
    and "ic_max_entries (cc_cache (cc_of (d_boot st0))) = 10000" by (simp_all add: cache cache_new_def)
  show "ownership_inv (d_boot st0)" by (simp add: ownership_inv_def slot_ok_def holders_distinct_def)
  show "cc_bounded n (cc_of (d_boot st0))"
    by (simp add: cc_bounded_def pending_def cache cache_new_def hm_wf_def cache_len_def hm_len_def)
  have "unat (capacity_used a) = 0 \<and> capacity_ok a \<and> capacity_max a = agent_limit (st_config st0) aid"
    if a: "registry_get (st_agent_registry st0) aid = Some a" for aid a
  proof -
    have "st_agent_registry st0 = registry_new asess (map snd (cf_agents (st_config st0)))"
      by (subst st0) (simp add: app_state_new_simps)
    with a registry_new_unused have "capacity_used a = 0" by simp
    with registry_matches_Some [OF reg a] show ?thesis
      by (auto simp: capacity_ok_def capacity_used_def capacity_max_def agent_limit_def)
  qed
  then show "capacity_inv (agent_limit (st_config st0)) (d_boot st0)" by (simp add: capacity_inv_def)
qed

text \<open>Runs in which no handler executes the \<open>remove\<close> after \<open>Full\<close> keep the keys exclusive.\<close>

lemma ownership_run:
  assumes "d_run W F es s = Some s'" and "agents_known s" and "cc_inv (cc_of s)" and "ownership_inv s"
    and "no_unclaim es"
  shows "cc_inv (cc_of s') \<and> ic_ttl (cc_cache (cc_of s')) = ic_ttl (cc_cache (cc_of s)) \<and> ownership_inv s'"
  using assms(1,5)
proof (induction rule: d_run_induct)
  case start
  with assms show ?case by simp
next
  case (step es e s1 s2)
  from step.prems have es: "no_unclaim es" "\<not> is_unclaim e" by (auto simp: no_unclaim_def)
  with step.IH have ih: "cc_inv (cc_of s1)" "ic_ttl (cc_cache (cc_of s1)) = ic_ttl (cc_cache (cc_of s))"
    "ownership_inv s1" by simp_all
  from agents_known_run [OF step.hyps(1) assms(2)] have "agents_known s1" .
  from cc_run_inv [OF ih(1) d_exec_cc [OF this step.hyps(2)] cc_events_remove [OF es(2)]]
  have "cc_inv (cc_of s2) \<and> ic_ttl (cc_cache (cc_of s2)) = ic_ttl (cc_cache (cc_of s1))" by simp
  with ih ownership_step [OF ih(3) step.hyps(2)] show ?case by simp
qed

section \<open>The size of the cache\<close>

fun d_exact :: "world \<Rightarrow> fallbacks \<Rightarrow> d_event list \<Rightarrow> d_state \<Rightarrow> bool" where
  "d_exact W F [] s = True"
| "d_exact W F (e # es) s =
     ((case e of Measure t full \<Rightarrow> full = at_capacity (st_cache (d_app s)) | _ \<Rightarrow> True) \<and>
      (case d_exec W F e s of Some s' \<Rightarrow> d_exact W F es s' | None \<Rightarrow> True))"

lemma exact_append:
  "exact (es @ fs) s \<longleftrightarrow> exact es s \<and> (case cc_run es s of Some s' \<Rightarrow> exact fs s' | None \<Rightarrow> True)"
  by (induction es arbitrary: s) (auto split: option.splits)

lemma cc_events_exact:
  "(case e of Measure t full \<Rightarrow> full = at_capacity (st_cache (d_app s)) | _ \<Rightarrow> True) \<Longrightarrow>
     exact (cc_events W e s) (cc_of s)"
  by (cases e) (auto split: phase.splits sum.splits option.splits)

lemma cc_trace_exact:
  "agents_known s \<Longrightarrow> d_run W F es s = Some s' \<Longrightarrow> d_exact W F es s \<Longrightarrow> exact (cc_trace W F es s) (cc_of s)"
proof (induction es arbitrary: s)
  case (Cons e es)
  from Cons.prems(2) obtain s1 where s1: "d_exec W F e s = Some s1" "d_run W F es s1 = Some s'"
    by (auto split: option.splits)
  from Cons.IH [OF agents_known_step [OF Cons.prems(1) s1(1)] s1(2)] Cons.prems(3) s1(1)
    d_exec_cc [OF Cons.prems(1) s1(1)] cc_events_exact [where e = e and s = s and W = W]
  show ?case by (simp add: exact_append)
qed simp

definition slots_below :: "nat \<Rightarrow> d_state \<Rightarrow> bool" where
  "slots_below n s \<longleftrightarrow> (\<forall>t. d_phase s t \<noteq> Free \<longrightarrow> t < n)"

lemma slot_used:
  assumes "d_exec W F e s = Some s'" and "event_slot e = Some t" and "d_phase s t = Free"
  shows "t < max_concurrent_requests"
  using assms by (cases e) (auto split: if_splits)

lemma slots_below_step:
  assumes "slots_below max_concurrent_requests s" and "d_exec W F e s = Some s'"
  shows "slots_below max_concurrent_requests s' \<and> (\<forall>t. event_slot e = Some t \<longrightarrow> t < max_concurrent_requests)"
proof -
  have slot: "t < max_concurrent_requests" if "event_slot e = Some t" for t
    using slot_used [OF assms(2) that] assms(1) by (auto simp: slots_below_def)
  moreover have "slots_below max_concurrent_requests s'"
    unfolding slots_below_def
  proof (intro allI impI)
    fix u assume u: "d_phase s' u \<noteq> Free"
    show "u < max_concurrent_requests"
    proof (cases "event_slot e = Some u")
      case True
      then show ?thesis by (rule slot)
    next
      case False
      then have "d_phase s' u = d_phase s u" using d_exec_other [OF assms(2)] by simp
      with u assms(1) show ?thesis by (auto simp: slots_below_def)
    qed
  qed
  ultimately show ?thesis by blast
qed

lemma cc_events_threads: "event_thread c = Some t \<Longrightarrow> c \<in> set (cc_events W e s) \<Longrightarrow> event_slot e = Some t"
  by (cases e) (auto split: phase.splits sum.splits)

lemma cc_trace_threads:
  "slots_below max_concurrent_requests s \<Longrightarrow> d_run W F es s = Some s' \<Longrightarrow>
     threads_below max_concurrent_requests (cc_trace W F es s)"
proof (induction es arbitrary: s)
  case (Cons e es)
  from Cons.prems(2) obtain s1 where s1: "d_exec W F e s = Some s1" "d_run W F es s1 = Some s'"
    by (auto split: option.splits)
  note step = slots_below_step [OF Cons.prems(1) s1(1)]
  with Cons.IH [OF _ s1(2)] s1(1) cc_events_threads [of _ _ W e s] show ?case
    by (auto simp: threads_below_def)
qed (simp add: threads_below_def)

section \<open>Every handler answers\<close>

definition own_steps :: "nat \<Rightarrow> d_event list \<Rightarrow> bool" where
  "own_steps t es \<longleftrightarrow> list_all (\<lambda>e. event_slot e = Some t) es"

text \<open>The handler in slot \<open>t\<close> can reach its answer by its own steps.\<close>

definition can_answer :: "world \<Rightarrow> fallbacks \<Rightarrow> nat \<Rightarrow> d_state \<Rightarrow> bool" where
  "can_answer W F t s \<longleftrightarrow>
     (\<exists>es s' resp. d_run W F es s = Some s' \<and> own_steps t es \<and>
        d_phase s' = (d_phase s)(t := Free) \<and> d_answers s' = resp # d_answers s)"

lemma can_answer_now:
  "d_exec W F e s = Some s' \<Longrightarrow> event_slot e = Some t \<Longrightarrow> d_phase s' = (d_phase s)(t := Free) \<Longrightarrow>
     d_answers s' = resp # d_answers s \<Longrightarrow> can_answer W F t s"
  unfolding can_answer_def by (intro exI [of _ "[e]"]) (simp add: own_steps_def)

lemma can_answer_run:
  assumes "d_run W F es s = Some s1" and "own_steps t es" and "d_phase s1 = (d_phase s)(t := p)"
    and "d_answers s1 = d_answers s" and "can_answer W F t s1"
  shows "can_answer W F t s"
proof -
  from assms(5) obtain fs s' resp where fs: "d_run W F fs s1 = Some s'" "own_steps t fs"
    "d_phase s' = (d_phase s1)(t := Free)" "d_answers s' = resp # d_answers s1"
    unfolding can_answer_def by blast
  with assms(1-4) show ?thesis
    unfolding can_answer_def
    by (intro exI [of _ "es @ fs"] exI [of _ s'] exI [of _ resp]) (simp add: d_run_append own_steps_def)
qed

lemma can_answer_step:
  "d_exec W F e s = Some s1 \<Longrightarrow> event_slot e = Some t \<Longrightarrow> d_phase s1 = (d_phase s)(t := p) \<Longrightarrow>
     d_answers s1 = d_answers s \<Longrightarrow> can_answer W F t s1 \<Longrightarrow> can_answer W F t s"
  using can_answer_run [of W F "[e]" s s1 t p] by (simp add: own_steps_def)

text \<open>Phase by phase, from the last to the first.\<close>

lemma respond_answers: "\<exists>resp. d_answers (respond_step W t tk r s) = resp # d_answers s"
  by (simp add: respond_step_def Let_def split: sum.splits)

lemma answer_recorded: "d_phase s t = Recorded tk r \<Longrightarrow> can_answer W F t s"
  using respond_answers [of W t tk r s] by (auto intro!: can_answer_now [where e = "Respond t"])

lemma answer_ended:
  assumes "d_phase s t = Ended tk r"
  shows "can_answer W F t s"
proof -
  have step: "d_exec W F (Prove t 0) s = Some (prove_step W t tk r 0 s)" by (simp add: assms)
  have "d_phase (prove_step W t tk r 0 s) = (d_phase s)(t := Recorded tk r)"
    "d_answers (prove_step W t tk r 0 s) = d_answers s" by (simp_all add: prove_step_def Let_def)
  then show ?thesis
    by (intro can_answer_step [OF step, of t "Recorded tk r"] answer_recorded) simp_all
qed

lemma answer_waiting:
  assumes "d_phase s t = Waiting tk md p effs r"
  shows "can_answer W F t s"
proof -
  let ?s1 = "moved t (Waiting tk md p [] r) (happened tk effs s)"
  obtain r' where r': "d_phase (settle_step W t tk md r 0 0 ?s1) = (d_phase ?s1)(t := Ended tk r')"
    "d_answers (settle_step W t tk md r 0 0 ?s1) = d_answers ?s1"
    by (auto simp: settle_step_def Let_def split: prod.splits)
  have step: "d_exec W F (Settle t 0 0) ?s1 = Some (settle_step W t tk md r 0 0 ?s1)" by simp
  from r' have "can_answer W F t ?s1"
    by (intro can_answer_step [OF step, of t "Ended tk r'"] answer_ended) simp_all
  moreover have "own_steps t (replicate (length effs) (Emit t))" by (simp add: own_steps_def list_all_iff)
  ultimately show ?thesis
    by (intro can_answer_run [OF run_emit [OF assms], of t "Waiting tk md p [] r"]) simp_all
qed

lemma answer_granted:
  assumes "d_phase s t = Granted tk act md"
  shows "can_answer W F t s"
proof -
  let ?H = "w_host W"
  let ?s1 = "act_step W t tk act md (ho_spawn ?H) (ho_net ?H) False s"
  have step: "d_exec W F (Act t (ho_spawn ?H) (ho_net ?H) False) s = Some ?s1" by (simp add: assms)
  have "\<exists>p effs r. d_phase ?s1 = (d_phase s)(t := Waiting tk md p effs r)" and "d_answers ?s1 = d_answers s"
    by (auto simp: act_step_def Let_def split: prod.splits)
  then obtain p effs r where "d_phase ?s1 = (d_phase s)(t := Waiting tk md p effs r)" "d_answers ?s1 = d_answers s"
    by blast
  then show ?thesis
    by (intro can_answer_step [OF step, of t "Waiting tk md p effs r"] answer_waiting) simp_all
qed

lemma answer_prepared:
  assumes "agents_known s" and "d_phase s t = Prepared tk act md"
  shows "can_answer W F t s"
proof -
  from agents_known_phase [OF assms(1), of t] assms(2)
  obtain a where "registry_get (st_agent_registry (d_app s)) (tk_agent tk) = Some a" by auto
  then have step: "d_exec W F (Reserve t 0 0) s = Some (reserve_step W t tk act md 0 0 a s)" by (simp add: assms(2))
  show ?thesis
  proof (cases rule: reserve_step_cases [of tk a md W t act 0 0 s])
    case granted
    then show ?thesis by (intro can_answer_step [OF step, of t "Granted tk act md"] answer_granted) simp_all
  next
    case (ended r entry)
    then show ?thesis by (intro can_answer_step [OF step, of t "Ended tk r"] answer_ended) simp_all
  qed
qed

lemma answer_owns:
  assumes "agents_known s" and "d_phase s t = Owns c g"
  shows "can_answer W F t s"
proof -
  have step: "d_exec W F (Admit t []) s = Some (admit_call W t c g [] s)" by (simp add: assms(2))
  note known = agents_known_step [OF assms(1) step]
  show ?thesis
  proof (cases rule: admit_call_cases [of W t c g "[]" s])
    case (answered resp c')
    then show ?thesis by (intro can_answer_now [OF step, of t resp]) simp_all
  next
    case (ended tk r)
    then show ?thesis by (intro can_answer_step [OF step, of t "Ended tk r"] answer_ended) simp_all
  next
    case (prepared tk act md)
    with known show ?thesis
      by (intro can_answer_step [OF step, of t "Prepared tk act md"] answer_prepared) simp_all
  qed
qed

lemma answer_measured:
  assumes "agents_known s" and "d_phase s t = Measured c full"
  shows "can_answer W F t s"
proof -
  have step: "d_exec W F (Claim t 0) s = Some (claim W t c full 0 s)" by (simp add: assms(2))
  note known = agents_known_step [OF assms(1) step]
  show ?thesis
  proof (cases rule: claim_cases [of W t c full 0 s])
    case (owned cache)
    with known show ?thesis
      by (intro can_answer_step [OF step, of t "Owns c (d_now s + 0)"] answer_owns) simp_all
  next
    case (other p)
    have refused: "can_answer W F t s1" if "d_phase s1 t = Refused c" for s1
      using that by (intro can_answer_now [where e = "Unclaim t"]) (auto simp: unclaim_def)
    from other show ?thesis
    proof (elim disjE)
      assume "p = Refused c"
      moreover have "d_answers (claim W t c full 0 s) = d_answers s" if "d_phase (claim W t c full 0 s) t = Refused c"
        using that by (auto simp: claim_def Let_def split: idem_status.splits prod.splits)
      ultimately show ?thesis using other
        by (intro can_answer_step [OF step, of t "Refused c"] refused) simp_all
    next
      assume "p = Free"
      moreover have "\<exists>resp. d_answers (claim W t c full 0 s) = resp # d_answers s" if "d_phase (claim W t c full 0 s) t = Free"
        using that by (auto simp: claim_def Let_def split: idem_status.splits prod.splits)
      ultimately obtain resp where "d_answers (claim W t c full 0 s) = resp # d_answers s" using other by auto
      with \<open>p = Free\<close> other show ?thesis by (intro can_answer_now [OF step, of t resp]) simp_all
    qed
  qed
qed

lemma answer_any:
  assumes "agents_known s" and "d_phase s t \<noteq> Free"
  shows "can_answer W F t s"
proof -
  have sweeping: "can_answer W F t s" if "agents_known s" "d_phase s t = Sweeping c t1" for s c t1
  proof -
    have step: "d_exec W F (Measure t False) s = Some (moved t (Measured c False) s)" by (simp add: that)
    show ?thesis
      by (rule can_answer_step [OF step, of t "Measured c False"])
        (simp_all add: answer_measured [OF agents_known_step [OF that(1) step], of t c False])
  qed
  have keyed: "can_answer W F t s" if "agents_known s" "d_phase s t = Keyed c" for s c
  proof -
    have step: "d_exec W F (Begin t) s = Some (moved t (Sweeping c (d_now s)) s)" by (simp add: that)
    show ?thesis
      by (rule can_answer_step [OF step, of t "Sweeping c (d_now s)"])
        (simp_all add: sweeping [OF agents_known_step [OF that(1) step], of c "d_now s"])
  qed
  show ?thesis
  proof (cases "d_phase s t")
    case (Refused c)
    then show ?thesis by (intro can_answer_now [where e = "Unclaim t"]) (auto simp: unclaim_def)
  qed (use assms sweeping keyed answer_measured answer_owns answer_prepared answer_granted answer_waiting
         answer_ended answer_recorded in \<open>blast | simp\<close>)+
qed

section \<open>Shutdown\<close>

text \<open>The daemon may exit when it is stopping and no call is in progress.\<close>

definition drained :: "d_state \<Rightarrow> bool" where
  "drained s \<longleftrightarrow> d_stopping s \<and> list_all (\<lambda>t. d_phase s t = Free) [0..<max_concurrent_requests]"

lemma respond_step_stopping [simp]: "d_stopping (respond_step W t tk r s) = d_stopping s"
  by (simp add: respond_step_def Let_def split: sum.splits)

lemma claim_stopping [simp]: "d_stopping (claim W t c full d s) = d_stopping s"
  by (simp add: claim_def Let_def split: idem_status.splits prod.splits)

lemma stopping_step:
  assumes "d_exec W F e s = Some s'" and "d_stopping s"
  shows "d_stopping s'" and "d_phase s t = Free \<Longrightarrow> d_phase s' t = Free"
proof -
  show "d_stopping s'"
  proof (cases e)
    case (Admit t a)
    with assms obtain c g where "s' = admit_call W t c g a s" by (auto split: phase.splits)
    with assms(2) show ?thesis by (cases rule: admit_call_cases [of W t c g a s]) simp_all
  next
    case (Reserve t secs ms)
    with assms obtain tk act md au where "s' = reserve_step W t tk act md secs ms au s" by (auto split: phase.splits)
    with assms(2) show ?thesis by (cases rule: reserve_step_cases [of tk au md W t act secs ms s]) simp_all
  qed (use assms in \<open>auto simp: unclaim_def act_step_def settle_step_def prove_step_def Let_def
         split: phase.splits list.splits if_splits prod.splits\<close>)
  show "d_phase s' t = Free" if free: "d_phase s t = Free"
  proof (cases "event_slot e = Some t")
    case True
    with assms free show ?thesis by (cases e) auto
  qed (use d_exec_other [OF assms(1)] free in simp)
qed

lemma stopping_run:
  "d_run W F es s = Some s' \<Longrightarrow> d_stopping s \<Longrightarrow>
     d_stopping s' \<and> (\<forall>t. d_phase s t = Free \<longrightarrow> d_phase s' t = Free)"
proof (induction rule: d_run_induct)
  case (step es e s1 s2)
  then show ?case using stopping_step [OF step.hyps(2)] by blast
qed simp

text \<open>One slot after the other.\<close>

lemma slots_answer:
  assumes "agents_known s"
  shows "\<exists>es s'. d_run W F es s = Some s' \<and> list_all (\<lambda>e. event_slot e \<noteq> None) es \<and>
     (\<forall>t < n. d_phase s' t = Free) \<and>
     length (d_answers s') = length (d_answers s) + length (filter (\<lambda>t. d_phase s t \<noteq> Free) [0..<n]) \<and>
     (\<forall>t \<ge> n. d_phase s' t = d_phase s t)"
proof (induction n)
  case 0
  show ?case by (intro exI [of _ "[]"]) simp
next
  case (Suc n)
  then obtain es s1 where ih: "d_run W F es s = Some s1" "list_all (\<lambda>e. event_slot e \<noteq> None) es"
    "\<forall>t < n. d_phase s1 t = Free" "\<forall>t \<ge> n. d_phase s1 t = d_phase s t"
    "length (d_answers s1) = length (d_answers s) + length (filter (\<lambda>t. d_phase s t \<noteq> Free) [0..<n])" by blast
  show ?case
  proof (cases "d_phase s n = Free")
    case True
    with ih show ?thesis by (intro exI [of _ es] exI [of _ s1]) (auto simp: less_Suc_eq)
  next
    case False
    with ih(4) have "d_phase s1 n \<noteq> Free" by simp
    from answer_any [OF agents_known_run [OF ih(1) assms] this, of W F] obtain fs s2 resp where
      fs: "d_run W F fs s1 = Some s2" "own_steps n fs" "d_phase s2 = (d_phase s1)(n := Free)"
        "d_answers s2 = resp # d_answers s1" unfolding can_answer_def by blast
    from fs(2) have "list_all (\<lambda>e. event_slot e \<noteq> None) fs" by (auto simp: own_steps_def list_all_iff)
    with ih fs(1,3,4) False show ?thesis
      by (intro exI [of _ "es @ fs"] exI [of _ s2]) (auto simp: d_run_append less_Suc_eq)
  qed
qed

section \<open>A race\<close>

text \<open>Two requests with the same key, one write each, interleaved up to the cache; the daemon is the
  sample one of \<open>Daemon_Main\<close>. The first slot is granted the key, the second is refused.\<close>

definition sample_race :: "d_event list" where
  "sample_race =
     [Arrive 0 (sample_post ''default'' ''write'') 1000, Arrive 1 (sample_post ''default'' ''write'') 1000,
      Begin 0, Begin 1, Measure 0 False, Measure 1 False, Claim 0 2, Claim 1 0,
      Admit 0 ''id1'', Reserve 0 1000 1, Elapse 3, Act 0 (\<lambda>_ _. Overruns (Some 7)) sample_net False,
      Settle 0 1000 1, Prove 0 1000, Respond 0]"

definition sample_daemon :: "d_event list \<Rightarrow> (app_state \<times> d_state) option" where
  "sample_daemon es =
     (case start_daemon sample_env (fs_of_list sample_boot_nodes) of
        Some (s1, Inr (addr, st0)) \<Rightarrow>
          map_option (Pair st0) (d_run sample_world sample_fallbacks es (d_boot st0))
      | _ \<Rightarrow> None)"

lemma sample_daemonE:
  assumes "sample_daemon es = Some (st0, s)"
  obtains s1 addr where "start_daemon sample_env (fs_of_list sample_boot_nodes) = Some (s1, Inr (addr, st0))"
    "d_run sample_world sample_fallbacks es (d_boot st0) = Some s"
  using assms by (auto simp: sample_daemon_def split: option.splits sum.splits)

lemma sample_race_run:
  obtains st0 s s1 addr where "sample_daemon sample_race = Some (st0, s)"
    "start_daemon sample_env (fs_of_list sample_boot_nodes) = Some (s1, Inr (addr, st0))"
    "d_run sample_world sample_fallbacks sample_race (d_boot st0) = Some s"
    "d_exact sample_world sample_fallbacks sample_race (d_boot st0)"
    "d_effects s = [((7, 2), FileWritten ''/ws/default/notes.txt'')]" "map re_status (d_answers s) = [200, 409]"
    "d_spent s = [((7, 2), ''default'', 3)]" "cache_len (st_cache (d_app s)) = 1"
    "registry_get (st_agent_registry (d_app s)) ''default'' \<noteq> None"
proof -
  have "case sample_daemon sample_race of
      Some (st0, s) \<Rightarrow> d_exact sample_world sample_fallbacks sample_race (d_boot st0) \<and>
        d_effects s = [((7, 2), FileWritten ''/ws/default/notes.txt'')] \<and> map re_status (d_answers s) = [200, 409] \<and>
        d_spent s = [((7, 2), ''default'', 3)] \<and> cache_len (st_cache (d_app s)) = 1 \<and>
        registry_get (st_agent_registry (d_app s)) ''default'' \<noteq> None
    | None \<Rightarrow> False" by code_simp
  then obtain st0 s where run: "sample_daemon sample_race = Some (st0, s)"
    and facts: "d_exact sample_world sample_fallbacks sample_race (d_boot st0)"
      "d_effects s = [((7, 2), FileWritten ''/ws/default/notes.txt'')]" "map re_status (d_answers s) = [200, 409]"
      "d_spent s = [((7, 2), ''default'', 3)]" "cache_len (st_cache (d_app s)) = 1"
      "registry_get (st_agent_registry (d_app s)) ''default'' \<noteq> None"
    by (cases "sample_daemon sample_race") auto
  obtain s1 addr where "start_daemon sample_env (fs_of_list sample_boot_nodes) = Some (s1, Inr (addr, st0))"
    "d_run sample_world sample_fallbacks sample_race (d_boot st0) = Some s" by (rule sample_daemonE [OF run])
  with run facts show ?thesis by (intro that)
qed

text \<open>What holding a key means under the invariant.\<close>

lemma ownership_holder:
  assumes "ownership_inv s" and "phase_grant (d_phase s t) = Some kg"
  shows "kg \<in> set (d_grants s)" and "t \<noteq> u \<Longrightarrow> phase_grant (d_phase s u) \<noteq> Some kg"
proof -
  from assms(1) have "slot_ok (d_grants s) (d_spent s) (d_phase s t)" by (simp add: ownership_inv_def)
  with assms(2) show "kg \<in> set (d_grants s)" by (simp add: slot_ok_def)
  from assms(1) have "holders_distinct (d_phase s)" by (simp add: ownership_inv_def)
  with assms(2) show "t \<noteq> u \<Longrightarrow> phase_grant (d_phase s u) \<noteq> Some kg"
    unfolding holders_distinct_def by (metis option.distinct(1))
qed

section \<open>Properties\<close>

text \<open>C2: under every interleaving, and with handlers dropped at any await, effects of one key that belong
  to different executions lie at least the time to live apart; every effect belongs to an execution
  with exactly one reservation on record; and two handlers hold one key at the same time only if one
  of them has been running for longer than the time to live. The one event excluded is the
  \<open>remove\<close> after \<open>Full\<close>.\<close>

theorem concurrent_executions_apart:
  assumes "start_daemon E s0 = Some (s1, Inr (addr, st0))" and "d_run W F es (d_boot st0) = Some s"
    and "no_unclaim es"
  shows "(\<forall>((k, g), e) \<in> set (d_effects s). \<forall>((k', g'), e') \<in> set (d_effects s).
       k' = k \<and> g < g' \<longrightarrow> g + 300 * nanos_per_sec \<le> g') \<and>
     distinct (map fst (d_spent s)) \<and> fst ` set (d_effects s) \<subseteq> fst ` set (d_spent s) \<and>
     (\<forall>t u k g g'. t \<noteq> u \<and> phase_grant (d_phase s t) = Some (k, g) \<and> phase_grant (d_phase s u) = Some (k, g') \<longrightarrow>
        g + 300 * nanos_per_sec \<le> g' \<or> g' + 300 * nanos_per_sec \<le> g)"
proof -
  note boot = boot_inv [OF assms(1)]
  from ownership_run [OF assms(2) boot(1,2,5) assms(3)] boot(3)
  have inv: "cc_inv (cc_of s)" "ic_ttl (cc_cache (cc_of s)) = 300 * nanos_per_sec" "ownership_inv s" by simp_all
  have spaced: "g + 300 * nanos_per_sec \<le> g'"
    if "(k, g) \<in> set (d_grants s)" "(k, g') \<in> set (d_grants s)" "g < g'" for k g g'
    using cc_inv_spaced [OF inv(1), of k g g'] that inv(2) by simp
  from inv(3) have "fst ` set (d_effects s) \<subseteq> set (d_grants s)"
    by (simp add: ownership_inv_def) (elim conjE, rule order_trans)
  with spaced have effects: "\<forall>((k, g), e) \<in> set (d_effects s). \<forall>((k', g'), e') \<in> set (d_effects s).
       k' = k \<and> g < g' \<longrightarrow> g + 300 * nanos_per_sec \<le> g'" by fastforce
  have held: "\<forall>t u k g g'. t \<noteq> u \<and> phase_grant (d_phase s t) = Some (k, g) \<and> phase_grant (d_phase s u) = Some (k, g') \<longrightarrow>
      g + 300 * nanos_per_sec \<le> g' \<or> g' + 300 * nanos_per_sec \<le> g"
  proof (intro allI impI, elim conjE)
    fix t u k g g'
    assume that: "t \<noteq> u" "phase_grant (d_phase s t) = Some (k, g)" "phase_grant (d_phase s u) = Some (k, g')"
    note H = ownership_holder [OF inv(3) that(2)]
    from H(1) ownership_holder(1) [OF inv(3) that(3)] have "(k, g) \<in> set (d_grants s)" "(k, g') \<in> set (d_grants s)"
      by simp_all
    moreover have "g \<noteq> g'" using H(2) [OF that(1)] that(3) by auto
    ultimately show "g + 300 * nanos_per_sec \<le> g' \<or> g' + 300 * nanos_per_sec \<le> g"
      using spaced by (meson linorder_neqE_nat)
  qed
  from inv(3) have spent: "distinct (map fst (d_spent s))" "fst ` set (d_effects s) \<subseteq> fst ` set (d_spent s)"
    by (simp_all add: ownership_inv_def)
  show ?thesis by (intro conjI effects spent held)
qed

theorem concurrent_executions_apart_witness:
  "\<exists>st0 s. sample_daemon sample_race = Some (st0, s) \<and> map re_status (d_answers s) = [200, 409] \<and>
     distinct (map fst (d_spent s)) \<and> fst ` set (d_effects s) \<subseteq> fst ` set (d_spent s)"
proof (rule sample_race_run)
  fix st0 s s1 addr
  assume run: "sample_daemon sample_race = Some (st0, s)"
    "start_daemon sample_env (fs_of_list sample_boot_nodes) = Some (s1, Inr (addr, st0))"
    "d_run sample_world sample_fallbacks sample_race (d_boot st0) = Some s" "map re_status (d_answers s) = [200, 409]"
  have "no_unclaim sample_race" by (simp add: no_unclaim_def sample_race_def)
  note apart = conjunct2 [OF concurrent_executions_apart [OF run(2,3) this]]
  from run(1,4) apart [THEN conjunct1] apart [THEN conjunct2, THEN conjunct1] show ?thesis by (intro exI conjI)
qed

text \<open>C6: under every interleaving, the remove and dropped handlers included, each agent's counter is the
  sum of the magnitudes reserved for it, and that sum is within the capacity it was configured
  with.\<close>

theorem concurrent_capacity:
  assumes "start_daemon E s0 = Some (s1, Inr (addr, st0))" and "d_run W F es (d_boot st0) = Some s"
    and "registry_get (st_agent_registry (d_app s)) aid = Some a"
  shows "unat (capacity_used a) = spent_by aid (d_spent s) \<and>
     spent_by aid (d_spent s) \<le> unat (agent_limit (st_config st0) aid)"
proof -
  from capacity_inv_run [OF assms(2) boot_inv(4) [OF assms(1)]] assms(3)
  have "unat (capacity_used a) = spent_by aid (d_spent s)" "capacity_ok a"
    "capacity_max a = agent_limit (st_config st0) aid" by (auto simp: capacity_inv_def)
  with p0.inv_limit [of a] show ?thesis by simp
qed

theorem concurrent_capacity_witness:
  "\<exists>st0 s a. sample_daemon sample_race = Some (st0, s) \<and>
     registry_get (st_agent_registry (d_app s)) ''default'' = Some a \<and> unat (capacity_used a) = 3"
proof (rule sample_race_run)
  fix st0 s s1 addr
  assume run: "sample_daemon sample_race = Some (st0, s)"
    "start_daemon sample_env (fs_of_list sample_boot_nodes) = Some (s1, Inr (addr, st0))"
    "d_run sample_world sample_fallbacks sample_race (d_boot st0) = Some s"
    "d_spent s = [((7, 2), ''default'', 3)]" "registry_get (st_agent_registry (d_app s)) ''default'' \<noteq> None"
  from run(5) obtain a where a: "registry_get (st_agent_registry (d_app s)) ''default'' = Some a" by auto
  from concurrent_capacity [OF run(2,3) a] run(4) have "unat (capacity_used a) = 3" by simp
  with run(1) a show ?thesis by blast
qed

text \<open>C16: with 8 calls at a time and lengths of the map read exactly, the cache never holds more than
  10007 entries.\<close>

theorem concurrent_cache_bound:
  assumes "start_daemon E s0 = Some (s1, Inr (addr, st0))" and "d_run W F es (d_boot st0) = Some s"
    and "d_exact W F es (d_boot st0)"
  shows "cache_len (st_cache (d_app s)) \<le> 10007"
proof -
  note boot = boot_inv [OF assms(1)]
  have "slots_below max_concurrent_requests (d_boot st0)" by (simp add: slots_below_def)
  from cc_run_bounded [OF boot(6) d_run_cc [OF boot(1) assms(2)] cc_trace_threads [OF this assms(2)]
      cc_trace_exact [OF boot(1) assms(2,3)]] boot(7)
  show ?thesis by (auto simp: cc_bounded_def max_concurrent_requests_def)
qed

theorem concurrent_cache_bound_witness:
  "\<exists>st0 s. sample_daemon sample_race = Some (st0, s) \<and> cache_len (st_cache (d_app s)) = 1 \<and>
     cache_len (st_cache (d_app s)) \<le> 10007"
proof (rule sample_race_run)
  fix st0 s s1 addr
  assume run: "sample_daemon sample_race = Some (st0, s)"
    "start_daemon sample_env (fs_of_list sample_boot_nodes) = Some (s1, Inr (addr, st0))"
    "d_run sample_world sample_fallbacks sample_race (d_boot st0) = Some s"
    "d_exact sample_world sample_fallbacks sample_race (d_boot st0)" "cache_len (st_cache (d_app s)) = 1"
  from concurrent_cache_bound [OF run(2-4)] run(1,5) show ?thesis by blast
qed

text \<open>C13: no handler waits for another. From every reachable state, whatever the other slots are doing, a
  busy slot gets to an answer by steps of its own only, with no time passing.\<close>

theorem handlers_answer:
  assumes "start_daemon E s0 = Some (s1, Inr (addr, st0))" and "d_run W F es (d_boot st0) = Some s"
    and "d_phase s t \<noteq> Free"
  shows "\<exists>es' s' resp. d_run W F es' s = Some s' \<and> list_all (\<lambda>e. event_slot e = Some t) es' \<and>
     d_phase s' = (d_phase s)(t := Free) \<and> d_answers s' = resp # d_answers s"
  using answer_any [OF agents_known_run [OF assms(2) boot_inv(1) [OF assms(1)]] assms(3), of W F]
  unfolding can_answer_def own_steps_def by blast

text \<open>A handler that has just been granted its key writes its file and answers.\<close>

theorem handlers_answer_witness:
  "\<exists>st0 s es' s' resp. sample_daemon (take 7 sample_race) = Some (st0, s) \<and>
     d_run sample_world sample_fallbacks es' s = Some s' \<and> list_all (\<lambda>e. event_slot e = Some 0) es' \<and>
     d_phase s' 0 = Free \<and> d_answers s' = resp # d_answers s"
proof -
  have "case sample_daemon (take 7 sample_race) of Some (st0, s) \<Rightarrow> phase_grant (d_phase s 0) = Some (7, 2) | None \<Rightarrow> False"
    by code_simp
  then obtain st0 s where run: "sample_daemon (take 7 sample_race) = Some (st0, s)"
    and "phase_grant (d_phase s 0) \<noteq> None"
    by (cases "sample_daemon (take 7 sample_race)") auto
  then have held: "d_phase s 0 \<noteq> Free" by auto
  obtain s1 addr where "start_daemon sample_env (fs_of_list sample_boot_nodes) = Some (s1, Inr (addr, st0))"
    "d_run sample_world sample_fallbacks (take 7 sample_race) (d_boot st0) = Some s" by (rule sample_daemonE [OF run])
  from handlers_answer [OF this held] obtain es' s' resp where
    "d_run sample_world sample_fallbacks es' s = Some s'" "list_all (\<lambda>e. event_slot e = Some 0) es'"
    "d_phase s' = (d_phase s)(0 := Free)" "d_answers s' = resp # d_answers s" by blast
  with run show ?thesis by (intro exI conjI) (simp_all del: take_Cons_numeral)
qed



section \<open>A dropped handler\<close>

definition shell_world :: world where
  "shell_world = sample_world\<lparr>w_parse_request :=
     (\<lambda>_. Inr (sample_request ''shell_exec'' ''read_file_cat'' None (Some [''secret''])))\<rparr>"

definition sample_drop :: "d_event list" where
  "sample_drop =
     [Arrive 0 (sample_post ''bob'' ''run'') 1000, Begin 0, Measure 0 False, Claim 0 0, Admit 0 ''id1'',
      Reserve 0 1000 1, Act 0 (\<lambda>_ _. Overruns (Some 7)) sample_net False, Elapse (5 * nanos_per_sec), Abandon 0,
      Arrive 1 (sample_post ''bob'' ''run'') 1000, Begin 1, Sweep 1 7, Measure 1 False, Claim 1 0]"

text \<open>Bob's client goes away while his program runs, which drops the handler: the child is neither
  signalled nor reaped, the capacity is spent, there is no audit entry and no proof record, and
  the retry is refused because the key stays in flight.\<close>

theorem dropped_call_untraced:
  "case d_run shell_world sample_fallbacks sample_drop (d_boot sample_state) of
     None \<Rightarrow> False
   | Some s \<Rightarrow>
       map snd (d_effects s) = [ProcEvent (Spawned (shell_command ''/bin/cat'' [''secret''] ''/ws'' ''id1''))] \<and>
       d_audit s = [] \<and> proof_get (st_proof_store (d_app s)) ''id1'' = None \<and>
       map_option capacity_used (registry_get (st_agent_registry (d_app s)) ''bob'') = Some 3 \<and>
       map re_status (d_answers s) = [409] \<and> d_phase s 0 = Free \<and> d_phase s 1 = Free"
  by code_simp

end
