(* ===== verification/Daemon_Accounts.thy ===== *)
theory Daemon_Accounts
  imports Daemon_Interleaved "HOL-Library.Multiset"
begin

text \<open>
  The daemon's accounts under every interleaving (\<open>Daemon_Concurrent\<close>): what the authorizers were
  asked, what is on record as reserved, what the audit trail says about it, and how many of the
  requests have been answered. Only a handler dropped at an await leaves a gap.
\<close>

section \<open>The accounts\<close>

text \<open>The reservation a slot's action runs under, as it is on record.\<close>

fun held :: "phase \<Rightarrow> (task \<times> mapped_domain) option" where
  "held (Granted tk act md) = Some (tk, md)"
| "held (Waiting tk md p effs r) = Some (tk, md)"
| "held _ = None"

definition spending :: "task \<times> mapped_domain \<Rightarrow> (uuid \<times> instant) \<times> string \<times> u64" where
  "spending = (\<lambda>(tk, md). ((tk_key tk, tk_since tk), tk_agent tk, md_magnitude md))"

definition held_in :: "d_state \<Rightarrow> (task \<times> mapped_domain) multiset" where
  "held_in s = mset (List.map_filter (\<lambda>t. held (d_phase s t)) [0..<max_concurrent_requests])"

definition busy :: "d_state \<Rightarrow> nat" where
  "busy s = length (filter (\<lambda>t. d_phase s t \<noteq> Free) [0..<max_concurrent_requests])"

text \<open>What a step logs, with the reservation an entry closes; and the reservations dropped.\<close>

fun closes :: "d_event \<Rightarrow> d_state \<Rightarrow> (task \<times> mapped_domain) option" where
  "closes (Settle t secs ms) s = held (d_phase s t)"
| "closes _ s = None"

fun drops_of :: "d_event \<Rightarrow> d_state \<Rightarrow> (task \<times> mapped_domain) list" where
  "drops_of (Abandon t) s = (case held (d_phase s t) of Some r \<Rightarrow> [r] | None \<Rightarrow> [])"
| "drops_of _ s = []"

type_synonym trail_entry = "(task \<times> mapped_domain) option \<times> audit_entry"

definition logs_of :: "d_event \<Rightarrow> d_state \<Rightarrow> d_state \<Rightarrow> trail_entry list" where
  "logs_of e s s' = map (Pair (closes e s)) (drop (length (d_audit s)) (d_audit s'))"

fun trail :: "world \<Rightarrow> fallbacks \<Rightarrow> d_event list \<Rightarrow> d_state \<Rightarrow> trail_entry list" where
  "trail W F [] s = []"
| "trail W F (e # es) s =
     (case d_exec W F e s of None \<Rightarrow> [] | Some s' \<Rightarrow> logs_of e s s' @ trail W F es s')"

fun dropped :: "world \<Rightarrow> fallbacks \<Rightarrow> d_event list \<Rightarrow> d_state \<Rightarrow> (task \<times> mapped_domain) list" where
  "dropped W F [] s = []"
| "dropped W F (e # es) s =
     (case d_exec W F e s of None \<Rightarrow> [] | Some s' \<Rightarrow> drops_of e s @ dropped W F es s')"

definition settled_by :: "trail_entry list \<Rightarrow> (task \<times> mapped_domain) list" where
  "settled_by es = List.map_filter fst es"

text \<open>An entry is about the task whose reservation it closes; an entry that closes none is a denial or a
  dry run.\<close>

definition faithful :: "world \<Rightarrow> trail_entry \<Rightarrow> bool" where
  "faithful W = (\<lambda>(r, e).
     case r of
       Some (tk, md) \<Rightarrow>
         (\<exists>cx status truncated. e = audit_of (w_host W) cx (tk_request tk) md status truncated \<and>
            cx_action_id cx = tk_action_id tk \<and> status \<in> {''authorized'', ''error''})
     | None \<Rightarrow> ae_status e \<in> {''authorized'', ''impossible''})"

fun is_reserve :: "d_event \<Rightarrow> bool" where
  "is_reserve (Reserve t secs ms) = True"
| "is_reserve _ = False"

fun is_request :: "d_event \<Rightarrow> bool" where
  "is_request (Arrive t q epoch) = True"
| "is_request (Turn_away q) = True"
| "is_request (Look path q rd) = True"
| "is_request _ = False"

section \<open>One step\<close>

lemma sum_slot:
  fixes f :: "phase \<Rightarrow> 'a::comm_monoid_add" and n :: nat
  assumes "t < n"
  shows "(\<Sum>u<n. f ((ph(t := p)) u)) + f (ph t) = (\<Sum>u<n. f (ph u)) + f p"
proof -
  have rest: "(\<Sum>u \<in> {..<n} - {t}. f ((ph(t := p)) u)) = (\<Sum>u \<in> {..<n} - {t}. f (ph u))"
    by (intro sum.cong) auto
  have t: "t \<in> {..<n}" using assms by simp
  note split = sum.remove [OF finite_lessThan [of n] t]
  show ?thesis unfolding split [of "\<lambda>u. f ((ph(t := p)) u)"] split [of "\<lambda>u. f (ph u)"] rest
    by (simp add: ac_simps)
qed

lemma mset_map_filter:
  "mset (List.map_filter f [0..<n]) = (\<Sum>t<n. mset_set (set_option (f t)))"
  by (induction n) (auto simp: map_filter_def)

lemma length_filter_sum: "length (filter P [0..<n]) = (\<Sum>t<n. if P t then 1 else 0)"
  by (induction n) simp_all

lemma held_in_move:
  assumes "d_phase s' = (d_phase s)(t := p)" and "t < max_concurrent_requests \<or> p = d_phase s t"
  shows "held_in s' + mset_set (set_option (held (d_phase s t))) = held_in s + mset_set (set_option (held p))"
proof (cases "t < max_concurrent_requests")
  case True
  from sum_slot [OF this, where f = "\<lambda>p. mset_set (set_option (held p))" and ph = "d_phase s" and p = p]
  show ?thesis unfolding held_in_def mset_map_filter assms(1) .
next
  case False
  with assms have "d_phase s' = d_phase s" by (simp add: fun_upd_triv)
  with False assms(2) show ?thesis by (simp add: held_in_def)
qed

lemma busy_move:
  assumes "d_phase s' = (d_phase s)(t := p)" and "t < max_concurrent_requests \<or> p = d_phase s t"
  shows "busy s' + (if d_phase s t = Free then 0 else 1) = busy s + (if p = Free then 0 else 1)"
proof (cases "t < max_concurrent_requests")
  case True
  from sum_slot [OF this, where f = "\<lambda>p. if p \<noteq> Free then 1 else 0" and ph = "d_phase s" and p = p]
  show ?thesis unfolding busy_def length_filter_sum assms(1) by (simp split: if_splits)
next
  case False
  with assms have "d_phase s' = d_phase s" by (simp add: fun_upd_triv)
  with False assms(2) show ?thesis by (simp add: busy_def)
qed


text \<open>A step that moves slot \<open>t\<close>, and what it does to the accounts.\<close>

definition accounts ::
  "world \<Rightarrow> d_event \<Rightarrow> d_state \<Rightarrow> d_state \<Rightarrow> bool" where
  "accounts W e s s' \<longleftrightarrow>
     d_audit s' = d_audit s @ map snd (logs_of e s s') \<and> list_all (faithful W) (logs_of e s s') \<and>
     mset (d_spent s') + image_mset spending (held_in s) =
       mset (d_spent s) +
       image_mset spending (mset (settled_by (logs_of e s s')) + mset (drops_of e s) + held_in s') \<and>
     length (d_spent s') + length (filter (\<lambda>x. fst x = None) (logs_of e s s')) =
       length (d_spent s) + (if is_reserve e then 1 else 0) \<and>
     length (d_answers s') + length (drops_of e s) + busy s' =
       length (d_answers s) + busy s + (if is_request e then 1 else 0)"

lemma balance:
  fixes a :: "'a multiset"
  assumes "h' + b = h + c" and "a' + b = a + x + c"
  shows "a' + h = a + x + h'"
proof -
  have "(a' + h) + b = (a' + b) + h" by (simp only: ac_simps)
  also have "\<dots> = (a + x) + (h + c)" by (simp only: assms(2) ac_simps)
  also have "\<dots> = (a + x) + (h' + b)" by (simp only: assms(1))
  also have "\<dots> = (a + x + h') + b" by (simp only: ac_simps)
  finally show ?thesis by simp
qed

lemma accounts_move:
  assumes "d_phase s' = (d_phase s)(t := p)" and "t < max_concurrent_requests \<or> p = d_phase s t"
    and "d_audit s' = d_audit s @ map snd L" and "logs_of e s s' = L" and "list_all (faithful W) L"
    and "mset (d_spent s') + mset_set (set_option (map_option spending (held (d_phase s t)))) = mset (d_spent s) +
       image_mset spending (mset (settled_by L) + mset (drops_of e s)) +
       mset_set (set_option (map_option spending (held p)))"
    and "length (d_spent s') + length (filter (\<lambda>x. fst x = None) L) = length (d_spent s) + (if is_reserve e then 1 else 0)"
    and "length (d_answers s') + length (drops_of e s) + (if p = Free then 0 else 1) =
       length (d_answers s) + (if d_phase s t = Free then 0 else 1) + (if is_request e then 1 else 0)"
  shows "accounts W e s s'"
proof -
  have im: "mset_set (set_option (map_option spending r)) = image_mset spending (mset_set (set_option r))" for r
    by (cases r) simp_all
  have "image_mset spending (held_in s') + image_mset spending (mset_set (set_option (held (d_phase s t)))) =
      image_mset spending (held_in s) + image_mset spending (mset_set (set_option (held p)))"
    using held_in_move [OF assms(1,2)] by (metis image_mset_union)
  from balance [OF this assms(6) [unfolded im]]
  have "mset (d_spent s') + image_mset spending (held_in s) =
      mset (d_spent s) + image_mset spending (mset (settled_by L) + mset (drops_of e s) + held_in s')" by simp
  moreover have "length (d_answers s') + length (drops_of e s) + busy s' =
       length (d_answers s) + busy s + (if is_request e then 1 else 0)"
    using busy_move [OF assms(1,2)] assms(8) by linarith
  ultimately show ?thesis using assms(3-5,7) by (simp add: accounts_def)
qed


lemma logs_of_simps [simp]:
  "d_audit s' = d_audit s \<Longrightarrow> logs_of e s s' = []"
  "d_audit s' = d_audit s @ [x] \<Longrightarrow> logs_of e s s' = [(closes e s, x)]"
  by (simp_all add: logs_of_def)

lemma settled_by_simps [simp]:
  "settled_by [] = []" "settled_by ((None, e) # es) = settled_by es"
  "settled_by ((Some r, e) # es) = r # settled_by es"
  "settled_by (es @ fs) = settled_by es @ settled_by fs"
  by (simp_all add: settled_by_def map_filter_def)

text \<open>A step that logs nothing, spends nothing and drops nothing.\<close>

definition silent :: "nat \<Rightarrow> d_event \<Rightarrow> d_state \<Rightarrow> d_state \<Rightarrow> bool" where
  "silent t e s s' \<longleftrightarrow>
     d_phase s' = (d_phase s)(t := d_phase s' t) \<and> d_audit s' = d_audit s \<and> d_spent s' = d_spent s \<and>
     drops_of e s = [] \<and> \<not> is_reserve e \<and>
     map_option spending (held (d_phase s' t)) = map_option spending (held (d_phase s t)) \<and>
     length (d_answers s') + (if d_phase s' t = Free then 0 else 1) =
       length (d_answers s) + (if d_phase s t = Free then 0 else 1) + (if is_request e then 1 else 0)"

lemma accounts_silent:
  "silent t e s s' \<Longrightarrow> t < max_concurrent_requests \<or> d_phase s' t = d_phase s t \<Longrightarrow> accounts W e s s'"
  unfolding silent_def by (intro accounts_move [of s' s t "d_phase s' t" "[]"]) simp_all

lemma silent_idle:
  "d_exec W F e s = Some s' \<Longrightarrow> event_slot e = None \<Longrightarrow> silent t e s s' \<and> d_phase s' = d_phase s"
  by (cases e) (auto simp: silent_def split: if_splits)

lemma silent_slot:
  assumes "d_exec W F e s = Some s'" and "event_slot e = Some t"
  shows "silent t e s s' \<or> (\<exists>secs ms. e = Reserve t secs ms) \<or> (\<exists>secs ms. e = Settle t secs ms) \<or> e = Abandon t"
proof (cases e)
  case (Arrive u q epoch)
  with assms show ?thesis
    by (cases rule: admission_cases [of W "d_app s" q epoch "d_now s"])
      (auto simp: silent_def arrive_def split: phase.splits if_splits)
next
  case (Claim u d)
  with assms obtain c full where ph: "d_phase s t = Measured c full" and s': "s' = claim W t c full d s"
    by (auto split: phase.splits)
  obtain st cache where step: "entry_step (st_cache (d_app s)) (ca_key c) full (d_now s) (d_now s + d) = (st, cache)"
    by fastforce
  have "silent t e s s'" using ph Claim unfolding s' by (cases st) (simp_all add: silent_def claim_def step Let_def)
  then show ?thesis ..
next
  case (Admit u a)
  with assms obtain c g where "d_phase s t = Owns c g" "s' = admit_call W t c g a s" by (auto split: phase.splits)
  with Admit show ?thesis
    by (cases rule: admit_call_cases [of W t c g a s]) (auto simp: silent_def)
next
  case (Respond u)
  with assms show ?thesis
    by (auto simp: silent_def respond_step_def Let_def split: phase.splits sum.splits)
qed (use assms in \<open>auto simp: silent_def unclaim_def act_step_def prove_step_def spending_def Let_def
       split: phase.splits prod.splits list.splits\<close>)

lemma reserve_accounts:
  assumes "d_exec W F (Reserve t secs ms) s = Some s'" and "t < max_concurrent_requests"
  shows "accounts W (Reserve t secs ms) s s'"
proof -
  from assms(1) obtain tk act md a where ph: "d_phase s t = Prepared tk act md"
    and s': "s' = reserve_step W t tk act md secs ms a s" by (auto split: phase.splits)
  consider (granted) "d_phase s' = (d_phase s)(t := Granted tk act md)"
      "d_spent s' = spending (tk, md) # d_spent s" "d_audit s' = d_audit s" "d_answers s' = d_answers s"
    | (ended) r x where "d_phase s' = (d_phase s)(t := Ended tk r)" "d_spent s' = d_spent s"
      "d_audit s' = d_audit s @ [x]" "ae_status x \<in> {''authorized'', ''impossible''}" "d_answers s' = d_answers s"
    unfolding s' spending_def
    by (cases "check_only a (md_domain_id md) (md_magnitude md)"; cases "rq_dry_run (tk_request tk)")
      (auto simp: reserve_denied reserve_dry reserve_granted audit_of_def)
  then show ?thesis
  proof cases
    case granted
    with assms(2) ph show ?thesis by (intro accounts_move [OF granted(1), where L = "[]"]) simp_all
  next
    case (ended r x)
    with assms(2) ph show ?thesis
      by (intro accounts_move [OF ended(1), where L = "[(None, x)]"]) (simp_all add: faithful_def)
  qed
qed

lemma settle_accounts:
  assumes "d_exec W F (Settle t secs ms) s = Some s'" and "t < max_concurrent_requests"
  shows "accounts W (Settle t secs ms) s s'"
proof -
  from assms(1) obtain tk md p r where ph: "d_phase s t = Waiting tk md p [] r"
    and s': "s' = settle_step W t tk md r secs ms s" by (auto split: phase.splits list.splits)
  let ?entry = "audit_of (w_host W) (task_ctx (d_app s) tk secs ms) (tk_request tk) md"
  obtain status truncated r' where step: "d_phase s' = (d_phase s)(t := Ended tk r')"
    "d_audit s' = d_audit s @ [?entry status truncated]" "status \<in> {''authorized'', ''error''}"
    "d_spent s' = d_spent s" "d_answers s' = d_answers s"
    unfolding s' settle_step_def by (cases r) auto
  have "faithful W (Some (tk, md), ?entry status truncated)"
    using step(3) by (force simp: faithful_def task_ctx_def)
  with step assms(2) ph show ?thesis
    by (intro accounts_move [OF step(1), where L = "[(Some (tk, md), ?entry status truncated)]"]) simp_all
qed

lemma accounts_step:
  assumes below: "slots_below max_concurrent_requests s" and e: "d_exec W F e s = Some s'"
  shows "accounts W e s s'"
proof (cases "event_slot e")
  case None
  from silent_idle [OF e None, of 0] show ?thesis by (intro accounts_silent [of 0]) auto
next
  case (Some t)
  with slots_below_step [OF below e] have t: "t < max_concurrent_requests" by blast
  from silent_slot [OF e Some] consider "silent t e s s'" | secs ms where "e = Reserve t secs ms"
    | secs ms where "e = Settle t secs ms" | "e = Abandon t" by blast
  then show ?thesis
  proof cases
    case 4
    with e obtain tk md p effs r where "d_phase s t = Waiting tk md p effs r" "s' = moved t Free s"
      by (auto split: phase.splits if_splits)
    with t 4 show ?thesis by (intro accounts_move [of s' s t Free "[]"]) simp_all
  qed (use t e in \<open>auto intro: accounts_silent reserve_accounts settle_accounts\<close>)
qed


section \<open>Runs\<close>

lemma accounts_run:
  assumes "d_run W F es s = Some s'" and "slots_below max_concurrent_requests s"
  shows "d_audit s' = d_audit s @ map snd (trail W F es s) \<and> list_all (faithful W) (trail W F es s) \<and>
     mset (d_spent s') + image_mset spending (held_in s) = mset (d_spent s) +
       image_mset spending (mset (settled_by (trail W F es s)) + mset (dropped W F es s) + held_in s') \<and>
     length (d_spent s') + length (filter (\<lambda>x. fst x = None) (trail W F es s)) =
       length (d_spent s) + length (filter is_reserve es) \<and>
     length (d_answers s') + length (dropped W F es s) + busy s' =
       length (d_answers s) + busy s + length (filter is_request es)"
  using assms
proof (induction es arbitrary: s)
  case (Cons e es)
  from Cons.prems(1) obtain s1 where s1: "d_exec W F e s = Some s1" "d_run W F es s1 = Some s'"
    by (auto split: option.splits)
  note b = accounts_step [OF Cons.prems(2) s1(1), unfolded accounts_def]
  from slots_below_step [OF Cons.prems(2) s1(1)] have "slots_below max_concurrent_requests s1" by blast
  note ih = Cons.IH [OF s1(2) this]
  have "mset (d_spent s') + image_mset spending (held_in s) = mset (d_spent s) +
       image_mset spending (mset (settled_by (trail W F (e # es) s)) + mset (dropped W F (e # es) s) + held_in s')"
  proof -
    have "(mset (d_spent s') + image_mset spending (held_in s)) + image_mset spending (held_in s1) =
       (mset (d_spent s') + image_mset spending (held_in s1)) + image_mset spending (held_in s)"
      by (simp only: ac_simps)
    also have "\<dots> = (mset (d_spent s1) + image_mset spending (held_in s)) +
       image_mset spending (mset (settled_by (trail W F es s1)) + mset (dropped W F es s1) + held_in s')"
      unfolding conjunct1 [OF conjunct2 [OF conjunct2 [OF ih]]] by (simp only: ac_simps)
    also have "\<dots> = (mset (d_spent s) +
       image_mset spending (mset (settled_by (logs_of e s s1)) + mset (drops_of e s)) +
       image_mset spending (mset (settled_by (trail W F es s1)) + mset (dropped W F es s1) + held_in s')) +
       image_mset spending (held_in s1)"
      unfolding conjunct1 [OF conjunct2 [OF conjunct2 [OF b]]] image_mset_union by (simp only: ac_simps)
    finally have "mset (d_spent s') + image_mset spending (held_in s) = mset (d_spent s) +
       image_mset spending (mset (settled_by (logs_of e s s1)) + mset (drops_of e s)) +
       image_mset spending (mset (settled_by (trail W F es s1)) + mset (dropped W F es s1) + held_in s')" by simp
    then show ?thesis using s1(1) by (simp only: trail.simps dropped.simps option.case settled_by_simps mset_append
        image_mset_union ac_simps)
  qed
  moreover have "d_audit s' = d_audit s @ map snd (trail W F (e # es) s)" "list_all (faithful W) (trail W F (e # es) s)"
    using conjunct1 [OF b] conjunct1 [OF ih] conjunct1 [OF conjunct2 [OF b]] conjunct1 [OF conjunct2 [OF ih]] s1(1)
    by (simp_all del: logs_of_simps)
  moreover have "length (d_spent s') + length (filter (\<lambda>x. fst x = None) (trail W F (e # es) s)) =
       length (d_spent s) + length (filter is_reserve (e # es))"
    using conjunct1 [OF conjunct2 [OF conjunct2 [OF conjunct2 [OF b]]]]
      conjunct1 [OF conjunct2 [OF conjunct2 [OF conjunct2 [OF ih]]]] s1(1) by (auto simp del: logs_of_simps)
  moreover have "length (d_answers s') + length (dropped W F (e # es) s) + busy s' =
       length (d_answers s) + busy s + length (filter is_request (e # es))"
    using conjunct2 [OF conjunct2 [OF conjunct2 [OF conjunct2 [OF b]]]]
      conjunct2 [OF conjunct2 [OF conjunct2 [OF conjunct2 [OF ih]]]] s1(1) by (auto simp del: logs_of_simps)
  ultimately show ?case by blast
qed (simp add: settled_by_def map_filter_def)

lemma boot_accounts: "held_in (d_boot st) = {#}" "busy (d_boot st) = 0" "slots_below n (d_boot st)"
  by (simp_all add: held_in_def busy_def slots_below_def map_filter_def)

lemma held_in_slot:
  assumes "slots_below max_concurrent_requests s" and "held (d_phase s t) = Some r"
  shows "r \<in># held_in s"
proof -
  from assms(2) have "d_phase s t \<noteq> Free" by auto
  with assms(1) have "t < max_concurrent_requests" by (simp add: slots_below_def)
  with assms(2) show ?thesis by (force simp: held_in_def map_filter_def)
qed

lemma run_slots:
  "d_run W F es s = Some s' \<Longrightarrow> slots_below max_concurrent_requests s \<Longrightarrow> slots_below max_concurrent_requests s'"
proof (induction rule: d_run_induct)
  case (step es e s1 s2)
  then show ?case using slots_below_step by blast
qed

text \<open>From the boot, each reservation is of one of three kinds, and effects need one.\<close>

lemma spent_boot:
  assumes "d_run W F es (d_boot st) = Some s"
  shows "mset (d_spent s) = image_mset spending
     (mset (settled_by (trail W F es (d_boot st))) + mset (dropped W F es (d_boot st)) + held_in s)"
  using accounts_run [OF assms boot_accounts(3)] by (simp add: boot_accounts)

lemma held_spent:
  assumes "d_run W F es (d_boot st) = Some s" and "held (d_phase s t) = Some r"
  shows "spending r \<in> set (d_spent s)"
proof -
  from held_in_slot [OF run_slots [OF assms(1) boot_accounts(3)] assms(2)]
  have "spending r \<in># mset (d_spent s)" unfolding spent_boot [OF assms(1)] by simp
  then show ?thesis by simp
qed

lemma spent_grows:
  assumes "d_exec W F e s = Some s'"
  shows "set (d_spent s) \<subseteq> set (d_spent s')"
  using assms
proof (cases rule: d_exec_shape)
  case (claimed t d c full)
  then show ?thesis by (cases rule: claim_cases [of W t c full d s]) (auto simp: unchanged_def)
next
  case (acting t sp N late tk act md)
  then show ?thesis by (auto simp: act_step_def Let_def split: prod.splits)
qed (auto simp: unchanged_def)

lemma effects_spent:
  "d_run W F es s0 = Some s \<Longrightarrow> s0 = d_boot st \<Longrightarrow> fst ` set (d_effects s) \<subseteq> fst ` set (d_spent s)"
proof (induction rule: d_run_induct)
  case (step es e s1 s2)
  note run = step.hyps(1) [unfolded step.prems]
  have ih: "fst ` set (d_effects s1) \<subseteq> fst ` set (d_spent s2)"
    using step.IH [OF step.prems] spent_grows [OF step.hyps(2)] by blast
  have key: "(tk_key tk, tk_since tk) \<in> fst ` set (d_spent s2)" if "held (d_phase s1 t) = Some (tk, md)" for t tk md
    using held_spent [OF run that] spent_grows [OF step.hyps(2)] by (force simp: spending_def)
  from step.hyps(2) show ?case
  proof (cases rule: d_exec_shape)
    case (claimed t d c full)
    with ih show ?thesis by (cases rule: claim_cases [of W t c full d s1]) (auto simp: unchanged_def)
  next
    case (acting t sp N late tk act md)
    then obtain xs where "d_effects s2 = d_effects s1 @ map (Pair (tk_key tk, tk_since tk)) xs"
      by (auto simp: act_step_def Let_def split: prod.splits)
    then have "fst ` set (d_effects s2) \<subseteq> insert (tk_key tk, tk_since tk) (fst ` set (d_effects s1))" by auto
    moreover have "(tk_key tk, tk_since tk) \<in> fst ` set (d_spent s2)"
      by (rule key [of t tk md]) (simp add: acting(2))
    ultimately show ?thesis using ih by (meson insert_subset subset_trans)
  next
    case (emitting t tk md p e effs r)
    with ih key [of t tk md] show ?thesis by simp
  qed (use ih in \<open>auto simp: unchanged_def\<close>)
qed simp


section \<open>Properties\<close>

text \<open>C31: the audit trail under interleaving. Each question to the authorizer is either a reservation on
  record or one audit entry of a denial or a dry run; each reservation on record is exactly one of
  logged, dropped with its handler, or held by a running one; the entry that closes it is about its
  request, with the magnitude reserved; no other entry exists; and no effect lacks a reservation.\<close>

theorem concurrent_audit:
  assumes "start_daemon E s0 = Some (s1, Inr (addr, st0))" and "d_run W F es (d_boot st0) = Some s"
  shows "d_audit s = map snd (trail W F es (d_boot st0)) \<and> list_all (faithful W) (trail W F es (d_boot st0)) \<and>
     mset (d_spent s) = image_mset spending
       (mset (settled_by (trail W F es (d_boot st0))) + mset (dropped W F es (d_boot st0)) + held_in s) \<and>
     length (filter is_reserve es) =
       length (d_spent s) + length (filter (\<lambda>x. fst x = None) (trail W F es (d_boot st0))) \<and>
     fst ` set (d_effects s) \<subseteq> fst ` spending `
       (set (settled_by (trail W F es (d_boot st0))) \<union> set (dropped W F es (d_boot st0)) \<union> set_mset (held_in s))"
proof -
  note run = accounts_run [OF assms(2) boot_accounts(3)]
  note spent = spent_boot [OF assms(2)]
  have "set (d_spent s) = spending `
      (set (settled_by (trail W F es (d_boot st0))) \<union> set (dropped W F es (d_boot st0)) \<union> set_mset (held_in s))"
    using arg_cong [OF spent, of set_mset] by (simp add: image_Un)
  with effects_spent [OF assms(2) refl] have "fst ` set (d_effects s) \<subseteq> fst ` spending `
      (set (settled_by (trail W F es (d_boot st0))) \<union> set (dropped W F es (d_boot st0)) \<union> set_mset (held_in s))"
    by simp
  moreover have "length (filter is_reserve es) =
      length (d_spent s) + length (filter (\<lambda>x. fst x = None) (trail W F es (d_boot st0)))"
    using conjunct1 [OF conjunct2 [OF conjunct2 [OF conjunct2 [OF run]]]] by simp
  ultimately show ?thesis using spent conjunct1 [OF run] conjunct1 [OF conjunct2 [OF run]] by simp
qed

text \<open>The race: one question, one reservation, one entry.\<close>

theorem concurrent_audit_witness:
  "\<exists>st0 s. sample_daemon sample_race = Some (st0, s) \<and>
     d_audit s = map snd (trail sample_world sample_fallbacks sample_race (d_boot st0)) \<and>
     image_mset spending (mset (settled_by (trail sample_world sample_fallbacks sample_race (d_boot st0))) +
       mset (dropped sample_world sample_fallbacks sample_race (d_boot st0)) + held_in s) =
         {#((7, 2), ''default'', 3)#} \<and> length (filter is_reserve sample_race) = 1"
proof (rule sample_race_run)
  fix st0 s s1 addr
  assume run: "sample_daemon sample_race = Some (st0, s)"
    "start_daemon sample_env (fs_of_list sample_boot_nodes) = Some (s1, Inr (addr, st0))"
    "d_run sample_world sample_fallbacks sample_race (d_boot st0) = Some s" "d_spent s = [((7, 2), ''default'', 3)]"
  have "length (filter is_reserve sample_race) = 1" by (simp add: sample_race_def)
  with concurrent_audit [OF run(2,3)] run(1,4) show ?thesis by (intro exI [of _ st0] exI [of _ s]) simp
qed



end
