(* ===== verification/Daemon_Rates.thy ===== *)
theory Daemon_Rates
  imports Daemon_Interleaved
begin

text \<open>
  Rate limits under every interleaving (\<open>Daemon_Concurrent\<close>): an agent's limiter is asked at the
  instants its calls arrive and touched by nothing else, so what \<open>Server\<close> shows of one limiter holds
  of the agent's calls over the daemon's life.
\<close>

section \<open>What an agent's limiter is asked\<close>

fun asks :: "world \<Rightarrow> string \<Rightarrow> d_event \<Rightarrow> d_state \<Rightarrow> instant list" where
  "asks W aid (Arrive t q epoch) s =
     (if resolve_agent_id (d_app s) q = Inr aid \<and> is_ok (check_identity W (d_app s) aid q epoch)
      then [d_now s] else [])"
| "asks W aid _ s = []"

fun lets_in :: "string \<Rightarrow> d_event \<Rightarrow> d_state \<Rightarrow> nat" where
  "lets_in aid (Arrive t q epoch) s' =
     (case d_phase s' t of Keyed c \<Rightarrow> if ca_agent c = aid then 1 else 0 | _ \<Rightarrow> 0)"
| "lets_in aid _ s' = 0"

text \<open>Over a run: the instants at which the limiter was asked, and the agent's calls past the guards.\<close>

fun asked :: "world \<Rightarrow> fallbacks \<Rightarrow> string \<Rightarrow> d_event list \<Rightarrow> d_state \<Rightarrow> instant list" where
  "asked W F aid [] s = []"
| "asked W F aid (e # es) s =
     (case d_exec W F e s of None \<Rightarrow> [] | Some s' \<Rightarrow> asks W aid e s @ asked W F aid es s')"

fun let_in :: "world \<Rightarrow> fallbacks \<Rightarrow> string \<Rightarrow> d_event list \<Rightarrow> d_state \<Rightarrow> nat" where
  "let_in W F aid [] s = 0"
| "let_in W F aid (e # es) s =
     (case d_exec W F e s of None \<Rightarrow> 0 | Some s' \<Rightarrow> lets_in aid e s' + let_in W F aid es s')"

definition limiter_of :: "d_state \<Rightarrow> string \<Rightarrow> rate_limit_state option" where
  "limiter_of s aid = hm_get (st_rate_limiters (d_app s)) aid"

lemma time_passes: "d_exec W F e s = Some s' \<Longrightarrow> d_now s \<le> d_now s'"
  by (cases e) (auto simp: arrive_def claim_def unclaim_def admit_call_def reserve_step_def act_step_def
      settle_step_def prove_step_def Let_def
      split: phase.splits if_splits list.splits sum.splits option.splits prod.splits idem_status.splits slime_verdict.splits)

lemma limiter_untouched:
  "d_exec W F e s = Some s' \<Longrightarrow> \<forall>t q epoch. e \<noteq> Arrive t q epoch \<Longrightarrow> limiter_of s' aid = limiter_of s aid"
  by (cases e) (auto simp: limiter_of_def claim_def unclaim_def admit_call_def reserve_step_def act_step_def
      settle_step_def prove_step_def respond_step_def Let_def
      split: phase.splits if_splits list.splits sum.splits option.splits prod.splits idem_status.splits slime_verdict.splits)


section \<open>One step\<close>

lemma limiter_arrive:
  assumes "d_exec W F (Arrive t q epoch) s = Some s'" and "limiter_of s aid = Some rl"
  obtains (other) "asks W aid (Arrive t q epoch) s = []" "limiter_of s' aid = Some rl"
      "lets_in aid (Arrive t q epoch) s' = 0"
  | (asked) "asks W aid (Arrive t q epoch) s = [d_now s]"
      "limiter_of s' aid = Some (snd (limiter_step rl (d_now s)))"
      "lets_in aid (Arrive t q epoch) s' \<le> (if fst (limiter_step rl (d_now s)) then 1 else 0)"
proof -
  from assms(1) have free: "d_phase s t = Free" and s': "s' = arrive W t q epoch s"
    by (auto split: phase.splits if_splits)
  show ?thesis
  proof (cases "\<exists>b. resolve_agent_id (d_app s) q = Inr b \<and> is_ok (check_identity W (d_app s) b q epoch)")
    case False
    then have "\<exists>resp. admission W (d_app s) q epoch (d_now s) = (d_app s, Inl resp)"
      by (auto simp: admission_def is_ok_def split: sum.splits)
    with free s' have "d_phase s' t = Free" "limiter_of s' aid = limiter_of s aid"
      by (auto simp: arrive_def limiter_of_def)
    with False assms(2) show ?thesis by (intro other) auto
  next
    case True
    then obtain b where b: "resolve_agent_id (d_app s) q = Inr b" "is_ok (check_identity W (d_app s) b q epoch)"
      by blast
    obtain ok st1 where rate: "check_rate_limit (d_app s) b (d_now s) = (ok, st1)" by fastforce
    have lim: "hm_get (st_rate_limiters (d_app s')) aid = hm_get (st_rate_limiters st1) aid"
      using b rate s' by (auto simp: arrive_def admission_def is_ok_def split: sum.splits)
    have lets: "lets_in aid (Arrive t q epoch) s' \<le> (if ok \<and> b = aid then 1 else 0)"
      using b rate s' free by (auto simp: arrive_def admission_def is_ok_def split: sum.splits)
    show ?thesis
    proof (cases "b = aid")
      case True
      obtain rl' where step: "limiter_step rl (d_now s) = (ok, rl')" "hm_get (st_rate_limiters st1) aid = Some rl'"
        using rate True assms(2) by (auto simp: check_rate_limit_def limiter_of_def hmap_simps split: prod.splits)
      show ?thesis
      proof (rule asked)
        show "asks W aid (Arrive t q epoch) s = [d_now s]" using b True by simp
        show "limiter_of s' aid = Some (snd (limiter_step rl (d_now s)))" using lim step by (simp add: limiter_of_def)
        show "lets_in aid (Arrive t q epoch) s' \<le> (if fst (limiter_step rl (d_now s)) then 1 else 0)"
          using lets step True by simp
      qed
    next
      case False
      have "hm_get (st_rate_limiters st1) aid = hm_get (st_rate_limiters (d_app s)) aid"
        using rate False by (auto simp: check_rate_limit_def hmap_simps split: prod.splits option.splits)
      with False b lim lets assms(2) show ?thesis by (intro other) (auto simp: limiter_of_def)
    qed
  qed
qed

text \<open>A limiter moves on as \<open>limiter_step\<close> says; its limits stay.\<close>

definition limiter_moves :: "rate_limit_state \<Rightarrow> rate_limit_state \<Rightarrow> nat \<Rightarrow> bool" where
  "limiter_moves rl rl' n \<longleftrightarrow>
     rl_max_per_window rl' = rl_max_per_window rl \<and> rl_window_secs rl' = rl_window_secs rl \<and>
     unat (rl_count rl') \<le> unat (rl_count rl) + n"

lemma limiter_moves_refl: "limiter_moves rl rl n"
  by (simp add: limiter_moves_def)

lemma limiter_moves_trans: "limiter_moves a b m \<Longrightarrow> limiter_moves b c n \<Longrightarrow> limiter_moves a c (m + n)"
  by (simp add: limiter_moves_def)

lemma unat_Suc_le: "unat (c + 1 :: u64) \<le> unat c + 1"
  by (simp add: unat_word_ariths)

lemma limiter_step_moves: "limiter_moves rl (snd (limiter_step rl t)) 1"
  using unat_Suc_le [of "rl_count rl"] by (simp add: limiter_moves_def limiter_step_def Let_def)

lemma limiter_exec:
  assumes "d_exec W F e s = Some s'" and "limiter_of s aid = Some rl"
  obtains rl' where "limiter_of s' aid = Some rl'" "limiter_moves rl rl' 1"
    "length (asks W aid e s) \<le> 1" "set (asks W aid e s) \<subseteq> {d_now s}"
    "\<And>ts. lets_in aid e s' + accepted (limiter_run rl' ts) \<le> accepted (limiter_run rl (asks W aid e s @ ts))"
proof (cases "\<exists>t q epoch. e = Arrive t q epoch")
  case False
  with limiter_untouched [OF assms(1)] assms(2) show ?thesis
    by (intro that [of rl]) (cases e; simp add: limiter_moves_refl)+
next
  case True
  then obtain t q epoch where e: "e = Arrive t q epoch" by blast
  from assms(1) have exec: "d_exec W F (Arrive t q epoch) s = Some s'" by (simp only: e)
  from exec assms(2) show ?thesis
  proof (cases rule: limiter_arrive)
    case other
    from other [folded e] show ?thesis by (intro that [of rl]) (simp_all add: limiter_moves_refl)
  next
    case asked
    from asked [folded e] show ?thesis
      by (intro that [of "snd (limiter_step rl (d_now s))"])
        (auto simp: limiter_step_moves [simplified] accepted_def split: prod.splits if_splits)
  qed
qed

section \<open>Runs\<close>

lemma limiter_over_run:
  assumes "d_run W F es s = Some s'" and "limiter_of s aid = Some rl"
  shows "d_now s \<le> d_now s' \<and> length (asked W F aid es s) \<le> length es \<and>
     (\<forall>t \<in> set (asked W F aid es s). d_now s \<le> t \<and> t \<le> d_now s') \<and>
     (\<exists>rl'. limiter_of s' aid = Some rl' \<and> limiter_moves rl rl' (length es)) \<and>
     let_in W F aid es s \<le> accepted (limiter_run rl (asked W F aid es s))"
  using assms
proof (induction es arbitrary: s rl)
  case (Cons e es)
  from Cons.prems(1) obtain s1 where s1: "d_exec W F e s = Some s1" "d_run W F es s1 = Some s'"
    by (auto split: option.splits)
  from limiter_exec [OF s1(1) Cons.prems(2)] obtain rl1 where one: "limiter_of s1 aid = Some rl1"
    "limiter_moves rl rl1 1" "length (asks W aid e s) \<le> 1" "set (asks W aid e s) \<subseteq> {d_now s}"
    "\<And>ts. lets_in aid e s1 + accepted (limiter_run rl1 ts) \<le> accepted (limiter_run rl (asks W aid e s @ ts))" by blast
  note ih = Cons.IH [OF s1(2) one(1)]
  note t = time_passes [OF s1(1)]
  from ih one(2) have "\<exists>rl'. limiter_of s' aid = Some rl' \<and> limiter_moves rl rl' (length (e # es))"
    using limiter_moves_trans [of rl rl1 1] by fastforce
  moreover have "let_in W F aid (e # es) s \<le> accepted (limiter_run rl (asked W F aid (e # es) s))"
    using one(5) [of "asked W F aid es s1"] ih s1(1) by simp
  moreover have "\<forall>u \<in> set (asked W F aid (e # es) s). d_now s \<le> u \<and> u \<le> d_now s'"
    using ih one(4) s1(1) t by fastforce
  ultimately show ?case using ih one(3) s1(1) t by simp
qed (simp add: limiter_moves_refl)

lemma boot_limiter:
  assumes "start_daemon E s0 = Some (s1, Inr (addr, st0))" and "hm_get (cf_agents (st_config st0)) aid = Some ac"
  shows "limiter_of (d_boot st0) aid = Some (new_limiter (st_start_time st0) ac)"
    and "0 < ac_rate_limit_per_window ac"
proof -
  from assms(1) obtain asess session now where st0: "st0 = app_state_new (st_config st0) asess session now s1"
    and wf: "wf_config (tr_unicode (se_toml E)) (st_config st0)" by (rule started)
  let ?agents = "cf_agents (st_config st0)"
  from wf have agents: "wf_agents (tr_unicode (se_toml E)) ?agents" by (simp add: wf_config_def)
  have now: "st_start_time st0 = now" by (subst st0) (simp add: app_state_new_def Let_def)
  have lim: "st_rate_limiters st0 = hm_collect (map (\<lambda>(aid, ac). (aid, new_limiter now ac)) ?agents)"
    by (subst st0) (simp add: app_state_new_def Let_def)
  have "hm_wf (map (\<lambda>(aid, ac). (aid, new_limiter now ac)) ?agents)"
    using agents by (simp add: wf_agents_def hm_wf_def comp_def case_prod_beta)
  with assms(2) show "limiter_of (d_boot st0) aid = Some (new_limiter (st_start_time st0) ac)"
    by (simp add: limiter_of_def lim now hm_get_collect hm_get_map_values)
  from agents assms(2) show "0 < ac_rate_limit_per_window ac" by (auto simp: wf_agents_def wf_agent_def)
qed


section \<open>Properties\<close>

text \<open>C34: rate limits over the daemon's life. Whatever the interleaving, in any stretch of time shorter than
  an agent's window at most twice the agent's limit of its calls get past the guards; the other
  agents' calls do not count.\<close>

theorem concurrent_rate_limit:
  assumes "start_daemon E s0 = Some (s1, Inr (addr, st0))" and "hm_get (cf_agents (st_config st0)) aid = Some ac"
    and "d_run W F es (d_boot st0) = Some s" and "d_run W F es' s = Some s'"
    and "d_now s' < d_now s + unat (ac_rate_limit_window_secs ac) * nanos_per_sec"
    and "length es + length es' + 1 < 2 ^ 64"
  shows "let_in W F aid es' s \<le> 2 * unat (ac_rate_limit_per_window ac)"
proof -
  note boot = boot_limiter [OF assms(1,2)]
  from limiter_over_run [OF assms(3) boot(1)] obtain rl where rl: "limiter_of s aid = Some rl"
    "limiter_moves (new_limiter (st_start_time st0) ac) rl (length es)" by blast
  then have limits: "rl_max_per_window rl = ac_rate_limit_per_window ac"
    "rl_window_secs rl = ac_rate_limit_window_secs ac" "unat (rl_count rl) \<le> length es"
    by (simp_all add: limiter_moves_def new_limiter_def)
  note run = limiter_over_run [OF assms(4) rl(1)]
  let ?ts = "asked W F aid es' s"
  have stretch: "\<forall>t \<in> set ?ts. d_now s \<le> t \<and> t < d_now s + unat (rl_window_secs rl) * nanos_per_sec"
    using run assms(5) limits(2) by fastforce
  have "unat (rl_count rl) + length ?ts < 2 ^ 64" "1 + length ?ts < 2 ^ 64"
    using run limits(3) assms(6) by linarith+
  from accepted_stretch [OF stretch this] boot(2) limits(1)
  have "accepted (limiter_run rl ?ts) \<le> 2 * unat (ac_rate_limit_per_window ac)" by simp
  with run show ?thesis by linarith
qed


text \<open>Both calls of the race get past the guards, within one second.\<close>

theorem concurrent_rate_limit_witness:
  "\<exists>st0 s ac. sample_daemon sample_race = Some (st0, s) \<and> hm_get (cf_agents (st_config st0)) ''default'' = Some ac \<and>
     let_in sample_world sample_fallbacks ''default'' sample_race (d_boot st0) = 2 \<and>
     2 \<le> 2 * unat (ac_rate_limit_per_window ac)"
proof -
  have "case sample_daemon sample_race of
      Some (st0, s) \<Rightarrow> let_in sample_world sample_fallbacks ''default'' sample_race (d_boot st0) = 2 \<and>
        (case hm_get (cf_agents (st_config st0)) ''default'' of
           Some ac \<Rightarrow> d_now s < d_now (d_boot st0) + unat (ac_rate_limit_window_secs ac) * nanos_per_sec
         | None \<Rightarrow> False)
    | None \<Rightarrow> False" by code_simp
  then obtain st0 s ac where run: "sample_daemon sample_race = Some (st0, s)"
    and facts: "let_in sample_world sample_fallbacks ''default'' sample_race (d_boot st0) = 2"
      "hm_get (cf_agents (st_config st0)) ''default'' = Some ac"
      "d_now s < d_now (d_boot st0) + unat (ac_rate_limit_window_secs ac) * nanos_per_sec"
    by (cases "sample_daemon sample_race") (auto split: option.splits)
  obtain s1 addr where start: "start_daemon sample_env (fs_of_list sample_boot_nodes) = Some (s1, Inr (addr, st0))"
    "d_run sample_world sample_fallbacks sample_race (d_boot st0) = Some s" by (rule sample_daemonE [OF run])
  have "d_run sample_world sample_fallbacks [] (d_boot st0) = Some (d_boot st0)" by simp
  from concurrent_rate_limit [OF start(1) facts(2) this start(2) facts(3)] facts(1)
  have "2 \<le> 2 * unat (ac_rate_limit_per_window ac)" by (simp add: sample_race_def del: let_in.simps)
  with run facts show ?thesis by blast
qed

end
