(* ===== verification/Daemon_Provenance.thy ===== *)
theory Daemon_Provenance
  imports Daemon_Interleaved
begin

text \<open>
  Whose capacity is spent, under every interleaving (\<open>Daemon_Concurrent\<close>): what a slot carries goes
  back to a request that arrived and passed the guards, so every reservation does.
\<close>

section \<open>Where a call came from\<close>

text \<open>A request names an agent, is signed if the agent has a secret, and carries key and body.\<close>

definition vouched :: "world \<Rightarrow> ama_config \<Rightarrow> http_req \<Rightarrow> u64 \<Rightarrow> call \<Rightarrow> bool" where
  "vouched W cfg q epoch c \<longleftrightarrow>
     (hq_agent_id q = Some (Some (ca_agent c)) \<or> hq_agent_id q = None \<and> cf_default_agent_id cfg = Some (ca_agent c)) \<and>
     (\<forall>ac secret. hm_get (cf_agents cfg) (ca_agent c) = Some ac \<longrightarrow> ac_secret ac = Some secret \<longrightarrow>
        verify_identity (ho_crypto (w_host W)) secret (ca_agent c) (header_text (hq_timestamp q))
          (header_text (hq_signature q)) (hq_body q) epoch = Inr ()) \<and>
     idempotency_key W q = Inr (ca_key c) \<and> ca_body c = hq_body q"

definition came :: "world \<Rightarrow> ama_config \<Rightarrow> d_event list \<Rightarrow> call set" where
  "came W cfg es = {c. \<exists>t q epoch. Arrive t q epoch \<in> set es \<and> vouched W cfg q epoch c}"

definition task_from :: "world \<Rightarrow> call set \<Rightarrow> task \<Rightarrow> bool" where
  "task_from W C tk \<longleftrightarrow>
     (\<exists>c \<in> C. ca_agent c = tk_agent tk \<and> ca_key c = tk_key tk \<and> w_parse_request W (ca_body c) = Inr (tk_request tk))"

fun phase_from :: "world \<Rightarrow> call set \<Rightarrow> phase \<Rightarrow> bool" where
  "phase_from W C Free \<longleftrightarrow> True"
| "phase_from W C (Keyed c) \<longleftrightarrow> c \<in> C"
| "phase_from W C (Sweeping c t1) \<longleftrightarrow> c \<in> C"
| "phase_from W C (Measured c full) \<longleftrightarrow> c \<in> C"
| "phase_from W C (Refused c) \<longleftrightarrow> c \<in> C"
| "phase_from W C (Owns c g) \<longleftrightarrow> c \<in> C"
| "phase_from W C (Prepared tk act md) \<longleftrightarrow> task_from W C tk \<and> md_magnitude md = rq_magnitude (tk_request tk)"
| "phase_from W C (Granted tk act md) \<longleftrightarrow> task_from W C tk"
| "phase_from W C (Waiting tk md p effs r) \<longleftrightarrow> task_from W C tk"
| "phase_from W C (Ended tk r) \<longleftrightarrow> task_from W C tk"
| "phase_from W C (Recorded tk r) \<longleftrightarrow> task_from W C tk"

definition spent_from :: "world \<Rightarrow> call set \<Rightarrow> (uuid \<times> instant) \<times> string \<times> u64 \<Rightarrow> bool" where
  "spent_from W C = (\<lambda>((key, g), aid, m).
     \<exists>c \<in> C. \<exists>rq. ca_agent c = aid \<and> ca_key c = key \<and> w_parse_request W (ca_body c) = Inr rq \<and>
       rq_magnitude rq = m \<and> \<not> rq_dry_run rq)"

definition provenance :: "world \<Rightarrow> ama_config \<Rightarrow> call set \<Rightarrow> d_state \<Rightarrow> bool" where
  "provenance W cfg C s \<longleftrightarrow>
     st_config (d_app s) = cfg \<and> (\<forall>t. phase_from W C (d_phase s t)) \<and> (\<forall>x \<in> set (d_spent s). spent_from W C x)"

lemma task_from_mono: "C \<subseteq> D \<Longrightarrow> task_from W C tk \<Longrightarrow> task_from W D tk"
  unfolding task_from_def by blast

lemma phase_from_mono: "C \<subseteq> D \<Longrightarrow> phase_from W C p \<Longrightarrow> phase_from W D p"
  by (cases p) (auto intro: task_from_mono)

lemma spent_from_mono: "C \<subseteq> D \<Longrightarrow> spent_from W C x \<Longrightarrow> spent_from W D x"
  unfolding spent_from_def by fastforce

lemma came_simps: "came W cfg [] = {}" "came W cfg (es @ fs) = came W cfg es \<union> came W cfg fs"
  by (auto simp: came_def)

section \<open>One step\<close>

lemma arrive_vouched:
  assumes "d_exec W F (Arrive t q epoch) s = Some s'" and "d_phase s' t \<noteq> Free"
  obtains c where "d_phase s' t = Keyed c" "vouched W (st_config (d_app s)) q epoch c"
proof -
  from assms(1) have free: "d_phase s t = Free" and s': "s' = arrive W t q epoch s"
    by (auto split: phase.splits if_splits)
  obtain st r where adm: "admission W (d_app s) q epoch (d_now s) = (st, r)" by fastforce
  with assms(2) free s' obtain c where c: "r = Inr c" "d_phase s' t = Keyed c"
    by (cases r) (auto simp: arrive_def)
  from adm c(1) have r: "resolve_agent_id (d_app s) q = Inr (ca_agent c)"
    and i: "check_identity W (d_app s) (ca_agent c) q epoch = Inr ()"
    and k: "idempotency_key W q = Inr (ca_key c)" "ca_body c = hq_body q"
    by (auto simp: admission_def Let_def split: sum.splits prod.splits if_splits)
  from r have "hq_agent_id q = Some (Some (ca_agent c)) \<or>
      hq_agent_id q = None \<and> cf_default_agent_id (st_config (d_app s)) = Some (ca_agent c)"
    by (auto simp: resolve_agent_id_def result_simps ok_or_def split: option.splits if_splits)
  with i k have "vouched W (st_config (d_app s)) q epoch c"
    by (auto simp: vouched_def check_identity_def)
  with c(2) that show ?thesis by blast
qed

lemma config_kept:
  assumes "d_exec W F e s = Some s'"
  shows "st_config (d_app s') = st_config (d_app s)"
  using assms
proof (cases rule: d_exec_shape)
  case (claimed t d c full)
  then show ?thesis by (cases rule: claim_cases [of W t c full d s]) (auto simp: unchanged_def)
next
  case (acting t sp N late tk act md)
  then show ?thesis by (auto simp: act_step_def Let_def split: prod.splits)
qed (auto simp: unchanged_def)

text \<open>What a slot's own step makes of its call, other than letting one in.\<close>

lemma phase_from_own:
  assumes "d_exec W F e s = Some s'" and "event_slot e = Some t" and "\<forall>q epoch. e \<noteq> Arrive t q epoch"
    and "phase_from W C (d_phase s t)"
  shows "phase_from W C (d_phase s' t)"
proof (cases e)
  case (Claim u d)
  with assms obtain c full where ph: "d_phase s t = Measured c full" and s': "s' = claim W t c full d s"
    by (auto split: phase.splits)
  show ?thesis
    using assms(4) ph s' by (cases rule: claim_cases [of W t c full d s]) auto
next
  case (Admit u a)
  with assms obtain c g where ph: "d_phase s t = Owns c g" and s': "s' = admit_call W t c g a s"
    by (auto split: phase.splits)
  show ?thesis
    using assms(4) ph unfolding s'
    by (auto simp: admit_call_def Let_def task_from_def prepare_magnitude split: sum.splits option.splits prod.splits)
next
  case (Reserve u secs ms)
  with assms obtain tk act md a where ph: "d_phase s t = Prepared tk act md"
    and s': "s' = reserve_step W t tk act md secs ms a s" by (auto split: phase.splits)
  show ?thesis
    using assms(4) ph s' by (cases rule: reserve_step_cases [of tk a md W t act secs ms s]) auto
qed (use assms in \<open>auto simp: unclaim_def act_step_def settle_step_def prove_step_def Let_def
       split: phase.splits list.splits prod.splits if_splits\<close>)

lemma provenance_step:
  assumes "provenance W cfg C s" and "d_exec W F e s = Some s'"
  shows "provenance W cfg (C \<union> came W cfg [e]) s'"
proof -
  let ?D = "C \<union> came W cfg [e]"
  from assms(1) have cfg: "st_config (d_app s) = cfg" and ph: "\<And>t. phase_from W C (d_phase s t)"
    and sp: "\<And>x. x \<in> set (d_spent s) \<Longrightarrow> spent_from W C x" by (auto simp: provenance_def)
  have "phase_from W ?D (d_phase s' t)" for t
  proof (cases "event_slot e = Some t")
    case False
    with d_exec_other [OF assms(2) this] phase_from_mono [OF _ ph [of t]] show ?thesis by simp
  next
    case own: True
    show ?thesis
    proof (cases "\<exists>q epoch. e = Arrive t q epoch")
      case False
      with phase_from_own [OF assms(2) own _ ph] phase_from_mono [of C ?D W "d_phase s' t"] show ?thesis by blast
    next
      case True
      then obtain q epoch where e: "e = Arrive t q epoch" by blast
      show ?thesis
      proof (cases "d_phase s' t = Free")
        case False
        from arrive_vouched [OF assms(2) [unfolded e] False] obtain c
          where "d_phase s' t = Keyed c" "vouched W cfg q epoch c" unfolding cfg by blast
        then show ?thesis unfolding e by (auto simp: came_def)
      qed simp
    qed
  qed
  moreover have "spent_from W ?D x" if x: "x \<in> set (d_spent s')" for x
    using assms(2)
  proof (cases rule: d_exec_shape)
    case (claimed t d c full)
    with x sp have "spent_from W C x" by (cases rule: claim_cases [of W t c full d s]) (auto simp: unchanged_def)
    then show ?thesis by (rule spent_from_mono [rotated]) blast
  next
    case (granted t secs ms tk act md a)
    from ph [of t] granted(2) have "task_from W C tk" "md_magnitude md = rq_magnitude (tk_request tk)" by simp_all
    with granted(4) have "spent_from W C ((tk_key tk, tk_since tk), tk_agent tk, md_magnitude md)"
      by (auto simp: spent_from_def task_from_def)
    with x sp [of x] granted(6) have "spent_from W C x" by (cases "x \<in> set (d_spent s)") auto
    then show ?thesis by (rule spent_from_mono [rotated]) blast
  next
    case (acting t sp' N late tk act md)
    with x sp have "spent_from W C x" by (auto simp: act_step_def Let_def split: prod.splits)
    then show ?thesis by (rule spent_from_mono [rotated]) blast
  next
    case (emitting t tk md p ef effs r)
    with x sp have "spent_from W C x" by auto
    then show ?thesis by (rule spent_from_mono [rotated]) blast
  next
    case (quiet t p)
    with x sp have "spent_from W C x" by (auto simp: unchanged_def)
    then show ?thesis by (rule spent_from_mono [rotated]) blast
  qed
  ultimately show ?thesis using config_kept [OF assms(2)] cfg by (simp add: provenance_def)
qed

lemma provenance_run:
  "d_run W F es s0 = Some s \<Longrightarrow> s0 = d_boot st \<Longrightarrow> provenance W (st_config st) (came W (st_config st) es) s"
proof (induction rule: d_run_induct)
  case start
  then show ?case by (simp add: provenance_def)
next
  case (step es e s1 s2)
  from provenance_step [OF step.IH [OF step.prems] step.hyps(2)] show ?case by (simp add: came_simps)
qed

section \<open>Properties\<close>

text \<open>C7: whose magnitude is spent. Under every interleaving each reservation on record belongs to a
  request that arrived: it names the agent or leaves it to the default, carries the key the
  reservation is under, asks for the magnitude reserved and is no dry run; and if the agent has a
  secret, it carried a timestamp within 300 seconds of the server's clock and the signature, under
  that secret, of the agent's name, the timestamp and its body.\<close>

theorem concurrent_provenance:
  assumes "start_daemon E s0 = Some (s1, Inr (addr, st0))" and "d_run W F es (d_boot st0) = Some s"
    and "((key, g), aid, m) \<in> set (d_spent s)"
  shows "\<exists>t q epoch rq. Arrive t q epoch \<in> set es \<and>
     (hq_agent_id q = Some (Some aid) \<or> hq_agent_id q = None \<and> cf_default_agent_id (st_config st0) = Some aid) \<and>
     idempotency_key W q = Inr key \<and> w_parse_request W (hq_body q) = Inr rq \<and> rq_magnitude rq = m \<and>
     \<not> rq_dry_run rq \<and>
     (case Option.bind (hm_get (cf_agents (st_config st0)) aid) ac_secret of
        None \<Rightarrow> True
      | Some secret \<Rightarrow>
          (\<exists>ts sig w. hq_timestamp q = Some (Some ts) \<and> hq_signature q = Some (Some sig) \<and> parse_u64 ts = Some w \<and>
             unat epoch \<le> unat w + 300 \<and> unat w \<le> unat epoch + 300 \<and>
             hex_decode (ho_crypto (w_host W)) sig = Some (hmac_sha256 (ho_crypto (w_host W)) secret
               (build_signing_message aid ts (body_hash (ho_crypto (w_host W)) (hq_body q))))))"
proof -
  from provenance_run [OF assms(2) refl] assms(3)
  have "spent_from W (came W (st_config st0) es) ((key, g), aid, m)" by (simp add: provenance_def)
  then obtain c rq t q epoch where c: "ca_agent c = aid" "ca_key c = key" "w_parse_request W (ca_body c) = Inr rq"
    "rq_magnitude rq = m" "\<not> rq_dry_run rq" and q: "Arrive t q epoch \<in> set es" "vouched W (st_config st0) q epoch c"
    by (auto simp: spent_from_def came_def)
  show ?thesis
  proof (intro exI conjI)
    show "Arrive t q epoch \<in> set es" by (rule q(1))
    show "case Option.bind (hm_get (cf_agents (st_config st0)) aid) ac_secret of
        None \<Rightarrow> True
      | Some secret \<Rightarrow>
          (\<exists>ts sig w. hq_timestamp q = Some (Some ts) \<and> hq_signature q = Some (Some sig) \<and> parse_u64 ts = Some w \<and>
             unat epoch \<le> unat w + 300 \<and> unat w \<le> unat epoch + 300 \<and>
             hex_decode (ho_crypto (w_host W)) sig = Some (hmac_sha256 (ho_crypto (w_host W)) secret
               (build_signing_message aid ts (body_hash (ho_crypto (w_host W)) (hq_body q)))))"
      using q(2) c(1)
      by (auto simp: vouched_def verify_identity_ok_iff header_text_def split: option.splits Option.bind_splits)
  qed (use q(2) c in \<open>auto simp: vouched_def\<close>)
qed


text \<open>The reservation of the race belongs to a request of the race.\<close>

theorem concurrent_provenance_witness:
  "\<exists>st0 s t q epoch rq. sample_daemon sample_race = Some (st0, s) \<and> d_spent s = [((7, 2), ''default'', 3)] \<and>
     Arrive t q epoch \<in> set sample_race \<and> idempotency_key sample_world q = Inr 7 \<and>
     w_parse_request sample_world (hq_body q) = Inr rq \<and> rq_magnitude rq = 3"
proof (rule sample_race_run)
  fix st0 s s1 addr
  assume run: "sample_daemon sample_race = Some (st0, s)"
    "start_daemon sample_env (fs_of_list sample_boot_nodes) = Some (s1, Inr (addr, st0))"
    "d_run sample_world sample_fallbacks sample_race (d_boot st0) = Some s" "d_spent s = [((7, 2), ''default'', 3)]"
  then have "((7, 2), ''default'', 3) \<in> set (d_spent s)" by simp
  from concurrent_provenance [OF run(2,3) this] run(1,4) show ?thesis by blast
qed

end
