(* ===== verification/File_Safety.thy ===== *)
theory File_Safety
  imports File_Confinement
begin

text \<open>
  What the file actuator guarantees: writes stay below the agent's root, a crash leaves the old
  or the new contents, a read returns a prefix of a file below the root, and what was written is
  read back. Each holds on every tree whose \<open>stat\<close> calls do not fail.
\<close>

section \<open>Concrete trees\<close>

lemma fs_ok_of_list:
  assumes "list_all (\<lambda>(l, nd). node_ok (map_of (([], Directory 493) # nodes)) l nd) nodes"
  shows "sound_fs (fs_of_list nodes)"
proof -
  let ?N = "map_of (([], Directory 493) # nodes)"
  have "node_ok ?N l nd" if "?N l = Some nd" for l nd
  proof -
    from that consider "l = []" "nd = Directory 493" | "(l, nd) \<in> set nodes"
      by (auto split: if_splits dest: map_of_SomeD)
    then show ?thesis
    proof cases
      case 1
      then show ?thesis by (simp add: node_ok_def)
    next
      case 2
      with assms show ?thesis by (auto simp: list_all_iff)
    qed
  qed
  then show ?thesis by (simp add: sound_fs_def fs_ok_def fs_of_list_def is_dir_at_def)
qed

lemma fresh_action_of_list:
  assumes "list_all (\<lambda>(l, nd). \<not> node_is_symlink nd) nodes" and "CHR ''/'' \<notin> set aid"
  shows "fresh_action (fs_of_list nodes) aid"
  using assms
  by (auto simp: fresh_action_def fs_of_list_def is_link_at_def list_all_iff node_is_symlink_def
      split: option.splits fs_node.splits if_splits dest!: map_of_SomeD)

text \<open>A workspace with one agent's directory, a link out of it, and a path in it.\<close>

definition alice_nodes :: "(location \<times> fs_node) list" where
  "alice_nodes =
     [([''etc''], Directory 493), ([''ws''], Directory 493), ([''ws'', ''alice''], Directory 493),
      ([''ws'', ''alice'', ''old.txt''], RegFile ''old text'' 420)]"

definition alice_path :: workspace_path where
  "alice_path = \<lparr>wp_canonical = ''/ws/alice/a.txt'', wp_relative = ''a.txt''\<rparr>"

lemma alice_facts:
  "sound_fs (fs_of_list alice_nodes)" "literal_path (effective_root ''/ws'' (Some ''alice''))"
  "new_with_agent (fs_of_list alice_nodes) ''a.txt'' ''/ws'' (Some ''alice'') = Inr alice_path"
  "fresh_action (fs_of_list alice_nodes) ''id1''"
  "is_dir_at (fs_nodes (fs_of_list alice_nodes)) (root_loc (fs_of_list alice_nodes) ''/ws'' (Some ''alice''))"
proof -
  show "sound_fs (fs_of_list alice_nodes)" by (rule fs_ok_of_list) code_simp
  show "fresh_action (fs_of_list alice_nodes) ''id1''" by (rule fresh_action_of_list) code_simp+
qed code_simp+

section \<open>Writes below the root\<close>

lemma strict_prefix_comparable:
  "strict_prefix l L \<Longrightarrow> prefix R L \<Longrightarrow> strict_prefix R l \<or> prefix l R"
  by (metis prefix_order.le_less prefix_same_cases strict_prefix_def)

lemma tmp_loc_below:
  assumes "strict_prefix R (path_loc p)"
  shows "strict_prefix R (tmp_loc p aid)"
proof -
  from assms obtain k x where "path_loc p = R @ k @ [x]"
    by (metis append_self_conv prefixE rev_exhaust strict_prefix_def)
  then show ?thesis by (simp add: tmp_loc_def butlast_append strict_prefix_def)
qed

lemma existing_target_ends_in_name:
  assumes "sound_fs s" and "literal_path p" and "ends_in_name s p" and "fs_nodes s (path_loc p) \<noteq> None"
  shows "path_loc p = [] \<or> last (path_segs p) = last (path_loc p)"
  using assms parent_of_entry_exists [OF assms(1,2) _ assms(4)] parent_literal(1) [OF assms(2)]
  by (auto simp: ends_in_name_def split: option.splits)

lemma directory_target_rejected:
  assumes sound: "sound_fs s" and p: "literal_path p" and last: "ends_in_name s p"
    and d: "is_dir_at (fs_nodes s) (path_loc p)"
  shows "write_checks s p \<noteq> Inr u"
proof -
  from sound have ok: "fs_ok (fs_nodes s)" and stat: "\<forall>p. fs_fault s OpStat p = None"
    by (auto simp: sound_fs_def)
  from d obtain m where m: "fs_nodes s (path_loc p) = Some (Directory m)" by (blast dest: is_dir_at_Some)
  then have ex: "fs_nodes s (path_loc p) \<noteq> None" by simp
  note found = lookup_Found [OF ok p ex is_dir_not_link [OF d] existing_target_ends_in_name [OF sound p last ex]]
  then have "fs_exists s p" using stat by (simp add: fs_exists_def)
  moreover have "fs_lstat s p = Inr n \<Longrightarrow> \<not> node_is_file n" for n
    using found m by (auto simp: fs_lstat_def ok_or_def node_is_file_def split: option.splits)
  ultimately show ?thesis by (auto simp: write_checks_def result_simps)
qed

lemma file_write_below_root:
  assumes sound: "sound_fs s" and root: "literal_path (effective_root ws agent)"
    and wp: "new_with_agent s rel ws agent = Inr w" and fresh: "fresh_action s aid"
    and wrote: "file_write s w c aid = (s', r)" and changed: "fs_nodes s' l \<noteq> fs_nodes s l"
  shows "strict_prefix (root_loc s ws agent) l \<or>
     (prefix l (root_loc s ws agent) \<and> fs_nodes s l = None) \<or>
     (path_loc (wp_canonical w) = root_loc s ws agent \<and> \<not> is_dir_at (fs_nodes s) (root_loc s ws agent) \<and>
        l \<in> {root_loc s ws agent, tmp_loc (wp_canonical w) aid})"
proof -
  let ?R = "root_loc s ws agent" and ?L = "path_loc (wp_canonical w)" and ?T = "tmp_loc (wp_canonical w) aid"
  note W = workspace_path_sound [OF sound root wp]
  note F = spec [OF conjunct1 [OF conjunct2 [OF conjunct2 [OF file_write_at [OF sound W(1,2) fresh wrote]]]], of l]
  have not_dir: "\<not> is_dir_at (fs_nodes s) ?R" if "?L = ?R"
  proof
    assume "is_dir_at (fs_nodes s) ?R"
    then have "write_checks s (wp_canonical w) \<noteq> Inr ()"
      using directory_target_rejected [OF sound W(1,2)] that by simp
    with wrote have "s' = s" by (cases "write_checks s (wp_canonical w)") (auto simp: file_write_def)
    with changed show False by simp
  qed
  show ?thesis
  proof (cases "?L = ?R")
    case True
    from F changed consider "l = ?L" | "l = ?T" | "strict_prefix l ?L" "fs_nodes s l = None" by metis
    then show ?thesis
    proof cases
      case 3
      with True show ?thesis by (simp add: strict_prefix_def)
    qed (use True not_dir [OF True] in simp_all)
  next
    case False
    with W(3) have below: "strict_prefix ?R ?L" by (simp add: strict_prefix_def)
    from F changed consider "l = ?L" | "l = ?T" | "strict_prefix l ?L" "fs_nodes s l = None" by metis
    then show ?thesis
    proof cases
      case 3
      with strict_prefix_comparable [OF 3(1) W(3)] show ?thesis by blast
    qed (use below tmp_loc_below [OF below] in auto)
  qed
qed

text \<open>C4: a write stays below the agent's root. Whatever the target, the links in the tree and the
  failures of the other calls, every location whose entry differs afterwards lies strictly below
  the root, or was missing and lies on the way to the root; the temporary file included. The root
  must be a directory, or at least not be the target itself.\<close>

theorem file_write_confined:
  assumes "sound_fs s" and "literal_path (effective_root ws agent)"
    and "new_with_agent s rel ws agent = Inr w" and "fresh_action s aid"
    and "is_dir_at (fs_nodes s) (root_loc s ws agent) \<or> path_loc (wp_canonical w) \<noteq> root_loc s ws agent"
    and "file_write s w c aid = (s', r)" and "fs_nodes s' l \<noteq> fs_nodes s l"
  shows "strict_prefix (root_loc s ws agent) l \<or> (prefix l (root_loc s ws agent) \<and> fs_nodes s l = None)"
  using file_write_below_root [OF assms(1-4,6,7)] assms(5) by blast

text \<open>Alice writes a new file.\<close>

theorem file_write_confined_witness:
  "fs_nodes (fst (file_write (fs_of_list alice_nodes) alice_path (BoundedBytes ''hi'') ''id1''))
       [''ws'', ''alice'', ''a.txt''] = Some (RegFile ''hi'' 420) \<and>
   (strict_prefix (root_loc (fs_of_list alice_nodes) ''/ws'' (Some ''alice'')) [''ws'', ''alice'', ''a.txt''] \<or>
    prefix [''ws'', ''alice'', ''a.txt''] (root_loc (fs_of_list alice_nodes) ''/ws'' (Some ''alice'')))"
proof -
  let ?s = "fs_of_list alice_nodes" and ?l = "[''ws'', ''alice'', ''a.txt'']"
  obtain s' r where fw: "file_write ?s alice_path (BoundedBytes ''hi'') ''id1'' = (s', r)" by fastforce
  have new: "fs_nodes (fst (file_write ?s alice_path (BoundedBytes ''hi'') ''id1'')) ?l = Some (RegFile ''hi'' 420)"
    by code_simp
  moreover have "fs_nodes ?s ?l = None" by code_simp
  ultimately have "fs_nodes s' ?l \<noteq> fs_nodes ?s ?l" by (simp add: fw)
  from file_write_confined [OF alice_facts(1-4) disjI1 [OF alice_facts(5)] fw this] new show ?thesis by blast
qed

text \<open>C27: what a workspace path is. Every path the constructor returns is absolute and without dot dot,
  spells a location at or below the agent's root, and comes from a relative path without dot dot,
  colon or leading separator, which it records.\<close>

theorem workspace_path_typed:
  assumes "sound_fs s" and "literal_path (effective_root ws agent)" and "new_with_agent s rel ws agent = Inr w"
  shows "literal_path (wp_canonical w) \<and> prefix (root_loc s ws agent) (path_loc (wp_canonical w)) \<and>
     wp_relative w = rel \<and> rel \<noteq> [] \<and> \<not> is_absolute rel \<and> CHR '':'' \<notin> set rel \<and> hd rel \<noteq> CHR 0x5C \<and>
     ''..'' \<notin> set (path_segs rel)"
  using workspace_path_sound [OF assms] assms(3) check_relative_lexical [of rel]
  by (auto simp: new_with_agent_Inr_iff check_relative_Inr_iff)

text \<open>A path through a link inside the workspace is resolved; one through a link out of it is refused.\<close>

theorem workspace_path_typed_witness:
  "let s = fs_of_list [([''ws''], Directory 493), ([''ws'', ''a''], Directory 493),
              ([''ws'', ''a'', ''docs''], Directory 493), ([''ws'', ''a'', ''in''], Symlink ''docs''),
              ([''ws'', ''a'', ''up''], Symlink ''../..'')]
   in new_with_agent s ''in/f'' ''/ws'' (Some ''a'') =
        Inr \<lparr>wp_canonical = ''/ws/a/docs/f'', wp_relative = ''in/f''\<rparr> \<and>
      prefix (root_loc s ''/ws'' (Some ''a'')) (path_loc ''/ws/a/docs/f'') \<and>
      \<not> is_ok (new_with_agent s ''up/etc'' ''/ws'' (Some ''a''))"
proof -
  let ?ns = "[([''ws''], Directory 493), ([''ws'', ''a''], Directory 493),
              ([''ws'', ''a'', ''docs''], Directory 493), ([''ws'', ''a'', ''in''], Symlink ''docs''),
              ([''ws'', ''a'', ''up''], Symlink ''../..'')]"
  let ?w = "\<lparr>wp_canonical = ''/ws/a/docs/f'', wp_relative = ''in/f''\<rparr>"
  have ok: "sound_fs (fs_of_list ?ns)" by (rule fs_ok_of_list) code_simp
  have lit: "literal_path (effective_root ''/ws'' (Some ''a''))" by code_simp
  have w: "new_with_agent (fs_of_list ?ns) ''in/f'' ''/ws'' (Some ''a'') = Inr ?w" by code_simp
  have out: "\<not> is_ok (new_with_agent (fs_of_list ?ns) ''up/etc'' ''/ws'' (Some ''a''))" by code_simp
  from workspace_path_typed [OF ok lit w] have "prefix (root_loc (fs_of_list ?ns) ''/ws'' (Some ''a''))
      (path_loc ''/ws/a/docs/f'')" by simp
  with w out show ?thesis unfolding Let_def by blast
qed

section \<open>Reads\<close>

lemma file_read_below_root:
  assumes sound: "sound_fs s" and p: "literal_path (wp_canonical w)" and rd: "file_read s w n = Inr f"
  shows "\<exists>d m. fs_nodes s (path_loc (wp_canonical w)) = Some (RegFile d m) \<and>
     link_free (fs_nodes s) (path_loc (wp_canonical w)) \<and>
     fr_content f = take n d \<and> fr_bytes_returned f = word_of_nat (min (length d) n) \<and>
     fr_total_bytes f = word_of_nat (length d) \<and> (fr_truncated f \<longleftrightarrow> n < length d)"
proof -
  let ?t = "wp_canonical w"
  from sound have ok: "fs_ok (fs_nodes s)" and stat: "\<forall>p. fs_fault s OpStat p = None" by (auto simp: sound_fs_def)
  from rd have v: "verify_no_symlinks s ?t = Inr ()" and ex: "fs_exists s ?t"
    by (auto simp: file_read_def result_simps Let_def split: if_splits)
  from ex obtain l where l: "fs_lookup s True ?t = Found l" by (auto simp: fs_exists_def split: fs_lookup.splits)
  have free: "link_free (fs_nodes s) (path_loc ?t)"
  proof (unfold link_free_def, intro allI impI notI)
    fix q assume q: "prefix q (path_loc ?t)" "is_link_at (fs_nodes s) q"
    note V = verified_links_dangle [OF ok stat p v q]
    from lookup_dangling [OF p V q(1), of True] l show False by simp
  qed
  have lands: "lands (fs_lookup s f ?t) (path_loc ?t)" for f by (rule lookup_lands [OF p free])
  with l have l': "l = path_loc ?t" by (metis lands_simps(1))
  from rd obtain meta buf x where meta: "fs_lstat s ?t = Inr meta" "node_is_file meta"
    and op: "fs_open_read s ?t = Inr buf" and re: "fs_read_exact s ?t buf (min (node_len meta) n) = Inr x"
    and utf: "from_utf8 x = Inr (fr_content f)"
    and f: "fr_bytes_returned f = word_of_nat (length (fr_content f))" "fr_total_bytes f = word_of_nat (node_len meta)"
      "fr_truncated f \<longleftrightarrow> n < node_len meta"
    by (auto simp: file_read_def result_simps Let_def split: if_splits)
  from meta(1) lands [of False] have "fs_nodes s (path_loc ?t) = Some meta"
    by (auto simp: fs_lstat_def ok_or_def split: option.splits fs_lookup.splits)
  with meta(2) obtain d m where nd: "fs_nodes s (path_loc ?t) = Some (RegFile d m)" and "meta = RegFile d m"
    by (auto simp: node_is_file_def split: fs_node.splits)
  then have len: "node_len meta = length d" by (simp add: node_len_def)
  from op l l' nd have "buf = d" by (auto simp: fs_open_read_def split: option.splits)
  with re len have "x = take n d" by (auto simp: fs_read_exact_def min_def split: option.splits if_splits)
  with utf have content: "fr_content f = take n d" by (auto simp: from_utf8_def split: if_splits)
  show ?thesis
    using nd free f len content by (intro exI [of _ d] exI [of _ m]) simp
qed

text \<open>C25: a read returns what the file holds and nothing from elsewhere. A successful read of at most
  \<open>n\<close> bytes returns the first \<open>n\<close> bytes of a regular file at or below the agent's root, reached
  without following a single link, with the true total, and marked as truncated exactly when the
  file is longer.\<close>

theorem file_read_exact:
  assumes "sound_fs s" and "literal_path (effective_root ws agent)"
    and "new_with_agent s rel ws agent = Inr w" and "file_read s w n = Inr f"
  shows "\<exists>l d m. prefix (root_loc s ws agent) l \<and> link_free (fs_nodes s) l \<and> fs_nodes s l = Some (RegFile d m) \<and>
     fr_content f = take n d \<and> fr_bytes_returned f = word_of_nat (min (length d) n) \<and>
     fr_total_bytes f = word_of_nat (length d) \<and> (fr_truncated f \<longleftrightarrow> n < length d)"
  using workspace_path_sound [OF assms(1-3)] file_read_below_root [OF assms(1) _ assms(4)] by blast

text \<open>Alice reads the first three bytes of an old file.\<close>

theorem file_read_exact_witness:
  "\<exists>l d m. prefix (root_loc (fs_of_list alice_nodes) ''/ws'' (Some ''alice'')) l \<and>
     fs_nodes (fs_of_list alice_nodes) l = Some (RegFile d m) \<and> ''old'' = take 3 d"
proof -
  let ?s = "fs_of_list alice_nodes" and ?w = "\<lparr>wp_canonical = ''/ws/alice/old.txt'', wp_relative = ''old.txt''\<rparr>"
  have w: "new_with_agent ?s ''old.txt'' ''/ws'' (Some ''alice'') = Inr ?w" by code_simp
  have "file_read ?s ?w 3 = Inr \<lparr>fr_content = ''old'', fr_bytes_returned = 3, fr_total_bytes = 8, fr_truncated = True\<rparr>"
    by code_simp
  from file_read_exact [OF alice_facts(1,2) w this] show ?thesis by auto
qed

section \<open>Crashes\<close>

lemma fs_write_states_at:
  assumes "literal_path p" and "link_free (fs_nodes s) (path_loc p)" and "x \<in> set (fs_write_states s p d)"
    and "l \<noteq> path_loc p"
  shows "fs_nodes x l = fs_nodes s l"
  using assms lookup_lands [OF assms(1,2), of True]
  by (auto simp: fs_write_states_def fs_write_loc_def split: sum.splits option.splits fs_lookup.splits fs_node.splits)

lemma write_then_chmod_keeps:
  assumes ok: "fs_ok (fs_nodes s1)" and t: "literal_path tmp" and free: "link_free (fs_nodes s1) (path_loc tmp)"
    and ne: "path_loc tmp \<noteq> L" and x: "x \<in> set (case fs_write s1 tmp d of
      (s2, Inl e) \<Rightarrow> [s2] | (s2, Inr u) \<Rightarrow> [s2, fst (fs_set_permissions s2 tmp mode_644)])"
  shows "fs_nodes x L = fs_nodes s1 L"
proof -
  obtain s2 r2 where w: "fs_write s1 tmp d = (s2, r2)" by (cases "fs_write s1 tmp d")
  note W = fs_write_at [OF ok t free w]
  have "is_link_at (fs_nodes s2) q \<Longrightarrow> is_link_at (fs_nodes s1) q" for q
    using W by (cases "q = path_loc tmp") (auto simp: is_link_at_def)
  then have free2: "link_free (fs_nodes s2) (path_loc tmp)" using free by (rule link_free_mono)
  obtain s3 r3 where c: "fs_set_permissions s2 tmp mode_644 = (s3, r3)"
    by (cases "fs_set_permissions s2 tmp mode_644")
  have keep: "fs_nodes s2 L = fs_nodes s1 L" "fs_nodes s3 L = fs_nodes s2 L"
    using W fs_set_permissions_at [OF _ t free2 c] ne by metis+
  from x w c have "x = s2 \<or> x = s3" by (cases r2) simp_all
  with keep show ?thesis by metis
qed

text \<open>Of the states of a write only the last can differ at the target.\<close>

lemma crash_states_keep:
  assumes sound: "sound_fs s" and t: "t = wp_canonical w" "literal_path t" and last: "settled_target s t"
    and fresh: "fresh_action s aid" and x: "x \<in> set (file_write_states s w c aid)"
  shows "x = fst (file_write s w c aid) \<or> fs_nodes x (path_loc t) = fs_nodes s (path_loc t)"
proof (cases "write_checks s t")
  case (Inl e)
  with x t(1) show ?thesis by (simp add: file_write_states_def Let_def)
next
  case (Inr u)
  then have chk: "write_checks s t = Inr ()" by simp
  let ?L = "path_loc t" and ?tmp = "tmp_path t aid"
  obtain s1 r1 where e: "ensure_parent s t = (s1, r1)" by (cases "ensure_parent s t")
  note E = ensured_site [OF sound t(2) last fresh chk e]
  then have ne: "?L \<noteq> []" by blast
  have s1: "fs_nodes s1 ?L = fs_nodes s ?L"
    using E strict_prefix_butlast [OF ne, of ?L] unfolding grown_def by blast
  show ?thesis
  proof (cases r1)
    case (Inl e1)
    with x chk e s1 t(1) show ?thesis by (auto simp: file_write_states_def Let_def)
  next
    case (Inr v)
    with E have tl: "literal_path ?tmp" "path_loc ?tmp = tmp_loc t aid"
      "link_free (fs_nodes s1) (tmp_loc t aid)" and ok1: "fs_ok (fs_nodes s1)" by (simp_all add: is_ok_def)
    then have ne': "path_loc ?tmp \<noteq> ?L" and free: "link_free (fs_nodes s1) (path_loc ?tmp)"
      using tmp_loc_other by simp_all
    from x chk e Inr t(1) consider "x = s" | "x = s1" | "x = fst (file_write s w c aid)"
      | "x \<in> set (fs_write_states s1 ?tmp (bounded_str c))"
      | "x \<in> set (case fs_write s1 ?tmp (bounded_str c) of
           (s2, Inl e) \<Rightarrow> [s2] | (s2, Inr u) \<Rightarrow> [s2, fst (fs_set_permissions s2 ?tmp mode_644)])"
      by (auto simp: file_write_states_def Let_def)
    then show ?thesis
    proof cases
      case 4
      from fs_write_states_at [OF tl(1) free this] ne' s1 show ?thesis by auto
    next
      case 5
      from write_then_chmod_keeps [OF ok1 tl(1) free ne' this] s1 show ?thesis by simp
    qed (use s1 in simp_all)
  qed
qed

text \<open>C18: writing is atomic. In every state a crash can leave, from the first check to the end of the
  call, the target's entry is what it was or a file with the complete new contents; and a call that
  reports an error leaves it as it was.\<close>

theorem file_write_atomic:
  assumes "sound_fs s" and "literal_path (effective_root ws agent)"
    and "new_with_agent s rel ws agent = Inr w" and "fresh_action s aid"
  shows "list_all (\<lambda>x. fs_nodes x (path_loc (wp_canonical w)) = fs_nodes s (path_loc (wp_canonical w)) \<or>
       (\<exists>m. fs_nodes x (path_loc (wp_canonical w)) = Some (RegFile (bounded_str c) m)))
     (file_write_states s w c aid) \<and>
   (is_ok (snd (file_write s w c aid)) \<or>
      fs_nodes (fst (file_write s w c aid)) (path_loc (wp_canonical w)) = fs_nodes s (path_loc (wp_canonical w)))"
proof -
  let ?L = "path_loc (wp_canonical w)"
  note W = workspace_path_sound [OF assms(1-3)]
  obtain s' r where fw: "file_write s w c aid = (s', r)" by (cases "file_write s w c aid")
  note F = file_write_at [OF assms(1) W(1,2) assms(4) fw]
  have final: "fs_nodes s' ?L = fs_nodes s ?L \<or> (\<exists>m. fs_nodes s' ?L = Some (RegFile (bounded_str c) m))"
    and failed: "is_ok r \<or> fs_nodes s' ?L = fs_nodes s ?L"
    using conjunct2 [OF conjunct2 [OF conjunct2 [OF F]]] by (cases r; simp add: is_ok_def)+
  have "fs_nodes x ?L = fs_nodes s ?L \<or> (\<exists>m. fs_nodes x ?L = Some (RegFile (bounded_str c) m))"
    if "x \<in> set (file_write_states s w c aid)" for x
    using crash_states_keep [OF assms(1) refl W(1) ends_in_name_settled [OF assms(1) W(1,2)] assms(4) that] final fw
    by auto
  with failed fw show ?thesis by (simp add: list_all_iff)
qed

text \<open>The states of Alice's write, with a crash possible after every byte.\<close>

theorem file_write_atomic_witness:
  "length (file_write_states (fs_of_list alice_nodes) alice_path (BoundedBytes ''hi'') ''id1'') = 8 \<and>
   list_all (\<lambda>x. fs_nodes x [''ws'', ''alice'', ''a.txt''] = None \<or>
       (\<exists>m. fs_nodes x [''ws'', ''alice'', ''a.txt''] = Some (RegFile ''hi'' m)))
     (file_write_states (fs_of_list alice_nodes) alice_path (BoundedBytes ''hi'') ''id1'')"
proof
  have "path_loc (wp_canonical alice_path) = [''ws'', ''alice'', ''a.txt'']" by code_simp
  moreover have "fs_nodes (fs_of_list alice_nodes) [''ws'', ''alice'', ''a.txt''] = None" by code_simp
  ultimately show "list_all (\<lambda>x. fs_nodes x [''ws'', ''alice'', ''a.txt''] = None \<or>
       (\<exists>m. fs_nodes x [''ws'', ''alice'', ''a.txt''] = Some (RegFile ''hi'' m)))
     (file_write_states (fs_of_list alice_nodes) alice_path (BoundedBytes ''hi'') ''id1'')"
    using conjunct1 [OF file_write_atomic [OF alice_facts(1-4), of "BoundedBytes ''hi''"]] by simp
qed code_simp

section \<open>Writing and reading back\<close>

lemma verify_passes:
  assumes ok: "fs_ok (fs_nodes s)" and faults: "\<forall>op p. fs_fault s op p = None"
    and ex: "fs_nodes s (l @ q) \<noteq> None" and nl: "link_free (fs_nodes s) (l @ q)"
  shows "verify_components s (render_location l) (map Normal q) = Inr ()"
  using ex nl
proof (induction q arbitrary: l)
  case (Cons c q)
  obtain nd where "fs_nodes s (l @ c # q) = Some nd" using Cons.prems(1) by blast
  note names = fs_okD(1) [OF ok this]
  then have push: "path_join (render_location l) c = render_location (l @ [c])"
    by (intro render_push) (auto dest: valid_name_hd)
  have IH: "verify_components s (render_location (l @ [c])) (map Normal q) = Inr ()"
    using Cons by simp
  have nl: "\<not> is_link_at (fs_nodes s) (l @ [c])"
    using Cons.prems(2) by (auto simp: link_free_def)
  have ex: "fs_nodes s (l @ [c]) \<noteq> None"
  proof (cases "q = []")
    case False
    then have "strict_prefix (l @ [c]) (l @ c # q)" by (simp add: strict_prefix_def)
    from fs_ok_strict_prefix [OF ok Cons.prems(1) this] show ?thesis by (auto dest: is_dir_at_Some)
  qed (use Cons.prems(1) in simp)
  have "fs_walk max_links (fs_nodes s) False [] (l @ [c]) = Found (l @ [c])"
    using fs_walk_names_Found [of "fs_nodes s" "[]" "l @ [c]" False max_links] ok ex nl fs_ok_strict_prefix [OF ok ex]
    by simp
  moreover have "list_all valid_name (l @ [c])" using names by simp
  ultimately have "fs_lookup s False (render_location (l @ [c])) = Found (l @ [c])"
    using lookup_render [OF ok, of "l @ [c]" False] by simp
  with ex faults nl have "\<exists>nd. fs_lstat s (render_location (l @ [c])) = Inr nd \<and> \<not> node_is_symlink nd"
    by (auto simp: fs_lstat_def ok_or_def is_link_at_def node_is_symlink_def split: fs_node.splits)
  with IH push show ?case by (auto simp: Let_def)
qed simp

lemma verify_from_root:
  assumes ok: "fs_ok (fs_nodes s)" and faults: "\<forall>op p. fs_fault s op p = None"
    and rest: "verify_components s (render_location []) cs = Inr ()"
  shows "verify_components s [] (RootDir # cs) = Inr ()"
proof -
  obtain m where m: "fs_nodes s [] = Some (Directory m)" using fs_ok_root [OF ok] by (blast dest: is_dir_at_Some)
  have "fs_lookup s f ''/'' = Found []" for f
    using fs_ok_root [OF ok]
    by (simp add: fs_lookup_def is_absolute_def is_sep_def path_segs_def)
  with m faults have "fs_lstat s ''/'' = Inr (Directory m)" by (simp add: fs_lstat_def ok_or_def)
  moreover have "path_join [] ''/'' = ''/''" "render_location [] = ''/''"
    by (simp_all add: path_join_def is_absolute_def is_sep_def render_location_def)
  ultimately show ?thesis using rest by (simp add: Let_def node_is_symlink_def)
qed

lemma file_write_reports: "file_write s w c aid = (s', Inr k) \<Longrightarrow> k = word_of_nat (length (bounded_str c))"
  by (auto simp: file_write_def write_and_rename_def Let_def split: sum.splits prod.splits)

text \<open>C24: what was written is read back. After a successful write of a text, on a file system without
  failures, the write reported its length, and a read of the same path with room for it returns
  exactly the text, untruncated. The path must end in a name.\<close>

theorem write_then_read:
  assumes "sound_fs s" and "\<forall>op p. fs_fault s op p = None" and "literal_path (effective_root ws agent)"
    and "new_with_agent s rel ws agent = Inr w" and "fresh_action s aid"
    and "last (path_segs (wp_canonical w)) = last (path_loc (wp_canonical w))"
    and "file_write s w c aid = (s', Inr k)" and "from_utf8 (bounded_str c) = Inr (bounded_str c)"
    and "length (bounded_str c) \<le> n"
  shows "k = word_of_nat (length (bounded_str c)) \<and>
     file_read s' w n = Inr \<lparr>fr_content = bounded_str c, fr_bytes_returned = word_of_nat (length (bounded_str c)),
       fr_total_bytes = word_of_nat (length (bounded_str c)), fr_truncated = False\<rparr>"
proof -
  let ?t = "wp_canonical w" and ?L = "path_loc (wp_canonical w)" and ?d = "bounded_str c"
  note W = workspace_path_sound [OF assms(1,3,4)]
  note F = file_write_at [OF assms(1) W(1,2) assms(5,7)]
  from F obtain m where nd: "fs_nodes s' ?L = Some (RegFile ?d m)" by auto
  from F have ok: "fs_ok (fs_nodes s')" and faults: "\<forall>op p. fs_fault s' op p = None"
    using same_env_fault assms(2) by auto
  have nl: "\<not> is_link_at (fs_nodes s') ?L" by (simp add: is_link_at_def nd)
  have found: "fs_lookup s' f ?t = Found ?L" for f
    using lookup_Found [OF ok W(1) _ nl disjI2 [OF assms(6)]] nd by simp
  have "verify_components s' (render_location []) (map Normal ?L) = Inr ()"
    using verify_passes [OF ok faults, of "[]" ?L] nd fs_ok_link_free [OF ok _ nl] by simp
  then have v: "verify_no_symlinks s' ?t = Inr ()"
    unfolding verify_no_symlinks_def path_components_literal [OF W(1)]
    by (rule verify_from_root [OF ok faults])
  have rd: "file_read s' w n = Inr \<lparr>fr_content = ?d, fr_bytes_returned = word_of_nat (length ?d),
       fr_total_bytes = word_of_nat (length ?d), fr_truncated = False\<rparr>"
    using v found nd faults assms(8,9)
    by (simp add: file_read_def Let_def fs_exists_def fs_lstat_def ok_or_def node_is_file_def node_len_def
        fs_open_read_def fs_read_exact_def)
  with file_write_reports [OF assms(7)] show ?thesis by blast
qed

theorem write_then_read_witness:
  "file_read (fst (file_write (fs_of_list alice_nodes) alice_path (BoundedBytes ''hi'') ''id1'')) alice_path 10 =
     Inr \<lparr>fr_content = ''hi'', fr_bytes_returned = 2, fr_total_bytes = 2, fr_truncated = False\<rparr>"
proof -
  let ?fw = "file_write (fs_of_list alice_nodes) alice_path (BoundedBytes ''hi'') ''id1''"
  have "snd ?fw = Inr 2" by code_simp
  then have fw: "?fw = (fst ?fw, Inr 2)" by (metis prod.collapse)
  have no_fault: "\<forall>op p. fs_fault (fs_of_list alice_nodes) op p = None" by (simp add: fs_of_list_def)
  have name: "last (path_segs (wp_canonical alice_path)) = last (path_loc (wp_canonical alice_path))" by code_simp
  have utf: "from_utf8 (bounded_str (BoundedBytes ''hi'')) = Inr (bounded_str (BoundedBytes ''hi''))" by code_simp
  have "length (bounded_str (BoundedBytes ''hi'')) \<le> 10" by simp
  from write_then_read [OF alice_facts(1) no_fault alice_facts(2-4) name fw utf this] show ?thesis by simp
qed

section \<open>The root as a target\<close>

text \<open>The hypothesis on the root is needed. The target \<open>.\<close> passes every check; if the agent's
  directory does not exist yet, the write puts a regular file in its place, through a temporary
  file outside the agent's directory, and from then on every write of the agent fails.\<close>

theorem dot_target_replaces_root:
  "case new_with_agent (fs_of_list [([''ws''], Directory 493)]) ''.'' ''/ws'' (Some ''alice'') of
     Inl e \<Rightarrow> False
   | Inr w \<Rightarrow>
       (let s1 = fst (file_write (fs_of_list [([''ws''], Directory 493)]) w (BoundedBytes ''hi'') ''id1'')
        in tmp_path (wp_canonical w) ''id1'' = ''/ws/alice.ama.id1.tmp'' \<and>
           fs_nodes s1 [''ws'', ''alice''] = Some (RegFile ''hi'' 420) \<and>
           (case new_with_agent s1 ''a.txt'' ''/ws'' (Some ''alice'') of
              Inl e \<Rightarrow> False
            | Inr w' \<Rightarrow> \<not> is_ok (snd (file_write s1 w' (BoundedBytes ''hi'') ''id2''))))"
  by code_simp

end
