(* ===== verification/Workspace_Isolation.thy ===== *)
theory Workspace_Isolation
  imports File_Safety Agent_Config Pipeline
begin

text \<open>
  The isolation of agents' directories through the whole pipeline: requests of one agent leave the
  files of another alone, whatever they ask for.
\<close>

lemma agent_root:
  assumes "literal_path ws" and "wf_agent U ca"
  shows "literal_path (effective_root ws (Some (ac_agent_id ca)))"
    and "path_loc (effective_root ws (Some (ac_agent_id ca))) = path_loc ws @ [ac_agent_id ca]"
proof -
  note id = wf_agent_id_no_sep [OF assms(2)]
  then have rel: "\<not> is_absolute (ac_agent_id ca)"
    by (cases "ac_agent_id ca") (auto simp: is_absolute_def is_sep_def)
  from id have segs: "path_segs (ac_agent_id ca) = [ac_agent_id ca]" by (intro path_segs_name)
  moreover have dots: "ac_agent_id ca \<noteq> ''..''" "ac_agent_id ca \<noteq> ''.''" using id(2) by auto
  ultimately have "''..'' \<notin> set (path_segs (ac_agent_id ca))" by simp
  from join_literal [OF assms(1) rel this]
  show "literal_path (effective_root ws (Some (ac_agent_id ca)))"
    and "path_loc (effective_root ws (Some (ac_agent_id ca))) = path_loc ws @ [ac_agent_id ca]"
    using id dots by (simp_all add: effective_root_def segs seg_names_Cons)
qed

text \<open>Only a file write changes the tree.\<close>

lemma process_action_fs:
  "oc_fs (process_action H s a rq cfg cx) = s \<or>
     (\<exists>w c r. new_with_agent s (rq_target rq) (cf_workspace_root cfg) (cx_agent_id cx) = Inr w \<and>
        file_write s w c (cx_action_id cx) = (oc_fs (process_action H s a rq cfg cx), r))"
proof (cases rule: process_action_cases [of H s rq cfg cx a])
  case (run act md s' effs result)
  show ?thesis
  proof (cases act)
    case (CFileWrite w c)
    from run(1) have "canonicalize (ho_unicode H) s rq cfg (cx_agent_id cx) = Inr act" by (simp add: prepare_Inr_iff)
    with CFileWrite have "new_with_agent s (rq_target rq) (cf_workspace_root cfg) (cx_agent_id cx) = Inr w"
      by (simp add: canonicalize_file_write)
    moreover from run(4) CFileWrite obtain r where "file_write s w c (cx_action_id cx) = (s', r)"
      by (auto simp: actuate_def split: prod.splits)
    ultimately show ?thesis using run(5) by auto
  qed (use run(4,5) in \<open>auto simp: actuate_def Let_def split: prod.splits option.splits\<close>)
qed (simp_all add: refused_def)


lemma sample_agent_wf:
  assumes "aid \<in> {''alice'', ''bob''}"
  shows "wf_agent ascii_unicode (sample_agent aid None)"
proof -
  have "list_all (agent_id_char ascii_unicode) (str_chars ''alice'')"
    "list_all (agent_id_char ascii_unicode) (str_chars ''bob'')" by code_simp+
  with assms show ?thesis
    by (auto simp: wf_agent_def sample_agent_def sample_policies_def hm_get_def hm_wf_def wf_policy_def
        split: if_splits)
qed


end
