(* ===== verification/Daemon_Files.thy ===== *)
theory Daemon_Files
  imports Daemon_Main Workspace_Isolation
begin

text \<open>
  The file system over the whole life of the daemon: the cleanup at the start and then any history
  of requests. The result for one write, \<open>File_Safety\<close>, is carried through the pipeline and the
  request handler; what makes it carry on from request to request is that no operation of the
  program creates a link.
\<close>

section \<open>No operation makes a link\<close>

definition links_kept :: "fs_state \<Rightarrow> fs_state \<Rightarrow> bool" where
  "links_kept s s' \<longleftrightarrow> (\<forall>q. is_link_at (fs_nodes s') q \<longrightarrow> is_link_at (fs_nodes s) q)"

lemma links_kept_refl [simp]: "links_kept s s"
  by (simp add: links_kept_def)

lemma links_kept_trans [trans]: "links_kept s s1 \<Longrightarrow> links_kept s1 s2 \<Longrightarrow> links_kept s s2"
  by (simp add: links_kept_def)

lemma links_kept_set_node:
  "(\<forall>t. n \<noteq> Some (Symlink t)) \<or> n = fs_nodes s l \<Longrightarrow> links_kept s (set_node l n s)"
  by (auto simp: links_kept_def dest!: is_link_at_Some split: if_splits) (auto simp: is_link_at_def)

lemma chmod_node_Symlink [simp]: "chmod_node m n = Symlink t \<longleftrightarrow> n = Symlink t"
  by (cases n) (auto simp: chmod_node_def)

lemma fs_write_links: "links_kept s (fst (fs_write s p d))"
  by (auto simp: fs_write_def file_with_def intro!: links_kept_set_node split: sum.splits option.splits)

lemma fs_set_permissions_links: "links_kept s (fst (fs_set_permissions s p m))"
  by (auto simp: fs_set_permissions_def links_kept_def dest!: is_link_at_Some
      split: option.splits fs_lookup.splits if_splits) (auto simp: is_link_at_def)

lemma fs_remove_file_links: "links_kept s (fst (fs_remove_file s p))"
  by (auto simp: fs_remove_file_def intro!: links_kept_set_node split: option.splits fs_lookup.splits)

lemma fs_rename_error: "fs_rename s a b = (s', Inl e) \<Longrightarrow> s' = s"
  by (auto simp: fs_rename_def split: option.splits fs_lookup.splits if_splits)

lemma write_and_rename_error_links:
  assumes "write_and_rename s p tmp d = (s1, Inl e)"
  shows "links_kept s s1"
proof -
  obtain s2 r2 where w: "fs_write s tmp d = (s2, r2)" by (cases "fs_write s tmp d")
  with fs_write_links [of s tmp d] have 2: "links_kept s s2" by simp
  show ?thesis
  proof (cases r2)
    case (Inl e2)
    with assms w have "s1 = fst (fs_remove_file s2 tmp)" by (simp add: write_and_rename_def)
    with 2 fs_remove_file_links show ?thesis by (auto intro: links_kept_trans)
  next
    case (Inr u)
    let ?s3 = "fst (fs_set_permissions s2 tmp mode_644)"
    from 2 fs_set_permissions_links have 3: "links_kept s ?s3" by (rule links_kept_trans)
    obtain s4 r4 where r: "fs_rename ?s3 tmp p = (s4, r4)" by (cases "fs_rename ?s3 tmp p")
    with assms w Inr obtain e4 where "r4 = Inl e4" "s1 = fst (fs_remove_file s4 tmp)"
      by (auto simp: write_and_rename_def split: sum.splits)
    with fs_rename_error r have "s1 = fst (fs_remove_file ?s3 tmp)" by blast
    with 3 fs_remove_file_links show ?thesis by (auto intro: links_kept_trans)
  qed
qed

text \<open>A successful write leaves a regular file at the target and nothing at the temporary name.\<close>

lemma file_write_links:
  assumes sound: "sound_fs s" and p: "literal_path (wp_canonical w)" and last: "settled_target s (wp_canonical w)"
    and fresh: "fresh_action s aid" and eq: "file_write s w c aid = (s', r)"
  shows "links_kept s s'"
proof -
  define t where "t = wp_canonical w"
  note F = file_write_settled [OF sound p last fresh eq]
  show ?thesis
  proof (cases r)
    case (Inr n)
    with F obtain m where ends: "fs_nodes s' (path_loc t) = Some (RegFile (bounded_str c) m)"
      "fs_nodes s' (tmp_loc t aid) = None" unfolding t_def by auto
    have "is_link_at (fs_nodes s) q" if l: "is_link_at (fs_nodes s') q" for q
    proof -
      from l ends have "q \<noteq> path_loc t" "q \<noteq> tmp_loc t aid" by (auto simp: is_link_at_def)
      with F l show ?thesis unfolding t_def by (metis is_dir_not_link is_link_at_def)
    qed
    then show ?thesis by (simp add: links_kept_def)
  next
    case (Inl e)
    show ?thesis
    proof (cases "write_checks s t")
      case (Inr u)
      obtain s1 r1 where e: "ensure_parent s t = (s1, r1)" by (cases "ensure_parent s t")
      from ensured_site [OF sound p last fresh _ e [unfolded t_def]] Inr
      have g: "grown (fs_nodes s) (fs_nodes s1) (butlast (path_loc t))" by (simp add: t_def)
      then have 1: "links_kept s s1" by (simp add: links_kept_def grown_link [OF g])
      show ?thesis
      proof (cases r1)
        case (Inr u1)
        with eq \<open>write_checks s t = Inr u\<close> e \<open>r = Inl _\<close> have "write_and_rename s1 t (tmp_path t aid) (bounded_str c) = (s', Inl e)"
          by (simp add: file_write_def t_def [symmetric] \<open>r = Inl e\<close>)
        with 1 write_and_rename_error_links show ?thesis by (blast intro: links_kept_trans)
      qed (use eq e \<open>write_checks s t = Inr u\<close> 1 in \<open>simp add: file_write_def t_def\<close>)
    qed (use eq in \<open>simp add: file_write_def t_def\<close>)
  qed
qed

lemma remove_orphans_links: "links_kept s (fst (remove_orphans s ps c))"
proof (induction ps arbitrary: s c)
  case (Cons p ps)
  then show ?case using fs_remove_file_links [of s p]
    by (cases "fs_remove_file s p") (auto split: sum.splits intro: links_kept_trans)
qed simp

lemma cleanup_links: "cleanup_orphan_temps fuel ls s root = Some (s', n) \<Longrightarrow> links_kept s s'"
  using remove_orphans_links [of s _ 0]
  by (auto simp: cleanup_orphan_temps_def split: option.splits sum.splits) (metis fst_conv)

lemma fresh_action_kept: "fresh_action s aid \<Longrightarrow> links_kept s s' \<Longrightarrow> fresh_action s' aid"
  by (auto simp: fresh_action_def links_kept_def)

section \<open>Roots without links\<close>

lemma root_loc_link_free:
  assumes "sound_fs s" and "literal_path root" and "link_free (fs_nodes s) (path_loc root)"
  shows "path_loc (effective_root_canon s root) = path_loc root"
proof (cases "fs_canonicalize s root")
  case (Inl e)
  then show ?thesis by (simp add: effective_root_canon_def)
next
  case (Inr c)
  then obtain l where l: "fs_lookup s True root = Found l" "c = render_location l"
    by (auto simp: fs_canonicalize_def split: option.splits fs_lookup.splits)
  from lookup_lands [OF assms(2,3), of True] l(1) have "l = path_loc root" by simp
  moreover from assms(1) have "fs_ok (fs_nodes s)" by (simp add: sound_fs_def)
  with lookup_result [OF _ assms(2), of s True] l(1) fs_okD(1) have "list_all valid_name l" by auto
  ultimately show ?thesis using Inr l(2) render_literal(2) by (simp add: effective_root_canon_def)
qed


section \<open>One action\<close>

text \<open>The workspace as the theorems below need it: an existing directory, and no link on the way to any
  of the given agents' directories.\<close>

definition plain_workspace :: "fs_state \<Rightarrow> string \<Rightarrow> string set \<Rightarrow> bool" where
  "plain_workspace s ws ids \<longleftrightarrow>
     sound_fs s \<and> literal_path ws \<and> is_dir_at (fs_nodes s) (path_loc ws) \<and>
     (\<forall>aid \<in> ids. link_free (fs_nodes s) (path_loc ws @ [aid]))"

lemma write_changes_named:
  assumes sound: "sound_fs s" and root: "literal_path (effective_root ws agent)"
    and wp: "new_with_agent s rel ws agent = Inr w" and fresh: "fresh_action s aid"
    and wrote: "file_write s w c aid = (s', r)" and changed: "fs_nodes s' l \<noteq> fs_nodes s l"
    and rloc: "root_loc s ws agent = W @ [a]" and dir: "is_dir_at (fs_nodes s) W"
  obtains n k where "l = W @ n # k" and "n = a \<or> n = a @ ''.ama.'' @ aid @ ''.tmp''"
  using file_write_below_root [OF sound root wp fresh wrote changed, unfolded rloc]
proof (elim disjE conjE)
  assume l: "prefix l (W @ [a])" "fs_nodes s l = None"
  have "\<not> prefix l W"
  proof
    assume "prefix l W"
    with fs_ok_strict_prefix [of "fs_nodes s" W l] sound dir have "is_dir_at (fs_nodes s) l"
      by (cases "l = W") (auto simp: sound_fs_def strict_prefix_def dest: is_dir_at_Some)
    with l(2) show False by (simp add: is_dir_at_def)
  qed
  with l(1) show thesis using that [of a "[]"] by simp
next
  assume "path_loc (wp_canonical w) = W @ [a]" "l \<in> {W @ [a], tmp_loc (wp_canonical w) aid}"
  then show thesis using that by (auto simp: tmp_loc_def)
qed (use that in \<open>auto simp: strict_prefix_def prefix_def\<close>)

lemma process_action_confined:
  assumes pw: "plain_workspace s (cf_workspace_root cfg) ids" and ca: "wf_agent U ca" "ac_agent_id ca \<in> ids"
    and ctx: "cx_agent_id cx = Some (ac_agent_id ca)" and fresh: "fresh_action s (cx_action_id cx)"
  shows "plain_workspace (oc_fs (process_action H s a rq cfg cx)) (cf_workspace_root cfg) ids"
    and "fs_nodes (oc_fs (process_action H s a rq cfg cx)) l \<noteq> fs_nodes s l \<Longrightarrow>
      strict_prefix (path_loc (cf_workspace_root cfg)) l \<and>
      (\<forall>b. b \<noteq> ac_agent_id ca \<and> CHR ''.'' \<notin> set b \<longrightarrow> \<not> prefix (path_loc (cf_workspace_root cfg) @ [b]) l)"
proof -
  let ?ws = "cf_workspace_root cfg" and ?s' = "oc_fs (process_action H s a rq cfg cx)"
  let ?W = "path_loc (cf_workspace_root cfg)" and ?a = "ac_agent_id ca"
  from pw have sound: "sound_fs s" and ws: "literal_path ?ws" and dir: "is_dir_at (fs_nodes s) ?W"
    and free: "link_free (fs_nodes s) (?W @ [?a])" using ca(2) by (auto simp: plain_workspace_def)
  have root: "literal_path (effective_root ?ws (Some ?a))" using ws ca(1) by (rule agent_root(1))
  have rloc: "root_loc s ?ws (Some ?a) = ?W @ [?a]"
    using root_loc_link_free [OF sound root] free by (simp add: root_loc_def agent_root(2) [OF ws ca(1)])
  have step: "sound_fs ?s' \<and> links_kept s ?s' \<and> (\<forall>l. fs_nodes ?s' l \<noteq> fs_nodes s l \<longrightarrow>
      strict_prefix ?W l \<and> (\<forall>b. b \<noteq> ?a \<and> CHR ''.'' \<notin> set b \<longrightarrow> \<not> prefix (?W @ [b]) l))"
  proof (cases "?s' = s")
    case False
    then obtain w c r where w: "new_with_agent s (rq_target rq) ?ws (Some ?a) = Inr w"
      and fw: "file_write s w c (cx_action_id cx) = (?s', r)"
      using process_action_fs [of H s a rq cfg cx] ctx by auto
    note wp = workspace_path_sound [OF sound root w]
    from file_write_at [OF sound wp(1,2) fresh fw] sound have "sound_fs ?s'"
      by (auto simp: sound_fs_def dest: same_env_fault)
    moreover have "links_kept s ?s'" by (rule file_write_links [OF sound wp(1) ends_in_name_settled [OF sound wp(1,2)] fresh fw])
    moreover have "strict_prefix ?W l \<and> (\<forall>b. b \<noteq> ?a \<and> CHR ''.'' \<notin> set b \<longrightarrow> \<not> prefix (?W @ [b]) l)"
      if ch: "fs_nodes ?s' l \<noteq> fs_nodes s l" for l
    proof -
      obtain n k where "l = ?W @ n # k" "n = ?a \<or> n = ?a @ ''.ama.'' @ cx_action_id cx @ ''.tmp''"
        by (rule write_changes_named [OF sound root w fresh fw ch rloc dir])
      then show ?thesis by (auto simp: strict_prefix_def prefix_def)
    qed
    ultimately show ?thesis by blast
  qed (use sound in simp)
  then have "fs_nodes ?s' ?W = fs_nodes s ?W" by (metis prefix_order.less_irrefl)
  with step pw show "plain_workspace ?s' ?ws ids"
    unfolding plain_workspace_def links_kept_def by (auto simp: is_dir_at_def intro: link_free_mono)
  from step show "fs_nodes ?s' l \<noteq> fs_nodes s l \<Longrightarrow>
      strict_prefix ?W l \<and> (\<forall>b. b \<noteq> ?a \<and> CHR ''.'' \<notin> set b \<longrightarrow> \<not> prefix (?W @ [b]) l)" by blast
qed


section \<open>From boot on\<close>

lemma fs_remove_file_plain:
  assumes "plain_workspace s ws ids"
  shows "plain_workspace (fst (fs_remove_file s p)) ws ids"
proof -
  from assms have ok: "fs_ok (fs_nodes s)" by (simp add: plain_workspace_def sound_fs_def)
  have "fst (fs_remove_file s p) = s \<or>
      (\<exists>l. fst (fs_remove_file s p) = set_node l None s \<and> \<not> is_dir_at (fs_nodes s) l)"
    by (auto simp: fs_remove_file_def split: option.splits fs_lookup.splits)
  moreover have "plain_workspace (set_node l None s) ws ids" if l: "\<not> is_dir_at (fs_nodes s) l" for l
  proof -
    have "links_kept s (set_node l None s)" by (rule links_kept_set_node) simp
    moreover have "fs_fault (set_node l None s) = fs_fault s" by (simp add: set_node_def)
    moreover have "l \<noteq> path_loc ws" using assms l by (auto simp: plain_workspace_def)
    ultimately show ?thesis using assms fs_ok_remove [OF ok l]
      by (auto simp: plain_workspace_def sound_fs_def links_kept_def is_dir_at_def intro: link_free_mono)
  qed
  ultimately show ?thesis using assms by auto
qed

lemma remove_orphans_plain:
  "plain_workspace s ws ids \<Longrightarrow> plain_workspace (fst (remove_orphans s ps c)) ws ids"
proof (induction ps arbitrary: s c)
  case (Cons p ps)
  then show ?case using fs_remove_file_plain [OF Cons.prems, of p]
    by (cases "fs_remove_file s p") (auto split: sum.splits)
qed simp

lemma cleanup_plain:
  "cleanup_orphan_temps fuel ls s root = Some (s', n) \<Longrightarrow> plain_workspace s ws ids \<Longrightarrow> plain_workspace s' ws ids"
  using remove_orphans_plain [of s ws ids _ 0]
  by (auto simp: cleanup_orphan_temps_def split: option.splits sum.splits) (metis fst_conv)

text \<open>Histories of requests made for the agents in a set, with action ids no link's name contains.\<close>

inductive serves_for :: "world \<Rightarrow> fallbacks \<Rightarrow> string set \<Rightarrow> app_state \<Rightarrow> app_state \<Rightarrow> bool" for W F A st0 where
  booted: "serves_for W F A st0 st0"
| served: "serves_for W F A st0 st \<Longrightarrow> serve_request W F rd st path q = (resp, st', effs, log) \<Longrightarrow>
     (\<And>aid. match_route path = Some RAction \<Longrightarrow> resolve_agent_id st q = Inr aid \<Longrightarrow> aid \<in> A) \<Longrightarrow>
     fresh_action (st_fs st) (rd_action_id rd) \<Longrightarrow> serves_for W F A st0 st'"

definition agent_ids :: "ama_config \<Rightarrow> string set" where
  "agent_ids cfg = set (hm_keys (cf_agents cfg))"

text \<open>What every state of such a history satisfies, and what has changed since its start.\<close>

definition confined_to :: "ama_config \<Rightarrow> string set \<Rightarrow> location \<Rightarrow> bool" where
  "confined_to cfg A l \<longleftrightarrow>
     strict_prefix (path_loc (cf_workspace_root cfg)) l \<and>
     (\<forall>b \<in> agent_ids cfg - A. \<not> prefix (path_loc (cf_workspace_root cfg) @ [b]) l)"

definition history_ok :: "ama_config \<Rightarrow> app_state \<Rightarrow> bool" where
  "history_ok cfg st \<longleftrightarrow> st_config st = cfg \<and> registry_matches cfg (st_agent_registry st) \<and>
     plain_workspace (st_fs st) (cf_workspace_root cfg) (agent_ids cfg)"

lemma serve_action_confined:
  assumes ok: "history_ok cfg st" and wf: "wf_agents U (cf_agents cfg)"
    and eq: "serve_action W too_large rd st q = (resp, st', effs, log)"
    and A: "\<And>aid. resolve_agent_id st q = Inr aid \<Longrightarrow> aid \<in> A" and fresh: "fresh_action (st_fs st) (rd_action_id rd)"
  shows "history_ok cfg st' \<and> (\<forall>l. fs_nodes (st_fs st') l \<noteq> fs_nodes (st_fs st) l \<longrightarrow> confined_to cfg A l)"
  using eq
proof (cases rule: serve_action_step)
  case kept
  with ok show ?thesis by (simp add: history_ok_def)
next
  case (acted aid a rq cx)
  from ok have c: "st_config st = cfg" and reg: "registry_matches cfg (st_agent_registry st)"
    and pw: "plain_workspace (st_fs st) (cf_workspace_root cfg) (agent_ids cfg)" by (simp_all add: history_ok_def)
  from registry_matches_dom [OF reg, of aid] acted(2) obtain ca where "hm_get (cf_agents cfg) aid = Some ca" by auto
  with wf have ca: "wf_agent U ca" "ac_agent_id ca = aid" "aid \<in> agent_ids cfg"
    by (auto simp: wf_agents_def agent_ids_def hm_keys_get)
  have ctx: "ac_agent_id ca \<in> agent_ids cfg" "cx_agent_id cx = Some (ac_agent_id ca)"
    and fresh': "fresh_action (st_fs st) (cx_action_id cx)" using acted(3,4) ca fresh by simp_all
  note P = process_action_confined [OF pw ca(1) ctx fresh', of "w_host W" a rq]
  have "confined_to cfg A l" if "fs_nodes (st_fs st') l \<noteq> fs_nodes (st_fs st) l" for l
  proof -
    have other: "strict_prefix (path_loc (cf_workspace_root cfg)) l"
      "\<And>b. b \<noteq> aid \<Longrightarrow> CHR ''.'' \<notin> set b \<Longrightarrow> \<not> prefix (path_loc (cf_workspace_root cfg) @ [b]) l"
      using P(2) [OF that [unfolded acted(7) c], unfolded ca(2)] by simp_all
    have dotless: "CHR ''.'' \<notin> set b" if "b \<in> agent_ids cfg" for b
      using that wf wf_agent_id_no_sep(2) by (auto simp: agent_ids_def hm_keys_get wf_agents_def)
    have "\<not> prefix (path_loc (cf_workspace_root cfg) @ [b]) l" if "b \<in> agent_ids cfg - A" for b
      by (rule other(2)) (use that A [OF acted(1)] dotless in auto)
    with other(1) show ?thesis by (simp add: confined_to_def)
  qed
  moreover have "registry_matches cfg (st_agent_registry st')"
    unfolding acted(6) by (rule registry_matches_insert [OF reg acted(2)]) (simp_all add: process_action_limits)
  ultimately show ?thesis using P(1) acted(5,7) c by (simp add: history_ok_def)
qed

lemma serves_for_confined:
  assumes "serves_for W F A st0 st" and "history_ok cfg st0" and "wf_agents U (cf_agents cfg)"
  shows "history_ok cfg st \<and> (\<forall>l. fs_nodes (st_fs st) l \<noteq> fs_nodes (st_fs st0) l \<longrightarrow> confined_to cfg A l)"
  using assms
proof (induction rule: serves_for.induct)
  case (served st rd path q resp st' effs log)
  from served.IH [OF served.prems] have ok: "history_ok cfg st"
    and old: "\<And>l. fs_nodes (st_fs st) l \<noteq> fs_nodes (st_fs st0) l \<Longrightarrow> confined_to cfg A l" by simp_all
  from served.hyps(2) have "history_ok cfg st' \<and>
      (\<forall>l. fs_nodes (st_fs st') l \<noteq> fs_nodes (st_fs st) l \<longrightarrow> confined_to cfg A l)"
  proof (cases rule: serve_request_cases)
    case read
    with ok show ?thesis by simp
  next
    case action
    from serve_action_confined [OF ok served.prems(2) action(3) served.hyps(3) [OF action(1)] served.hyps(4)]
    show ?thesis .
  qed
  with old show ?case by metis
qed simp

text \<open>The daemon stays in its workspace for its whole life. In a workspace whose agents' directories
  are not reached through links, an entry that differs from how it was before the daemon started
  lies strictly below the workspace root and not in the directory of an agent no request was made
  for, or it was a temporary file that the cleanup removed.\<close>

theorem daemon_confined:
  assumes "start_daemon E s = Some (s1, Inr (addr, st0))" and "lists_names (se_lister E)"
    and "plain_workspace s (cf_workspace_root (st_config st0)) (agent_ids (st_config st0))"
    and "serves_for W F A st0 st" and "fs_nodes (st_fs st) l \<noteq> fs_nodes s l"
  shows "(strict_prefix (path_loc (cf_workspace_root (st_config st0))) l \<and>
      (\<forall>b \<in> agent_ids (st_config st0) - A. \<not> prefix (path_loc (cf_workspace_root (st_config st0)) @ [b]) l)) \<or>
     (fs_nodes s1 l = None \<and> orphan_loc l \<and> \<not> is_dir_at (fs_nodes s) l)"
  using assms(1)
proof (cases rule: start_daemon_cases)
  case (listening cfg n)
  then have st0: "st_config st0 = cfg" "st_fs st0 = s1"
    "st_agent_registry st0 = registry_new (se_authorizer_session E) (map snd (cf_agents cfg))"
    by (simp_all add: app_state_new_def Let_def)
  from load_config_wf [OF listening(1)] have wf: "wf_agents (tr_unicode (se_toml E)) (cf_agents cfg)"
    by (simp add: wf_config_def)
  with cleanup_plain [OF listening(2) assms(3)] have "history_ok cfg st0"
    by (simp add: history_ok_def st0 registry_new_matches)
  from serves_for_confined [OF assms(4) this wf]
  have "fs_nodes (st_fs st) l \<noteq> fs_nodes s1 l \<Longrightarrow> confined_to cfg A l" by (simp add: st0)
  with cleanup_changes [OF assms(2) listening(2), of l] assms(5) show ?thesis
    unfolding confined_to_def st0 by (cases "fs_nodes s1 l = fs_nodes s l") auto
qed simp_all
lemma serves_for_one:
  assumes "\<And>aid. resolve_agent_id st0 q = Inr aid \<Longrightarrow> aid \<in> A" and "fresh_action (st_fs st0) (rd_action_id rd)"
  shows "serves_for W F A st0 (fst (snd (serve_request W F rd st0 path q)))"
  using serves_for.served [OF serves_for.booted _ assms(1,2), of W F path] by (metis prod.collapse)

lemma links_of_list:
  "list_all (\<lambda>(l, nd). \<not> node_is_symlink nd) nodes \<Longrightarrow> \<not> is_link_at (fs_nodes (fs_of_list nodes)) k"
  by (auto simp: fs_of_list_def is_link_at_def list_all_iff node_is_symlink_def
      split: option.splits fs_node.splits if_splits dest!: map_of_SomeD)

text \<open>The sample daemon's write lands in its agent's directory.\<close>

theorem daemon_confined_witness:
  "case start_daemon sample_env (fs_of_list sample_boot_nodes) of
     Some (s1, Inr (addr, st0)) \<Rightarrow>
       fs_nodes (st_fs (snd (the (sample_life (Some (s1, Inr (addr, st0))))))) [''ws'', ''default'', ''notes.txt''] =
         Some (RegFile ''hi'' 420) \<and>
       strict_prefix (path_loc (cf_workspace_root (st_config st0))) [''ws'', ''default'', ''notes.txt'']
   | _ \<Rightarrow> False"
proof -
  let ?s = "fs_of_list sample_boot_nodes" and ?l = "[''ws'', ''default'', ''notes.txt'']"
  let ?start = "start_daemon sample_env ?s"
  have ev: "(case ?start of Some (s1, Inr (addr, st0)) \<Rightarrow>
       fs_nodes (st_fs (snd (the (sample_life (Some (s1, Inr (addr, st0))))))) ?l = Some (RegFile ''hi'' 420) \<and>
       cf_workspace_root (st_config st0) = ''/ws'' \<and> hm_keys (cf_agents (st_config st0)) = [''default''] \<and>
       resolve_agent_id st0 (sample_post ''default'' ''write'') = Inr ''default''
     | _ \<Rightarrow> False)" by code_simp
  then obtain s1 addr st0 where start: "?start = Some (s1, Inr (addr, st0))"
    by (cases "snd (the ?start)") (auto split: option.splits)
  define st where "st = snd (the (sample_life (Some (s1, Inr (addr, st0)))))"
  from ev start have st: "fs_nodes (st_fs st) ?l = Some (RegFile ''hi'' 420)"
    and root: "cf_workspace_root (st_config st0) = ''/ws''" and keys: "hm_keys (cf_agents (st_config st0)) = [''default'']"
    and aid: "resolve_agent_id st0 (sample_post ''default'' ''write'') = Inr ''default''" by (simp_all add: st_def)
  have names: "lists_names (se_lister sample_env)"
    using listing_names [of sample_boot_nodes] by (simp add: sample_env_def sample_boot_nodes_def valid_name_def)
  have "sound_fs ?s" by (rule fs_ok_of_list) code_simp
  moreover have "\<not> is_link_at (fs_nodes ?s) k" for k
    using links_of_list [of sample_boot_nodes] by (simp add: sample_boot_nodes_def node_is_symlink_def)
  moreover have "literal_path ''/ws''" "is_dir_at (fs_nodes ?s) (path_loc ''/ws'')" by code_simp+
  ultimately have pw: "plain_workspace ?s ''/ws'' {''default''}" by (simp add: plain_workspace_def link_free_def)
  have "fresh_action ?s (rd_action_id (sample_reading 5))" by (rule fresh_action_of_list) code_simp+
  moreover from start have "links_kept ?s (st_fs st0)"
    by (cases rule: start_daemon_cases) (auto simp: app_state_new_def Let_def dest: cleanup_links)
  ultimately have fresh: "fresh_action (st_fs st0) (rd_action_id (sample_reading 5))" by (rule fresh_action_kept)
  have "serves_for sample_world sample_fallbacks {''default''} st0 st"
    unfolding st_def sample_life_def option.case prod.case sum.case option.sel snd_conv
    by (rule serves_for_one [OF _ fresh]) (simp add: aid)
  moreover have "fs_nodes ?s ?l = None" "\<not> orphan_loc ?l" by code_simp+
  ultimately show ?thesis
    using daemon_confined [OF start names, of sample_world sample_fallbacks "{''default''}" st ?l] pw root keys st start
    by (auto simp: agent_ids_def st_def)
qed

end
