(* ===== verification/Daemon_Confinement.thy ===== *)
theory Daemon_Confinement
  imports Daemon_Files Daemon_Interleaved
begin

text \<open>
  The file system under interleaving. A handler checks its target when it prepares the action and
  writes later, after other handlers have changed the tree. What the check promised still holds
  then, because no operation of the daemon makes a link: the path stays below the agent's directory
  and its own temporary name stays free of links.
\<close>

section \<open>A write long after its checks\<close>

definition write_ready :: "fs_state \<Rightarrow> location \<Rightarrow> string \<Rightarrow> workspace_path \<Rightarrow> bool" where
  "write_ready s R action_id w \<longleftrightarrow>
     literal_path (wp_canonical w) \<and> prefix R (path_loc (wp_canonical w)) \<and>
     settled_target s (wp_canonical w) \<and> fresh_action s action_id"

lemma write_ready_kept: "write_ready s R a w \<Longrightarrow> links_kept s s' \<Longrightarrow> write_ready s' R a w"
  using fresh_action_kept by (auto simp: write_ready_def settled_target_def links_kept_def)

lemma write_ready_new:
  assumes "sound_fs s" and "literal_path (effective_root ws agent)" and "new_with_agent s rel ws agent = Inr w"
    and "fresh_action s a"
  shows "write_ready s (root_loc s ws agent) a w"
  using workspace_path_sound [OF assms(1-3)] ends_in_name_settled [OF assms(1)] assms(4)
  by (simp add: write_ready_def)

lemma late_write_changes:
  assumes sound: "sound_fs s" and ready: "write_ready s (P @ [a]) aid w" and dir: "is_dir_at (fs_nodes s) P"
    and wrote: "file_write s w c aid = (s', r)" and changed: "fs_nodes s' l \<noteq> fs_nodes s l"
  obtains n k where "l = P @ n # k" and "n = a \<or> n = a @ ''.ama.'' @ aid @ ''.tmp''"
proof -
  let ?L = "path_loc (wp_canonical w)"
  from ready have w: "literal_path (wp_canonical w)" "settled_target s (wp_canonical w)" "fresh_action s aid"
    and pre: "prefix (P @ [a]) ?L" by (simp_all add: write_ready_def)
  from pre obtain k where k: "?L = P @ a # k" by (auto simp: prefix_def)
  from file_write_settled [OF sound w wrote] changed
  have "l = ?L \<or> l = tmp_loc (wp_canonical w) aid \<or> (strict_prefix l ?L \<and> fs_nodes s l = None)" by blast
  then show thesis
  proof (elim disjE conjE)
    assume "l = tmp_loc (wp_canonical w) aid"
    with k show thesis by (cases k rule: rev_cases) (auto simp: tmp_loc_def butlast_append intro: that)
  next
    assume l: "strict_prefix l ?L" "fs_nodes s l = None"
    have "\<not> prefix l P"
    proof
      assume "prefix l P"
      with fs_ok_strict_prefix [of "fs_nodes s" P l] sound dir have "is_dir_at (fs_nodes s) l"
        by (cases "l = P") (auto simp: sound_fs_def strict_prefix_def dest: is_dir_at_Some)
      with l(2) show False by (simp add: is_dir_at_def)
    qed
    with l(1) k have "prefix (P @ [a]) l"
      by (metis append_Cons append_Nil append_assoc prefix_def prefix_order.dual_order.strict_implies_order prefix_same_cases
          prefix_snoc)
    then show thesis using that by (auto simp: prefix_def)
  qed (use k that in simp)
qed

section \<open>Writes that are still to come\<close>

fun pending_write :: "phase \<Rightarrow> (task \<times> workspace_path) option" where
  "pending_write (Prepared tk (CFileWrite w c) md) = Some (tk, w)"
| "pending_write (Granted tk (CFileWrite w c) md) = Some (tk, w)"
| "pending_write p = None"

text \<open>The agents with a reservation.\<close>

definition spenders :: "d_state \<Rightarrow> string set" where
  "spenders s = {aid. \<exists>k m. (k, aid, m) \<in> set (d_spent s)}"

lemma pending_write_Granted: "pending_write (Granted tk act md) = pending_write (Prepared tk act md)"
  by (cases act) simp_all

text \<open>Only \<open>Admit\<close> makes a new one.\<close>

lemma pending_step:
  assumes "d_exec W F ev s = Some s'" and "\<forall>t a. ev \<noteq> Admit t a"
  shows "pending_write (d_phase s' u) = None \<or> pending_write (d_phase s' u) = pending_write (d_phase s u)"
proof (cases ev)
  case (Arrive t q epoch)
  with assms show ?thesis
    by (cases rule: admission_cases [of W "d_app s" q epoch "d_now s"])
      (auto simp: arrive_def split: phase.splits if_splits)
next
  case (Reserve t secs ms)
  with assms obtain tk act md a where ph: "d_phase s t = Prepared tk act md"
    and s': "s' = reserve_step W t tk act md secs ms a s" by (auto split: phase.splits)
  show ?thesis
    by (cases rule: reserve_step_cases [of tk a md W t act secs ms s]) (auto simp: s' ph pending_write_Granted)
qed (use assms in \<open>auto simp: claim_def unclaim_def act_step_def settle_step_def prove_step_def respond_step_def
    answered_def replied_def moved_def cached_def logged_def happened_def Let_def
    split: phase.splits if_splits idem_status.splits prod.splits list.splits sum.splits\<close>)

lemma granted_step:
  assumes "d_exec W F ev s = Some s'" and "d_phase s' u = Granted tk act md"
  shows "d_phase s u = Granted tk act md \<or> tk_agent tk \<in> spenders s'"
proof (cases ev)
  case (Arrive t q epoch)
  with assms show ?thesis
    by (cases rule: admission_cases [of W "d_app s" q epoch "d_now s"])
      (auto simp: arrive_def split: phase.splits if_splits)
next
  case (Reserve t secs ms)
  with assms obtain tk' act' md' a where ph: "d_phase s t = Prepared tk' act' md'"
    and s': "s' = reserve_step W t tk' act' md' secs ms a s" by (auto split: phase.splits)
  show ?thesis
    using assms(2)
    by (cases rule: reserve_step_cases [of tk' a md' W t act' secs ms s])
      (auto simp: s' ph spenders_def split: if_splits)
next
  case (Admit t a)
  with assms obtain c g where "d_phase s t = Owns c g" "s' = admit_call W t c g a s" by (auto split: phase.splits)
  with assms(2) show ?thesis
    by (cases rule: admit_call_cases [of W t c g a s]) (auto split: if_splits)
qed (use assms in \<open>auto simp: claim_def unclaim_def act_step_def settle_step_def prove_step_def respond_step_def
    answered_def replied_def moved_def cached_def logged_def happened_def Let_def
    split: phase.splits if_splits idem_status.splits prod.splits list.splits sum.splits\<close>)

text \<open>Everything but the action itself leaves the tree alone.\<close>

lemma tree_step:
  assumes "d_exec W F ev s = Some s'"
  obtains (same) "st_fs (d_app s') = st_fs (d_app s)"
  | (wrote) t tk w c md r where "d_phase s t = Granted tk (CFileWrite w c) md"
      "file_write (st_fs (d_app s)) w c (tk_action_id tk) = (st_fs (d_app s'), r)"
  using assms
proof (cases rule: d_exec_shape)
  case (acting t sp N late tk act md)
  show ?thesis
  proof (cases act)
    case (CFileWrite w c)
    let ?r = "file_write (st_fs (d_app s)) w c (tk_action_id tk)"
    have "file_write (st_fs (d_app s)) w c (tk_action_id tk) = (st_fs (d_app s'), snd ?r)"
      using acting(3) CFileWrite by (auto simp: act_step_def actuate_def Let_def split: prod.splits)
    with acting(2) CFileWrite wrote show ?thesis by blast
  qed (use acting(3) same in \<open>auto simp: act_step_def actuate_def Let_def split: prod.splits option.splits\<close>)
next
  case (claimed t d c full)
  then show ?thesis by (intro same) (auto simp: claim_def Let_def split: prod.splits idem_status.splits)
qed (use same in \<open>auto simp: unchanged_def\<close>)

lemma books_step:
  assumes "d_exec W F ev s = Some s'"
  shows "st_config (d_app s') = st_config (d_app s) \<and> spenders s \<subseteq> spenders s' \<and>
     (\<forall>aid. registry_get (st_agent_registry (d_app s')) aid = None \<longleftrightarrow>
            registry_get (st_agent_registry (d_app s)) aid = None)"
  using assms
proof (cases rule: d_exec_shape)
  case (granted t secs ms tk act md a)
  then show ?thesis by (auto simp: spenders_def registry_get_def hmap_simps)
next
  case (claimed t d c full)
  then show ?thesis by (auto simp: claim_def Let_def spenders_def split: prod.splits idem_status.splits)
next
  case (acting t sp N late tk act md)
  then show ?thesis by (auto simp: act_step_def Let_def spenders_def split: prod.splits)
qed (auto simp: unchanged_def spenders_def)

section \<open>What every state satisfies\<close>

lemma plain_workspace_kept:
  assumes "plain_workspace s ws ids" and "sound_fs s'" and "links_kept s s'"
    and "fs_nodes s' (path_loc ws) = fs_nodes s (path_loc ws)"
  shows "plain_workspace s' ws ids"
  using assms unfolding plain_workspace_def links_kept_def by (auto simp: is_dir_at_def intro: link_free_mono)

lemma late_write_confined:
  assumes pw: "plain_workspace s ws ids" and ready: "write_ready s (path_loc ws @ [a]) aid w"
    and fw: "file_write s w c aid = (s', r)"
  shows "plain_workspace s' ws ids" and "links_kept s s'"
    and "fs_nodes s' l \<noteq> fs_nodes s l \<Longrightarrow> strict_prefix (path_loc ws) l \<and>
      (\<forall>b. b \<noteq> a \<and> CHR ''.'' \<notin> set b \<longrightarrow> \<not> prefix (path_loc ws @ [b]) l)"
proof -
  from pw have sound: "sound_fs s" and dir: "is_dir_at (fs_nodes s) (path_loc ws)" by (simp_all add: plain_workspace_def)
  from ready have w: "literal_path (wp_canonical w)" "settled_target s (wp_canonical w)" "fresh_action s aid"
    by (simp_all add: write_ready_def)
  show links: "links_kept s s'" by (rule file_write_links [OF sound w fw])
  have changes: "strict_prefix (path_loc ws) l \<and> (\<forall>b. b \<noteq> a \<and> CHR ''.'' \<notin> set b \<longrightarrow> \<not> prefix (path_loc ws @ [b]) l)"
    if ch: "fs_nodes s' l \<noteq> fs_nodes s l" for l
  proof -
    obtain n k where "l = path_loc ws @ n # k" "n = a \<or> n = a @ ''.ama.'' @ aid @ ''.tmp''"
      by (rule late_write_changes [OF sound ready dir fw ch])
    then show ?thesis by (auto simp: strict_prefix_def prefix_def)
  qed
  then have "fs_nodes s' (path_loc ws) = fs_nodes s (path_loc ws)" by (metis prefix_order.less_irrefl)
  moreover from file_write_settled [OF sound w fw] have "same_env s s'" "fs_ok (fs_nodes s')" by blast+
  then have "sound_fs s'" using sound same_env_fault [of s s'] by (simp add: sound_fs_def)
  ultimately show "plain_workspace s' ws ids" using plain_workspace_kept [OF pw _ links] by blast
  from changes show "fs_nodes s' l \<noteq> fs_nodes s l \<Longrightarrow> strict_prefix (path_loc ws) l \<and>
      (\<forall>b. b \<noteq> a \<and> CHR ''.'' \<notin> set b \<longrightarrow> \<not> prefix (path_loc ws @ [b]) l)" .
qed

definition files_safe :: "ama_config \<Rightarrow> fs_state \<Rightarrow> d_state \<Rightarrow> bool" where
  "files_safe cfg s0 s \<longleftrightarrow>
     st_config (d_app s) = cfg \<and> plain_workspace (st_fs (d_app s)) (cf_workspace_root cfg) (agent_ids cfg) \<and>
     links_kept s0 (st_fs (d_app s)) \<and>
     (\<forall>aid. registry_get (st_agent_registry (d_app s)) aid \<noteq> None \<longrightarrow> aid \<in> agent_ids cfg) \<and>
     (\<forall>t tk w. pending_write (d_phase s t) = Some (tk, w) \<longrightarrow>
        write_ready (st_fs (d_app s)) (path_loc (cf_workspace_root cfg) @ [tk_agent tk]) (tk_action_id tk) w) \<and>
     (\<forall>t tk act md. d_phase s t = Granted tk act md \<longrightarrow> tk_agent tk \<in> spenders s) \<and>
     (\<forall>l. fs_nodes (st_fs (d_app s)) l \<noteq> fs_nodes s0 l \<longrightarrow> confined_to cfg (spenders s) l)"

lemma confined_to_mono: "confined_to cfg A l \<Longrightarrow> A \<subseteq> B \<Longrightarrow> confined_to cfg B l"
  by (auto simp: confined_to_def)

text \<open>Preparing a write.\<close>

lemma admit_ready:
  assumes safe: "files_safe cfg s0 s" and wf: "wf_agents U (cf_agents cfg)" and fresh: "fresh_action s0 a"
    and step: "d_exec W F (Admit t a) s = Some s'" and new: "pending_write (d_phase s' t) = Some (tk, w)"
  shows "write_ready (st_fs (d_app s)) (path_loc (cf_workspace_root cfg) @ [tk_agent tk]) (tk_action_id tk) w"
proof -
  let ?fs = "st_fs (d_app s)" and ?ws = "cf_workspace_root cfg"
  from safe have cfg: "st_config (d_app s) = cfg" and pw: "plain_workspace ?fs ?ws (agent_ids cfg)"
    and links: "links_kept s0 ?fs" by (simp_all add: files_safe_def)
  from step obtain c g where "d_phase s t = Owns c g" and s': "s' = admit_call W t c g a s"
    by (auto split: phase.splits)
  with new obtain rq ct md where known: "registry_get (st_agent_registry (d_app s)) (ca_agent c) \<noteq> None"
    and tk: "tk_agent tk = ca_agent c" "tk_action_id tk = a"
    and prep: "prepare (w_host W) ?fs rq (st_config (d_app s)) (Some (ca_agent c)) = Inr (CFileWrite w ct, md)"
    by (auto simp: admit_call_def Let_def split: sum.splits option.splits canonical_action.splits
        elim!: pending_write.elims)
  from prep cfg have wp: "new_with_agent ?fs (rq_target rq) ?ws (Some (ca_agent c)) = Inr w"
    by (simp add: prepare_Inr_iff canonicalize_file_write)
  from safe known have id: "ca_agent c \<in> agent_ids cfg" by (simp add: files_safe_def)
  with wf obtain ca where ca: "wf_agent U ca" "ac_agent_id ca = ca_agent c"
    by (auto simp: agent_ids_def hm_keys_get wf_agents_def)
  from pw id have sound: "sound_fs ?fs" and ws: "literal_path ?ws"
    and free: "link_free (fs_nodes ?fs) (path_loc ?ws @ [ca_agent c])" by (simp_all add: plain_workspace_def)
  from agent_root [OF ws ca(1)] ca(2) have root: "literal_path (effective_root ?ws (Some (ca_agent c)))"
    "path_loc (effective_root ?ws (Some (ca_agent c))) = path_loc ?ws @ [ca_agent c]" by simp_all
  have "root_loc ?fs ?ws (Some (ca_agent c)) = path_loc ?ws @ [ca_agent c]"
    using root_loc_link_free [OF sound root(1)] free by (simp add: root_loc_def root(2))
  with write_ready_new [OF sound root(1) wp fresh_action_kept [OF fresh links]] tk show ?thesis by simp
qed

lemma pending_ready:
  assumes safe: "files_safe cfg s0 s" and wf: "wf_agents U (cf_agents cfg)"
    and fresh: "\<forall>t a. ev = Admit t a \<longrightarrow> fresh_action s0 a"
    and step: "d_exec W F ev s = Some s'" and new: "pending_write (d_phase s' u) = Some (tk, w)"
  shows "write_ready (st_fs (d_app s)) (path_loc (cf_workspace_root cfg) @ [tk_agent tk]) (tk_action_id tk) w"
proof (cases "\<exists>a. ev = Admit u a")
  case True
  then obtain a where ev: "ev = Admit u a" by blast
  with fresh have "fresh_action s0 a" by blast
  from admit_ready [OF safe wf this step [unfolded ev] new] show ?thesis .
next
  case False
  have "pending_write (d_phase s' u) = None \<or> pending_write (d_phase s' u) = pending_write (d_phase s u)"
  proof (cases "\<exists>t a. ev = Admit t a")
    case True
    with False obtain t a where ev: "ev = Admit t a" "t \<noteq> u" by blast
    with step obtain c g where "s' = admit_call W t c g a s" by (auto split: phase.splits)
    with ev(2) show ?thesis by (cases rule: admit_call_cases [of W t c g a s]) auto
  next
    case False
    with pending_step [OF step] show ?thesis by blast
  qed
  with new safe show ?thesis by (auto simp: files_safe_def)
qed

text \<open>The act of a granted write.\<close>

lemma granted_write:
  assumes safe: "files_safe cfg s0 s" and wf: "wf_agents U (cf_agents cfg)"
    and ph: "d_phase s t = Granted tk (CFileWrite w c) md"
    and fw: "file_write (st_fs (d_app s)) w c (tk_action_id tk) = (s', r)"
  shows "plain_workspace s' (cf_workspace_root cfg) (agent_ids cfg)" and "links_kept (st_fs (d_app s)) s'"
    and "fs_nodes s' l \<noteq> fs_nodes (st_fs (d_app s)) l \<Longrightarrow> confined_to cfg (spenders s) l"
proof -
  from ph have "pending_write (d_phase s t) = Some (tk, w)" by simp
  with safe ph have ready: "write_ready (st_fs (d_app s)) (path_loc (cf_workspace_root cfg) @ [tk_agent tk]) (tk_action_id tk) w"
    and spent: "tk_agent tk \<in> spenders s" and pw: "plain_workspace (st_fs (d_app s)) (cf_workspace_root cfg) (agent_ids cfg)"
    unfolding files_safe_def by blast+
  note L = late_write_confined [OF pw ready fw]
  from L(1,2) show "plain_workspace s' (cf_workspace_root cfg) (agent_ids cfg)" "links_kept (st_fs (d_app s)) s'" .
  assume ch: "fs_nodes s' l \<noteq> fs_nodes (st_fs (d_app s)) l"
  have "CHR ''.'' \<notin> set b \<and> b \<noteq> tk_agent tk" if "b \<in> agent_ids cfg - spenders s" for b
    using that spent wf wf_agent_id_no_sep(2) by (auto simp: agent_ids_def hm_keys_get wf_agents_def)
  with L(3) [OF ch] show "confined_to cfg (spenders s) l" by (auto simp: confined_to_def)
qed

lemma files_safe_step:
  assumes safe: "files_safe cfg s0 s" and wf: "wf_agents U (cf_agents cfg)"
    and fresh: "\<forall>t a. ev = Admit t a \<longrightarrow> fresh_action s0 a" and step: "d_exec W F ev s = Some s'"
  shows "files_safe cfg s0 s'"
proof -
  let ?fs = "st_fs (d_app s)" and ?fs' = "st_fs (d_app s')" and ?ws = "cf_workspace_root cfg"
  note B = books_step [OF step]
  from safe have links: "links_kept s0 ?fs" and old: "\<And>l. fs_nodes ?fs l \<noteq> fs_nodes s0 l \<Longrightarrow> confined_to cfg (spenders s) l"
    by (simp_all add: files_safe_def)
  from step have T: "plain_workspace ?fs' ?ws (agent_ids cfg) \<and> links_kept ?fs ?fs' \<and>
      (\<forall>l. fs_nodes ?fs' l \<noteq> fs_nodes ?fs l \<longrightarrow> confined_to cfg (spenders s) l)"
  proof (cases rule: tree_step)
    case same
    with safe show ?thesis by (simp add: files_safe_def)
  next
    case (wrote t tk w c md r)
    from granted_write [OF safe wf wrote] show ?thesis by blast
  qed
  have "confined_to cfg (spenders s') l" if "fs_nodes ?fs' l \<noteq> fs_nodes s0 l" for l
  proof -
    from that T old have "confined_to cfg (spenders s) l" by (cases "fs_nodes ?fs l = fs_nodes s0 l") auto
    then show ?thesis by (rule confined_to_mono) (use B in blast)
  qed
  moreover have "write_ready ?fs' (path_loc ?ws @ [tk_agent tk]) (tk_action_id tk) w"
    if "pending_write (d_phase s' u) = Some (tk, w)" for u tk w
    using write_ready_kept [OF pending_ready [OF safe wf fresh step that]] T by blast
  moreover have "tk_agent tk \<in> spenders s'" if "d_phase s' u = Granted tk act md" for u tk act md
    using granted_step [OF step that] safe B unfolding files_safe_def by blast
  moreover have "links_kept s0 ?fs'" using links T by (blast intro: links_kept_trans)
  ultimately show ?thesis using safe T B unfolding files_safe_def by metis
qed

lemma files_safe_run:
  assumes "d_run W F es s = Some s'" and "files_safe cfg s0 s" and "wf_agents U (cf_agents cfg)"
    and "\<forall>t a. Admit t a \<in> set es \<longrightarrow> fresh_action s0 a"
  shows "files_safe cfg s0 s'"
  using assms
proof (induction es arbitrary: s)
  case (Cons e es)
  then obtain s1 where "d_exec W F e s = Some s1" "d_run W F es s1 = Some s'" by (auto split: option.splits)
  with Cons.IH [of s1] files_safe_step [OF Cons.prems(2,3), of e W F s1] Cons.prems(3,4) show ?case by auto
qed simp

section \<open>From boot on\<close>

lemma boot_files_safe:
  assumes "plain_workspace (st_fs st0) (cf_workspace_root (st_config st0)) (agent_ids (st_config st0))"
    and "registry_matches (st_config st0) (st_agent_registry st0)"
  shows "files_safe (st_config st0) (st_fs st0) (d_boot st0)"
  using assms registry_matches_dom [OF assms(2)]
  by (auto simp: files_safe_def d_boot_def agent_ids_def hm_keys_get)



end
