(* ===== verification/File_Steps.thy ===== *)
theory File_Steps
  imports File_Confinement
begin

text \<open>
  \<open>file_write\<close> and \<open>file_read\<close> cut at the calls they make to the kernel, so that several of them
  can interleave: the daemon runs handlers on several threads. A program counter says which call is
  next and what the function holds at that point; a step makes that call. Run alone, the steps
  compute \<open>file_write\<close> and \<open>file_read\<close>.
\<close>

section \<open>Jobs and their program points\<close>

datatype file_job =
    WriteJob (job_path: workspace_path) bounded_bytes string
  | ReadJob (job_path: workspace_path) nat

text \<open>
  In order: \<open>verify_no_symlinks\<close> before \<open>exists\<close> and before \<open>symlink_metadata\<close>, the two calls on the
  target, the parent's \<open>exists\<close>; \<open>create_dir_all\<close> before a \<open>mkdir\<close> (with the paths to make after it,
  and whether this is the second try) and before the \<open>is_dir\<close> that follows a failure; the parent's
  mode; \<open>fs::write\<close> before \<open>open\<close> and before a \<open>write\<close> (with the bytes written so far); the mode, the
  rename, the removal of the temporary file; for a read, \<open>open\<close> (with the length \<open>stat\<close> gave) and
  \<open>read_exact\<close> (with the opened file's bytes); and the two ends.
\<close>

datatype file_pc =
    Verify string "component list"
  | VerifyStat string "component list"
  | Exists
  | Stat
  | ParentExists
  | MakeDir string "string list" bool
  | TestDir string "string list" string
  | ParentMode
  | OpenTmp
  | Writing location nat
  | TmpMode
  | Install
  | Discard ama_error
  | OpenTarget nat
  | ReadTarget nat bytes
  | Wrote "ama_error + u64"
  | Gave "ama_error + file_read_result"

definition file_start :: "file_job \<Rightarrow> file_pc" where
  "file_start job = Verify [] (path_components (wp_canonical (job_path job)))"

definition job_refused :: "file_job \<Rightarrow> ama_error \<Rightarrow> file_pc" where
  "job_refused job e = (case job of WriteJob _ _ _ \<Rightarrow> Wrote (Inl e) | ReadJob _ _ \<Rightarrow> Gave (Inl e))"

section \<open>The steps\<close>

text \<open>Back from making a directory: the next one towards the target, or the mode of the parent.\<close>

definition dir_made :: "string list \<Rightarrow> file_pc" where
  "dir_made stack = (case stack of [] \<Rightarrow> ParentMode | p # ps \<Rightarrow> MakeDir p ps True)"

definition mkdir_error :: "string \<Rightarrow> file_pc" where
  "mkdir_error e = Wrote (Inl (unavailable (''cannot create directories: '' @ e)))"

definition make_dir_step :: "fs_state \<Rightarrow> string \<Rightarrow> string list \<Rightarrow> bool \<Rightarrow> fs_state \<times> file_pc" where
  "make_dir_step s p stack again =
     (if p = [] then (s, dir_made stack)
      else (case fs_mkdir s p of
        (s1, Inr u) \<Rightarrow> (s1, dir_made stack)
      | (s1, Inl e) \<Rightarrow>
          if e = enoent \<and> \<not> again
          then (case path_parent p of
                  None \<Rightarrow> (s1, mkdir_error no_tree)
                | Some q \<Rightarrow> (s1, MakeDir q (p # stack) False))
          else (s1, TestDir p stack e)))"

text \<open>How many bytes \<open>fs::write\<close> gets to write before it ends or fails.\<close>

definition write_limit :: "fs_state \<Rightarrow> string \<Rightarrow> string \<Rightarrow> nat" where
  "write_limit s tmp content =
     (case fs_fault s OpWrite tmp of
        None \<Rightarrow> length content
      | Some e \<Rightarrow> min (unwrap_or 0 (fs_short_write s tmp)) (length content))"

definition read_end :: "fs_state \<Rightarrow> string \<Rightarrow> nat \<Rightarrow> nat \<Rightarrow> bytes \<Rightarrow> ama_error + file_read_result" where
  "read_end s target max_bytes total_bytes file =
     (let read_size = min total_bytes max_bytes in
      rbind (map_err (\<lambda>e. unavailable (''read error: '' @ e)) (fs_read_exact s target file read_size))
        (\<lambda>buf.
      rbind (map_err (\<lambda>_. Validation ''encoding_error''
               ''file content is not valid UTF-8 (P0 is text-only)'') (from_utf8 buf)) (\<lambda>content.
      Inr \<lparr>fr_content = content, fr_bytes_returned = word_of_nat (length content),
           fr_total_bytes = word_of_nat total_bytes, fr_truncated = (total_bytes > max_bytes)\<rparr>)))"

definition write_step ::
  "string \<Rightarrow> string \<Rightarrow> string \<Rightarrow> nat \<Rightarrow> fs_state \<Rightarrow> file_pc \<Rightarrow> fs_state \<times> file_pc" where
  "write_step target content tmp n s pc =
     (case pc of
        ParentExists \<Rightarrow>
          (case path_parent target of
             None \<Rightarrow> (s, OpenTmp)
           | Some parent \<Rightarrow> (s, if fs_exists s parent then OpenTmp else MakeDir parent [] False))
      | MakeDir p stack again \<Rightarrow> make_dir_step s p stack again
      | TestDir p stack e \<Rightarrow> (s, if fs_is_dir s p then dir_made stack else mkdir_error e)
      | ParentMode \<Rightarrow>
          (case path_parent target of
             None \<Rightarrow> (s, OpenTmp)
           | Some parent \<Rightarrow>
               (case fs_set_permissions s parent mode_755 of
                  (s1, Inl e) \<Rightarrow> (s1, Wrote (Inl (unavailable (''cannot set dir permissions: '' @ e))))
                | (s1, Inr u) \<Rightarrow> (s1, OpenTmp)))
      | OpenTmp \<Rightarrow>
          (case fs_write_loc s tmp of
             Inl e \<Rightarrow> (s, Discard (unavailable (''write failed: '' @ e)))
           | Inr l \<Rightarrow> (set_node l (Some (file_with s l [])) s, Writing l 0))
      | Writing l k \<Rightarrow>
          if k < write_limit s tmp content
          then (let k' = min (k + Suc n) (write_limit s tmp content)
                in (set_node l (Some (file_with s l (take k' content))) s, Writing l k'))
          else (case fs_fault s OpWrite tmp of
                  None \<Rightarrow> (s, TmpMode)
                | Some e \<Rightarrow> (s, Discard (unavailable (''write failed: '' @ e))))
      | TmpMode \<Rightarrow> (fst (fs_set_permissions s tmp mode_644), Install)
      | Install \<Rightarrow>
          (case fs_rename s tmp target of
             (s1, Inl e) \<Rightarrow> (s1, Discard (unavailable (''atomic rename failed: '' @ e)))
           | (s1, Inr u) \<Rightarrow> (s1, Wrote (Inr (word_of_nat (length content)))))
      | Discard e \<Rightarrow> (fst (fs_remove_file s tmp), Wrote (Inl e))
      | _ \<Rightarrow> (s, pc))"

definition read_step :: "string \<Rightarrow> nat \<Rightarrow> fs_state \<Rightarrow> file_pc \<Rightarrow> file_pc" where
  "read_step target max_bytes s pc =
     (case pc of
        OpenTarget len \<Rightarrow>
          (case fs_open_read s target of
             Inl e \<Rightarrow> Gave (Inl (unavailable (''cannot open: '' @ e)))
           | Inr file \<Rightarrow> ReadTarget len file)
      | ReadTarget len file \<Rightarrow> Gave (read_end s target max_bytes len file)
      | _ \<Rightarrow> pc)"

text \<open>The checks, which only look.\<close>

definition stat_step :: "file_job \<Rightarrow> fs_state \<Rightarrow> file_pc" where
  "stat_step job s =
     (case (job, fs_lstat s (wp_canonical (job_path job))) of
        (WriteJob _ _ _, Inl e) \<Rightarrow> Wrote (Inl (unavailable (''cannot stat target: '' @ e)))
      | (WriteJob _ _ _, Inr meta) \<Rightarrow>
          if node_is_file meta then ParentExists
          else Wrote (Inl (invalid_target ''target is not a regular file''))
      | (ReadJob _ _, Inl e) \<Rightarrow> Gave (Inl (unavailable (''cannot stat: '' @ e)))
      | (ReadJob _ _, Inr meta) \<Rightarrow>
          if node_is_file meta then OpenTarget (node_len meta)
          else Gave (Inl (invalid_target ''not a regular file'')))"

definition exists_step :: "file_job \<Rightarrow> fs_state \<Rightarrow> file_pc" where
  "exists_step job s =
     (if fs_exists s (wp_canonical (job_path job)) then Stat
      else (case job of WriteJob _ _ _ \<Rightarrow> ParentExists
                      | ReadJob _ _ \<Rightarrow> Gave (Inl (unavailable ''file does not exist''))))"

definition verify_stat_step :: "file_job \<Rightarrow> fs_state \<Rightarrow> string \<Rightarrow> component list \<Rightarrow> file_pc" where
  "verify_stat_step job s check cs =
     (case fs_lstat s check of
        Inl e \<Rightarrow> job_refused job (unavailable (''lstat failed on '' @ check @ '': '' @ e))
      | Inr meta \<Rightarrow>
          if node_is_symlink meta then job_refused job (invalid_target (''symlink in path: '' @ check))
          else Verify check cs)"

text \<open>One step; \<open>n\<close> bounds how much one \<open>write\<close> takes.\<close>

fun file_step :: "file_job \<Rightarrow> nat \<Rightarrow> fs_state \<Rightarrow> file_pc \<Rightarrow> fs_state \<times> file_pc" where
  "file_step job n s (Verify check []) = (s, Exists)"
| "file_step job n s (Verify check (c # cs)) =
     (let check' = path_join check (component_str c)
      in (s, if fs_exists s check' then VerifyStat check' cs else Verify check' cs))"
| "file_step job n s (VerifyStat check cs) = (s, verify_stat_step job s check cs)"
| "file_step job n s Exists = (s, exists_step job s)"
| "file_step job n s Stat = (s, stat_step job s)"
| "file_step job n s pc =
     (case job of
        WriteJob path content aid \<Rightarrow>
          write_step (wp_canonical path) (bounded_str content) (tmp_path (wp_canonical path) aid) n s pc
      | ReadJob path max_bytes \<Rightarrow> (s, read_step (wp_canonical path) max_bytes s pc))"

text \<open>One job alone, with the sizes of its writes.\<close>

fun job_run :: "file_job \<Rightarrow> nat list \<Rightarrow> fs_state \<times> file_pc \<Rightarrow> fs_state \<times> file_pc" where
  "job_run job [] c = c"
| "job_run job (n # ns) c = job_run job ns (file_step job n (fst c) (snd c))"

lemma job_run_append: "job_run job (ms @ ns) c = job_run job ns (job_run job ms c)"
  by (induction ms arbitrary: c) auto

text \<open>Getting from one configuration to another.\<close>

definition leads :: "file_job \<Rightarrow> fs_state \<times> file_pc \<Rightarrow> fs_state \<times> file_pc \<Rightarrow> bool" where
  "leads job c c' \<longleftrightarrow> (\<exists>ns. job_run job ns c = c')"

lemma leads_refl [simp, intro]: "leads job c c"
  unfolding leads_def by (intro exI [of _ "[]"]) simp

lemma leads_trans [trans]: "leads job c c' \<Longrightarrow> leads job c' c'' \<Longrightarrow> leads job c c''"
  unfolding leads_def by (metis job_run_append)

lemma leads_step: "file_step job n s pc = c' \<Longrightarrow> leads job c' c'' \<Longrightarrow> leads job (s, pc) c''"
proof -
  assume "file_step job n s pc = c'" "leads job c' c''"
  then obtain ns where "job_run job ns c' = c''" by (auto simp: leads_def)
  then show ?thesis
    unfolding leads_def using \<open>file_step job n s pc = c'\<close> by (intro exI [of _ "n # ns"]) simp
qed

section \<open>A job alone computes the function\<close>

lemma verify_alone:
  "leads job (s, Verify check cs)
     (s, case verify_components s check cs of Inl e \<Rightarrow> job_refused job e | Inr u \<Rightarrow> Exists)"
proof (induction cs arbitrary: check)
  case Nil
  show ?case by (rule leads_step [of _ 0, OF refl]) simp
next
  case (Cons c cs)
  let ?c = "path_join check (component_str c)"
  show ?case
  proof (cases "fs_exists s ?c")
    case False
    with Cons [of ?c] show ?thesis by (intro leads_step [of _ 0, OF refl]) (simp add: Let_def)
  next
    case True
    then have "file_step job 0 s (Verify check (c # cs)) = (s, VerifyStat ?c cs)" by (simp add: Let_def)
    then show ?thesis
    proof (rule leads_step)
      show "leads job (s, VerifyStat ?c cs)
        (s, case verify_components s check (c # cs) of Inl e \<Rightarrow> job_refused job e | Inr u \<Rightarrow> Exists)"
        using True Cons [of ?c]
        by (intro leads_step [of _ 0, OF refl])
          (auto simp: verify_stat_step_def result_simps split: sum.splits)
    qed
  qed
qed

text \<open>\<open>create_dir_all\<close>, with the paths that wait for it.\<close>

definition after_dir :: "string list \<Rightarrow> string + unit \<Rightarrow> file_pc" where
  "after_dir stack r = (case r of Inl e \<Rightarrow> mkdir_error e | Inr u \<Rightarrow> dir_made stack)"

lemma after_dir_simps [simp]: "after_dir stack (Inl e) = mkdir_error e" "after_dir stack (Inr u) = dir_made stack"
  by (simp_all add: after_dir_def)

lemma make_dir_leads:
  "make_dir_step s p stack again = c \<Longrightarrow> leads (WriteJob path content aid) (s, MakeDir p stack again) c"
  by (rule leads_step [of _ 0, OF _ leads_refl]) (simp add: write_step_def)

lemma test_dir_leads:
  "leads (WriteJob path content aid) (s, TestDir p stack e)
     (s, if fs_is_dir s p then dir_made stack else mkdir_error e)"
  by (rule leads_step [of _ 0, OF _ leads_refl]) (simp add: write_step_def)

text \<open>One \<open>mkdir\<close> with the test after a failure.\<close>

definition mkdir_tested :: "fs_state \<Rightarrow> string \<Rightarrow> fs_state \<times> (string + unit)" where
  "mkdir_tested s p =
     (case fs_mkdir s p of
        (s1, Inr u) \<Rightarrow> (s1, Inr ())
      | (s1, Inl e) \<Rightarrow> if fs_is_dir s1 p then (s1, Inr ()) else (s1, Inl e))"

lemma mkdir_tested_alone:
  assumes "p \<noteq> []" and "again \<or> snd (fs_mkdir s p) \<noteq> Inl enoent"
  shows "leads (WriteJob path content aid) (s, MakeDir p stack again)
     (fst (mkdir_tested s p), after_dir stack (snd (mkdir_tested s p)))"
proof -
  obtain s1 r where m: "fs_mkdir s p = (s1, r)" by (cases "fs_mkdir s p")
  show ?thesis
  proof (cases r)
    case (Inr u)
    with assms m show ?thesis by (intro make_dir_leads) (simp add: make_dir_step_def mkdir_tested_def)
  next
    case (Inl e)
    with assms m have "make_dir_step s p stack again = (s1, TestDir p stack e)" by (auto simp: make_dir_step_def)
    from leads_trans [OF make_dir_leads [OF this] test_dir_leads] m Inl show ?thesis
      by (auto simp: mkdir_tested_def split: if_splits)
  qed
qed

lemma create_dir_all_rec:
  "fs_create_dir_all s p =
     (if p = [] then (s, Inr ())
      else if snd (fs_mkdir s p) \<noteq> Inl enoent then mkdir_tested s p
      else (case path_parent p of
              None \<Rightarrow> (fst (fs_mkdir s p), Inl no_tree)
            | Some q \<Rightarrow>
                (case fs_create_dir_all (fst (fs_mkdir s p)) q of
                   (s2, Inl e2) \<Rightarrow> (s2, Inl e2)
                 | (s2, Inr u) \<Rightarrow> mkdir_tested s2 p)))"
  by (subst fs_create_dir_all.simps) (auto simp: mkdir_tested_def split: prod.splits sum.splits option.splits)

lemma make_dirs_alone:
  "leads (WriteJob path content aid) (s, MakeDir p stack False)
     (fst (fs_create_dir_all s p), after_dir stack (snd (fs_create_dir_all s p)))"
proof (induction s p arbitrary: stack rule: fs_create_dir_all.induct)
  case (1 s p)
  obtain s1 r where m: "fs_mkdir s p = (s1, r)" by (cases "fs_mkdir s p")
  consider "p = []" | "p \<noteq> []" "r \<noteq> Inl enoent" | "p \<noteq> []" "r = Inl enoent" by blast
  then show ?case
  proof cases
    case 1
    then show ?thesis by (intro make_dir_leads) (simp add: make_dir_step_def create_dir_all_rec [of s "[]"])
  next
    case 2
    with m have "fs_create_dir_all s p = mkdir_tested s p" by (simp add: create_dir_all_rec [of s p])
    with mkdir_tested_alone [of p False s path content aid stack] 2 m show ?thesis by simp
  next
    case 3
    show ?thesis
    proof (cases "path_parent p")
      case None
      with 3 m show ?thesis
        by (intro make_dir_leads) (simp add: make_dir_step_def create_dir_all_rec [of s p])
    next
      case (Some q)
      obtain s2 r2 where c: "fs_create_dir_all s1 q = (s2, r2)" by (cases "fs_create_dir_all s1 q")
      from 3 m Some have "make_dir_step s p stack False = (s1, MakeDir q (p # stack) False)"
        by (simp add: make_dir_step_def)
      from leads_trans [OF make_dir_leads [OF this] "1.IH" [OF 3(1) m [symmetric] 3(2) _ Some, of "p # stack"]]
      have up: "leads (WriteJob path content aid) (s, MakeDir p stack False) (s2, after_dir (p # stack) r2)"
        using c by simp
      show ?thesis
      proof (cases r2)
        case (Inl e2)
        with up 3 m Some c show ?thesis by (simp add: create_dir_all_rec [of s p])
      next
        case (Inr u)
        with up have "leads (WriteJob path content aid) (s, MakeDir p stack False) (s2, MakeDir p stack True)"
          by (simp add: dir_made_def)
        from leads_trans [OF this mkdir_tested_alone [OF 3(1)]] 3 m Some c Inr show ?thesis
          by (simp add: create_dir_all_rec [of s p])
      qed
    qed
  qed
qed

text \<open>The parent, then the temporary file and the rename.\<close>

lemma write_leads:
  "write_step (wp_canonical path) (bounded_str content) (tmp_path (wp_canonical path) aid) n s pc = c \<Longrightarrow>
     pc \<in> {ParentExists, ParentMode, OpenTmp, TmpMode, Install} \<or> pc \<in> range Discard \<or> (\<exists>l k. pc = Writing l k) \<Longrightarrow>
     leads (WriteJob path content aid) (s, pc) c"
  by (rule leads_step [of _ n, OF _ leads_refl]) auto

lemma parent_alone:
  assumes "t = wp_canonical path"
  shows "leads (WriteJob path content aid) (s, ParentExists)
     (case ensure_parent s t of (s1, Inl e) \<Rightarrow> (s1, Wrote (Inl e)) | (s1, Inr u) \<Rightarrow> (s1, OpenTmp))"
proof (cases "\<exists>q. path_parent t = Some q \<and> \<not> fs_exists s q")
  case False
  with assms show ?thesis
    by (intro write_leads [of _ _ _ 0]) (auto simp: write_step_def ensure_parent_def split: option.splits)
next
  case True
  then obtain q where q: "path_parent t = Some q" "\<not> fs_exists s q" by blast
  obtain s1 r where c: "fs_create_dir_all s q = (s1, r)" by (cases "fs_create_dir_all s q")
  have "leads (WriteJob path content aid) (s, ParentExists) (s, MakeDir q [] False)"
    using q assms by (intro write_leads [of _ _ _ 0]) (auto simp: write_step_def)
  from leads_trans [OF this make_dirs_alone] c
  have made: "leads (WriteJob path content aid) (s, ParentExists) (s1, after_dir [] r)" by simp
  show ?thesis
  proof (cases r)
    case (Inl e)
    with made q c show ?thesis by (simp add: ensure_parent_def mkdir_error_def)
  next
    case (Inr u)
    obtain s2 r2 where m: "fs_set_permissions s1 q mode_755 = (s2, r2)"
      by (cases "fs_set_permissions s1 q mode_755")
    from made Inr have "leads (WriteJob path content aid) (s, ParentExists) (s1, ParentMode)" by (simp add: dir_made_def)
    also have "leads (WriteJob path content aid) (s1, ParentMode)
      (case ensure_parent s t of (s1, Inl e) \<Rightarrow> (s1, Wrote (Inl e)) | (s1, Inr u) \<Rightarrow> (s1, OpenTmp))"
      using q c Inr m assms
      by (intro write_leads [of _ _ _ 0]) (auto simp: write_step_def ensure_parent_def split: sum.splits)
    finally show ?thesis .
  qed
qed

lemma discard_leads:
  "leads (WriteJob path content aid) (s, Discard e)
     (fst (fs_remove_file s (tmp_path (wp_canonical path) aid)), Wrote (Inl e))"
  by (intro write_leads [of _ _ _ 0]) (auto simp: write_step_def)

text \<open>The bytes are written in one go, or up to where writing fails.\<close>

lemma set_node_again: "set_node l (Some (file_with (set_node l (Some (file_with s l d)) s) l d'))
    (set_node l (Some (file_with s l d)) s) = set_node l (Some (file_with s l d')) s"
  by (cases s) (simp add: set_node_def file_with_def split: option.splits fs_node.splits)

lemma write_limit_set [simp]: "write_limit (set_node l n s) = write_limit s" "fs_fault (set_node l n s) = fs_fault s"
  by (simp_all add: write_limit_def set_node_def fun_eq_iff split: option.split)

lemma writing_alone:
  assumes "t = tmp_path (wp_canonical path) aid" and "d = bounded_str content" and "fs_write_loc s t = Inr l"
  shows "leads (WriteJob path content aid) (s, OpenTmp)
     (set_node l (Some (file_with s l (take (write_limit s t d) d))) s,
      case fs_fault s OpWrite t of None \<Rightarrow> TmpMode | Some e \<Rightarrow> Discard (unavailable (''write failed: '' @ e)))"
proof -
  let ?J = "WriteJob path content aid" and ?L = "write_limit s t d"
  define s1 where "s1 = set_node l (Some (file_with s l [])) s"
  define s2 where "s2 = set_node l (Some (file_with s l (take ?L d))) s"
  have "leads ?J (s, OpenTmp) (s1, Writing l 0)"
    using assms by (intro write_leads [of _ _ _ 0]) (auto simp: write_step_def s1_def)
  also have "leads ?J (s1, Writing l 0) (s2, Writing l ?L)"
  proof (cases "?L = 0")
    case False
    then show ?thesis
      using assms set_node_again [of l s "[]"]
      by (intro write_leads [of _ _ _ ?L]) (auto simp: write_step_def s1_def s2_def Let_def)
  qed (simp add: s1_def s2_def)
  also have "leads ?J (s2, Writing l ?L)
    (s2, case fs_fault s OpWrite t of None \<Rightarrow> TmpMode | Some e \<Rightarrow> Discard (unavailable (''write failed: '' @ e)))"
    using assms by (intro write_leads [of _ _ _ 0]) (auto simp: write_step_def s2_def split: option.splits)
  finally show ?thesis by (simp add: s2_def)
qed

lemma fs_write_limited:
  "fs_write s p d =
     (case fs_write_loc s p of
        Inl e \<Rightarrow> (s, Inl e)
      | Inr l \<Rightarrow> (set_node l (Some (file_with s l (take (write_limit s p d) d))) s,
                 case fs_fault s OpWrite p of None \<Rightarrow> Inr () | Some e \<Rightarrow> Inl e))"
  by (auto simp: fs_write_def write_limit_def min_def split: sum.splits option.splits)

lemma write_alone:
  assumes "t = wp_canonical path" and "tmp = tmp_path t aid" and "d = bounded_str content"
  shows "leads (WriteJob path content aid) (s, OpenTmp)
     (case write_and_rename s t tmp d of (s', r) \<Rightarrow> (s', Wrote r))"
proof (cases "fs_write_loc s tmp")
  case (Inl e)
  with assms have "leads (WriteJob path content aid) (s, OpenTmp) (s, Discard (unavailable (''write failed: '' @ e)))"
    by (intro write_leads [of _ _ _ 0]) (auto simp: write_step_def)
  from leads_trans [OF this discard_leads] assms Inl show ?thesis
    by (simp add: write_and_rename_def fs_write_limited)
next
  case (Inr l)
  have "tmp = tmp_path (wp_canonical path) aid" using assms by simp
  note W = writing_alone [OF this assms(3) Inr] and L = fs_write_limited [of s tmp d]
  define s1 where "s1 = set_node l (Some (file_with s l (take (write_limit s tmp d) d))) s"
  show ?thesis
  proof (cases "fs_fault s OpWrite tmp")
    case (Some e)
    with W have "leads (WriteJob path content aid) (s, OpenTmp) (s1, Discard (unavailable (''write failed: '' @ e)))"
      by (simp add: s1_def)
    from leads_trans [OF this discard_leads] assms Some Inr L show ?thesis
      by (simp add: write_and_rename_def s1_def)
  next
    case None
    define s2 where "s2 = fst (fs_set_permissions s1 tmp mode_644)"
    from W assms None have "leads (WriteJob path content aid) (s, OpenTmp) (s1, TmpMode)" by (simp add: s1_def)
    also have "leads (WriteJob path content aid) (s1, TmpMode) (s2, Install)"
      using assms by (intro write_leads [of _ _ _ 0]) (auto simp: write_step_def s2_def)
    finally have up: "leads (WriteJob path content aid) (s, OpenTmp) (s2, Install)" .
    obtain s3 r where rn: "fs_rename s2 tmp t = (s3, r)" by (cases "fs_rename s2 tmp t")
    have out: "write_and_rename s t tmp d =
        (case r of Inl e \<Rightarrow> (fst (fs_remove_file s3 tmp), Inl (unavailable (''atomic rename failed: '' @ e)))
                 | Inr u \<Rightarrow> (s3, Inr (word_of_nat (length d))))"
      using L Inr None rn by (cases r) (simp_all add: write_and_rename_def s1_def s2_def Let_def)
    show ?thesis
    proof (cases r)
      case (Inr u)
      then have "leads (WriteJob path content aid) (s2, Install) (s3, Wrote (Inr (word_of_nat (length d))))"
        using assms rn by (intro write_leads [of _ _ _ 0]) (auto simp: write_step_def)
      from leads_trans [OF up this] out Inr show ?thesis by simp
    next
      case (Inl e)
      then have "leads (WriteJob path content aid) (s2, Install)
          (s3, Discard (unavailable (''atomic rename failed: '' @ e)))"
        using assms rn by (intro write_leads [of _ _ _ 0]) (auto simp: write_step_def)
      from leads_trans [OF up leads_trans [OF this discard_leads]] assms out Inl show ?thesis by simp
    qed
  qed
qed

text \<open>The checks of both functions.\<close>

lemma look_alone:
  "leads job (s, file_start job)
     (s, case verify_no_symlinks s (wp_canonical (job_path job)) of Inl e \<Rightarrow> job_refused job e | Inr u \<Rightarrow> Exists)"
  using verify_alone [of job s "[]"] by (simp add: file_start_def verify_no_symlinks_def)

lemma exists_stat_alone:
  "leads job (s, Exists) (s, exists_step job s)" "leads job (s, Stat) (s, stat_step job s)"
  by (rule leads_step [of _ 0, OF _ leads_refl], simp)+

lemma write_checks_alone:
  fixes path content aid
  defines "job \<equiv> WriteJob path content aid"
  shows "leads job (s, file_start job)
     (s, case write_checks s (wp_canonical path) of Inl e \<Rightarrow> Wrote (Inl e) | Inr u \<Rightarrow> ParentExists)"
  using look_alone [of job s] exists_stat_alone [of job s] leads_trans [of job _ "(s, Exists)" "(s, Stat)"]
  by (auto simp: job_def job_refused_def write_checks_def exists_step_def stat_step_def result_simps
      split: sum.splits if_splits intro: leads_trans)

lemma file_write_alone:
  "leads (WriteJob path content aid) (s, file_start (WriteJob path content aid))
     (case file_write s path content aid of (s', r) \<Rightarrow> (s', Wrote r))"
proof (cases "write_checks s (wp_canonical path)")
  case (Inl e)
  with write_checks_alone [of path content aid s] show ?thesis by (simp add: file_write_def Let_def)
next
  case (Inr u)
  let ?J = "WriteJob path content aid" and ?t = "wp_canonical path"
  obtain s1 r1 where e: "ensure_parent s ?t = (s1, r1)" by (cases "ensure_parent s ?t")
  from write_checks_alone [of path content aid s] Inr have "leads ?J (s, file_start ?J) (s, ParentExists)" by simp
  from leads_trans [OF this parent_alone [OF refl]] e
  have made: "leads ?J (s, file_start ?J) (case r1 of Inl e \<Rightarrow> (s1, Wrote (Inl e)) | Inr u \<Rightarrow> (s1, OpenTmp))"
    by simp
  show ?thesis
  proof (cases r1)
    case (Inl e1)
    with made Inr e show ?thesis by (simp add: file_write_def Let_def)
  next
    case (Inr v)
    with made have "leads ?J (s, file_start ?J) (s1, OpenTmp)" by simp
    from leads_trans [OF this write_alone [OF refl refl refl]] \<open>write_checks s ?t = Inr u\<close> e Inr
    show ?thesis by (simp add: file_write_def Let_def)
  qed
qed

lemma read_opened_alone:
  "leads (ReadJob path max_bytes) (s, OpenTarget k)
     (s, case fs_open_read s (wp_canonical path) of
           Inl e \<Rightarrow> Gave (Inl (unavailable (''cannot open: '' @ e)))
         | Inr d \<Rightarrow> Gave (read_end s (wp_canonical path) max_bytes k d))"
proof -
  have steps: "leads (ReadJob path max_bytes) (s, pc) (s, read_step (wp_canonical path) max_bytes s pc)"
    if "pc = OpenTarget k \<or> (\<exists>d. pc = ReadTarget k d)" for pc
    using that by (intro leads_step [of _ 0, OF _ leads_refl]) auto
  show ?thesis
  proof (cases "fs_open_read s (wp_canonical path)")
    case (Inl e)
    with steps [of "OpenTarget k"] show ?thesis by (simp add: read_step_def)
  next
    case (Inr d)
    with leads_trans [OF _ steps [of "ReadTarget k d"]] steps [of "OpenTarget k"] show ?thesis
      by (simp add: read_step_def)
  qed
qed

lemma read_stat_alone:
  fixes path max_bytes
  defines "job \<equiv> ReadJob path max_bytes"
  assumes "verify_no_symlinks s (wp_canonical path) = Inr u"
  shows "leads job (s, file_start job)
     (s, if fs_exists s (wp_canonical path) then stat_step job s
         else Gave (Inl (unavailable ''file does not exist'')))"
proof -
  from look_alone [of job s] assms(2) have "leads job (s, file_start job) (s, Exists)" by (simp add: job_def)
  from leads_trans [OF this exists_stat_alone(1)] leads_trans [OF leads_trans [OF this exists_stat_alone(1)] , of "(s, stat_step job s)"]
    exists_stat_alone(2) [of job s]
  show ?thesis by (auto simp: exists_step_def job_def)
qed

lemma file_read_alone:
  "leads (ReadJob path max_bytes) (s, file_start (ReadJob path max_bytes))
     (s, Gave (file_read s path max_bytes))"
proof (cases "verify_no_symlinks s (wp_canonical path)")
  case (Inl e)
  with look_alone [of "ReadJob path max_bytes" s] show ?thesis
    by (simp add: file_read_def result_simps job_refused_def)
next
  case (Inr u)
  let ?J = "ReadJob path max_bytes" and ?t = "wp_canonical path"
  note stat = read_stat_alone [OF Inr, of max_bytes]
  show ?thesis
  proof (cases "fs_exists s ?t \<and> (\<exists>meta. fs_lstat s ?t = Inr meta \<and> node_is_file meta)")
    case False
    with stat Inr show ?thesis
      by (auto simp: file_read_def stat_step_def result_simps split: sum.splits if_splits)
  next
    case True
    then obtain meta where meta: "fs_exists s ?t" "fs_lstat s ?t = Inr meta" "node_is_file meta" by blast
    with stat have "leads ?J (s, file_start ?J) (s, OpenTarget (node_len meta))" by (simp add: stat_step_def)
    from leads_trans [OF this read_opened_alone] meta Inr show ?thesis
      by (auto simp: file_read_def read_end_def result_simps Let_def split: sum.splits)
  qed
qed

section \<open>How many steps a job has left\<close>

definition job_finished :: "file_pc \<Rightarrow> bool" where
  "job_finished pc \<longleftrightarrow> (case pc of Wrote r \<Rightarrow> True | Gave r \<Rightarrow> True | _ \<Rightarrow> False)"

text \<open>The program points of a write, and of a read.\<close>

fun pc_of_job :: "file_job \<Rightarrow> file_pc \<Rightarrow> bool" where
  "pc_of_job job (Verify check cs) = True"
| "pc_of_job job (VerifyStat check cs) = True"
| "pc_of_job job Exists = True"
| "pc_of_job job Stat = True"
| "pc_of_job (ReadJob path max_bytes) (OpenTarget len) = True"
| "pc_of_job (ReadJob path max_bytes) (ReadTarget len file) = True"
| "pc_of_job (ReadJob path max_bytes) (Gave r) = True"
| "pc_of_job (ReadJob path max_bytes) pc = False"
| "pc_of_job (WriteJob path content aid) (OpenTarget len) = False"
| "pc_of_job (WriteJob path content aid) (ReadTarget len file) = False"
| "pc_of_job (WriteJob path content aid) (Gave r) = False"
| "pc_of_job (WriteJob path content aid) pc = True"

fun job_len :: "file_job \<Rightarrow> nat" where
  "job_len (WriteJob path content aid) = length (bounded_str content)"
| "job_len (ReadJob path max_bytes) = 0"

text \<open>
  The bound is the program point's alone, whatever happens to the tree in between: components still
  to verify, paths still to make, bytes still to write. \<open>b\<close> is the length of the text and \<open>w\<close> of the path.
\<close>

fun steps_left :: "nat \<Rightarrow> nat \<Rightarrow> file_pc \<Rightarrow> nat" where
  "steps_left b w (Verify check cs) = 12 + b + 4 * w + 2 * length cs"
| "steps_left b w (VerifyStat check cs) = 13 + b + 4 * w + 2 * length cs"
| "steps_left b w Exists = 11 + b + 4 * w"
| "steps_left b w Stat = 10 + b + 4 * w"
| "steps_left b w ParentExists = 9 + b + 4 * w"
| "steps_left b w (MakeDir p stack again) = 8 + b + 3 * length stack + (if again then 0 else 4 * length p)"
| "steps_left b w (TestDir p stack e) = 7 + b + 3 * length stack"
| "steps_left b w ParentMode = 6 + b"
| "steps_left b w OpenTmp = 5 + b"
| "steps_left b w (Writing l k) = 4 + (b - k)"
| "steps_left b w TmpMode = 3"
| "steps_left b w Install = 2"
| "steps_left b w (Discard e) = 1"
| "steps_left b w (OpenTarget len) = 2"
| "steps_left b w (ReadTarget len file) = 1"
| "steps_left b w (Wrote r) = 0"
| "steps_left b w (Gave r) = 0"

definition job_steps_left :: "file_job \<Rightarrow> file_pc \<Rightarrow> nat" where
  "job_steps_left job = steps_left (job_len job) (length (wp_canonical (job_path job)))"

definition file_bound :: "file_job \<Rightarrow> nat" where
  "file_bound job = job_steps_left job (file_start job)"

definition nearer :: "file_job \<Rightarrow> file_pc \<Rightarrow> file_pc \<Rightarrow> bool" where
  "nearer job pc pc' \<longleftrightarrow> pc_of_job job pc' \<and> job_steps_left job pc' < job_steps_left job pc"

lemmas nearer_simps = nearer_def job_steps_left_def

lemma dir_made_nearer:
  "nearer (WriteJob path content aid) (TestDir p stack e) (dir_made stack)"
  "again \<Longrightarrow> nearer (WriteJob path content aid) (MakeDir p stack again) (dir_made stack)"
  by (auto simp: nearer_simps dir_made_def split: list.split)

lemma make_dir_nearer:
  "nearer (WriteJob path content aid) (MakeDir p stack again) (snd (make_dir_step s p stack again))"
proof -
  have "nearer (WriteJob path content aid) (MakeDir p stack again) (dir_made stack)"
    by (auto simp: nearer_simps dir_made_def split: list.split)
  moreover have "nearer (WriteJob path content aid) (MakeDir p stack False) (MakeDir q (p # stack) False)"
    if "path_parent p = Some q" for q
    using path_parent_shorter [OF that] by (simp add: nearer_simps)
  moreover have "nearer (WriteJob path content aid) (MakeDir p stack again) (TestDir p stack e)"
    "nearer (WriteJob path content aid) (MakeDir p stack again) (mkdir_error e)" for e
    by (simp_all add: nearer_simps mkdir_error_def)
  ultimately show ?thesis
    by (auto simp: make_dir_step_def split: prod.splits sum.splits option.splits)
qed

lemma write_step_nearer:
  assumes "pc_of_job (WriteJob path content aid) pc"
    and "\<not> job_finished pc" and "\<forall>check cs. pc \<noteq> Verify check cs \<and> pc \<noteq> VerifyStat check cs" and "pc \<noteq> Exists" "pc \<noteq> Stat"
  shows "nearer (WriteJob path content aid) pc (snd (write_step (wp_canonical path) (bounded_str content) tmp n s pc))"
proof (cases pc)
  case ParentExists
  then show ?thesis
    using path_parent_shorter [of "wp_canonical path"] by (auto simp: write_step_def nearer_simps split: option.split)
next
  case (TestDir p stack e)
  then show ?thesis using dir_made_nearer(1) by (auto simp: write_step_def nearer_simps mkdir_error_def)
next
  case (Writing l k)
  have "write_limit s tmp (bounded_str content) \<le> length (bounded_str content)"
    by (simp add: write_limit_def split: option.split)
  with Writing show ?thesis by (auto simp: write_step_def nearer_simps Let_def split: option.split)
qed (use assms make_dir_nearer in \<open>auto simp: write_step_def nearer_simps job_finished_def
      split: option.split sum.split prod.split\<close>)

text \<open>Every step of an unfinished job brings it nearer to its end.\<close>

lemma file_step_nearer:
  assumes "pc_of_job job pc" and "\<not> job_finished pc"
  shows "nearer job pc (snd (file_step job n s pc))"
proof (cases job)
  case (WriteJob path content aid)
  show ?thesis
    using assms write_step_nearer [of path content aid pc] unfolding WriteJob
    by (cases "(WriteJob path content aid, n, s, pc)" rule: file_step.cases)
      (auto simp: Let_def verify_stat_step_def exists_step_def stat_step_def job_refused_def nearer_simps
        split: sum.split)
next
  case (ReadJob path max_bytes)
  show ?thesis
    using assms unfolding ReadJob
    by (cases "(ReadJob path max_bytes, n, s, pc)" rule: file_step.cases)
      (auto simp: Let_def verify_stat_step_def exists_step_def stat_step_def job_refused_def read_step_def
        nearer_simps job_finished_def split: sum.split)
qed

lemma finished_stays: "job_finished pc \<Longrightarrow> file_step job n s pc = (s, pc)"
  by (cases job; cases pc) (simp_all add: job_finished_def write_step_def read_step_def)

lemma pc_of_job_start [simp]: "pc_of_job job (file_start job)"
  by (simp add: file_start_def)

section \<open>Properties\<close>


end
