(* ===== verification/File_Concurrent.thy ===== *)
theory File_Concurrent
  imports File_Steps File_Safety
begin

text \<open>
  Any number of \<open>file_write\<close> and \<open>file_read\<close> calls on several threads, interleaved at every call
  to the kernel. Each target always holds what was there before or the complete text of one finished
  write; a read, which asks for the length before it opens the file, may cut one version at the
  length of another.
\<close>

section \<open>Threads\<close>

record files_state =
  fc_fs :: fs_state
  fc_pc :: "nat \<Rightarrow> file_pc"

definition fc_boot :: "(nat \<Rightarrow> file_job) \<Rightarrow> fs_state \<Rightarrow> files_state" where
  "fc_boot J s = \<lparr>fc_fs = s, fc_pc = (\<lambda>t. file_start (J t))\<rparr>"

text \<open>A schedule names the threads that step, with how much a \<open>write\<close> takes.\<close>

fun fc_run :: "(nat \<Rightarrow> file_job) \<Rightarrow> (nat \<times> nat) list \<Rightarrow> files_state \<Rightarrow> files_state" where
  "fc_run J [] c = c"
| "fc_run J ((t, n) # es) c =
     (let (s, pc) = file_step (J t) n (fc_fs c) (fc_pc c t)
      in fc_run J es \<lparr>fc_fs = s, fc_pc = (fc_pc c)(t := pc)\<rparr>)"

definition job_loc :: "file_job \<Rightarrow> location" where
  "job_loc job = path_loc (wp_canonical (job_path job))"

fun job_tmp :: "file_job \<Rightarrow> location option" where
  "job_tmp (WriteJob path content aid) = Some (tmp_loc (wp_canonical path) aid)"
| "job_tmp (ReadJob path max_bytes) = None"

fun job_text :: "file_job \<Rightarrow> string option" where
  "job_text (WriteJob path content aid) = Some (bounded_str content)"
| "job_text (ReadJob path max_bytes) = None"

definition tmp_locs :: "(nat \<Rightarrow> file_job) \<Rightarrow> location set" where
  "tmp_locs J = {l. \<exists>t. job_tmp (J t) = Some l}"

text \<open>
  What is asked of the tree and of the jobs: no link on the way to a target, and action identifiers
  fresh enough that no two temporary files share a name and no target lies at or below one.
\<close>

definition site_ok :: "fs_state \<Rightarrow> (nat \<Rightarrow> file_job) \<Rightarrow> bool" where
  "site_ok s J \<longleftrightarrow> sound_fs s \<and>
     (\<forall>t. literal_path (wp_canonical (job_path (J t))) \<and> link_free (fs_nodes s) (job_loc (J t))) \<and>
     (\<forall>t path content aid. J t = WriteJob path content aid \<longrightarrow> job_loc (J t) \<noteq> [] \<and> fresh_action s aid) \<and>
     (\<forall>t u l. job_tmp (J t) = Some l \<and> job_tmp (J u) = Some l \<longrightarrow> t = u) \<and>
     (\<forall>u. \<forall>l \<in> tmp_locs J. \<not> prefix l (job_loc (J u)))"

text \<open>A version of a location: what was there, or the text of a write to it.\<close>

definition version :: "fs_state \<Rightarrow> (nat \<Rightarrow> file_job) \<Rightarrow> location \<Rightarrow> bytes \<Rightarrow> bool" where
  "version s J l d \<longleftrightarrow> (\<exists>m. fs_nodes s l = Some (RegFile d m)) \<or> (\<exists>t. job_loc (J t) = l \<and> job_text (J t) = Some d)"

section \<open>One step of a writer\<close>

text \<open>What a step changes: its temporary file, directories on the way, or the target by the rename.\<close>

definition file_delta ::
  "(location \<Rightarrow> fs_node option) \<Rightarrow> location \<Rightarrow> location \<Rightarrow> string \<Rightarrow> file_pc
    \<Rightarrow> (location \<Rightarrow> fs_node option) \<Rightarrow> (location \<Rightarrow> fs_node option) \<Rightarrow> bool" where
  "file_delta N0 L T d pc' N N' \<longleftrightarrow>
     (\<forall>l. N' l = N l \<or> (l = T \<and> \<not> is_link_at N' l) \<or>
        (strict_prefix l L \<and> N0 l = None \<and> (N l = None \<or> is_dir_at N l) \<and> is_dir_at N' l) \<or>
        (l = L \<and> \<not> is_dir_at N l \<and> (\<exists>m. N' l = Some (RegFile d m)) \<and> (\<exists>n. pc' = Wrote (Inr n))))"

lemma file_delta_refl [simp]: "file_delta N0 L T d pc' N N"
  by (simp add: file_delta_def)

lemma file_delta_tmp:
  assumes "\<forall>l. l \<noteq> T \<longrightarrow> N' l = N l" and "\<not> is_link_at N' T"
  shows "file_delta N0 L T d pc' N N'"
  unfolding file_delta_def
proof
  fix l
  from assms show "N' l = N l \<or> (l = T \<and> \<not> is_link_at N' l) \<or>
        (strict_prefix l L \<and> N0 l = None \<and> (N l = None \<or> is_dir_at N l) \<and> is_dir_at N' l) \<or>
        (l = L \<and> \<not> is_dir_at N l \<and> (\<exists>m. N' l = Some (RegFile d m)) \<and> (\<exists>n. pc' = Wrote (Inr n)))"
    by (cases "l = T") simp_all
qed

lemma file_delta_grown:
  assumes "grown N N' q" and "\<And>l. prefix l q \<Longrightarrow> strict_prefix l L"
    and "\<forall>l. strict_prefix l L \<and> N l = None \<longrightarrow> N0 l = None"
  shows "file_delta N0 L T d pc' N N'"
  unfolding file_delta_def
proof
  fix l
  from assms(1) have "N' l = N l \<or> (prefix l q \<and> N l = None \<and> is_dir_at N' l)" by (simp add: grown_def)
  then consider "N' l = N l" | "prefix l q" "N l = None" "is_dir_at N' l" by argo
  then show "N' l = N l \<or> (l = T \<and> \<not> is_link_at N' l) \<or>
        (strict_prefix l L \<and> N0 l = None \<and> (N l = None \<or> is_dir_at N l) \<and> is_dir_at N' l) \<or>
        (l = L \<and> \<not> is_dir_at N l \<and> (\<exists>m. N' l = Some (RegFile d m)) \<and> (\<exists>n. pc' = Wrote (Inr n)))"
  proof cases
    case 2
    with assms(2,3) show ?thesis by simp
  qed simp
qed

definition dirs_to :: "(location \<Rightarrow> fs_node option) \<Rightarrow> string \<Rightarrow> string \<Rightarrow> string list \<Rightarrow> bool" where
  "dirs_to N0 t q stack \<longleftrightarrow>
     (\<forall>x \<in> set (q # stack). literal_path x \<and> prefix (path_loc x) (butlast (path_loc t))) \<and>
     path_parent t = Some (last (q # stack)) \<and> N0 (path_loc (last (q # stack))) = None"

fun write_pc_ok ::
  "(location \<Rightarrow> fs_node option) \<Rightarrow> (location \<Rightarrow> fs_node option) \<Rightarrow> string \<Rightarrow> location \<Rightarrow> string
    \<Rightarrow> file_pc \<Rightarrow> bool" where
  "write_pc_ok N0 N t T d (MakeDir q stack again) \<longleftrightarrow> dirs_to N0 t q stack"
| "write_pc_ok N0 N t T d (TestDir q stack e) \<longleftrightarrow> dirs_to N0 t q stack"
| "write_pc_ok N0 N t T d ParentMode \<longleftrightarrow>
     (\<forall>q. path_parent t = Some q \<longrightarrow> is_dir_at N (path_loc q) \<and> N0 (path_loc q) = None)"
| "write_pc_ok N0 N t T d (Writing l k) \<longleftrightarrow> l = T \<and> (\<exists>m. N T = Some (RegFile (take k d) m))"
| "write_pc_ok N0 N t T d TmpMode \<longleftrightarrow> (\<exists>m. N T = Some (RegFile d m))"
| "write_pc_ok N0 N t T d Install \<longleftrightarrow> (\<exists>m. N T = Some (RegFile d m))"
| "write_pc_ok N0 N t T d (Wrote (Inr n)) \<longleftrightarrow> N T = None"
| "write_pc_ok N0 N t T d _ \<longleftrightarrow> True"

text \<open>Where a writer's step starts.\<close>

definition writer_site ::
  "(location \<Rightarrow> fs_node option) \<Rightarrow> fs_state \<Rightarrow> string \<Rightarrow> string \<Rightarrow> location \<Rightarrow> bool" where
  "writer_site N0 s t tmp T \<longleftrightarrow>
     fs_ok (fs_nodes s) \<and> (\<forall>p. fs_fault s OpStat p = None) \<and> literal_path t \<and> literal_path tmp \<and>
     path_loc tmp = T \<and> path_loc t \<noteq> [] \<and> T \<noteq> path_loc t \<and>
     link_free (fs_nodes s) (path_loc t) \<and> link_free (fs_nodes s) T \<and>
     (\<forall>l. strict_prefix l (path_loc t) \<and> fs_nodes s l = None \<longrightarrow> N0 l = None)"

text \<open>What is to be shown of it.\<close>

definition writer_moves ::
  "(location \<Rightarrow> fs_node option) \<Rightarrow> fs_state \<Rightarrow> string \<Rightarrow> location \<Rightarrow> string \<Rightarrow> fs_state \<times> file_pc \<Rightarrow> bool" where
  "writer_moves N0 s t T d c \<longleftrightarrow>
     same_env s (fst c) \<and> fs_ok (fs_nodes (fst c)) \<and>
     file_delta N0 (path_loc t) T d (snd c) (fs_nodes s) (fs_nodes (fst c)) \<and>
     write_pc_ok N0 (fs_nodes (fst c)) t T d (snd c) \<and>
     (\<forall>n. snd c = Wrote (Inr n) \<longrightarrow> (\<exists>m. fs_nodes (fst c) (path_loc t) = Some (RegFile d m)))"

lemma writer_waits:
  "writer_site N0 s t tmp T \<Longrightarrow> write_pc_ok N0 (fs_nodes s) t T d pc \<Longrightarrow> \<forall>n. pc \<noteq> Wrote (Inr n) \<Longrightarrow>
     writer_moves N0 s t T d (s, pc)"
  by (simp add: writer_moves_def writer_site_def)

subsection \<open>Directories\<close>

lemma dir_made_not [simp]: "dir_made stack \<noteq> Wrote r"
  by (simp add: dir_made_def split: list.split)

lemma dir_made_ok:
  "dirs_to N0 t q stack \<Longrightarrow> (stack = [] \<Longrightarrow> is_dir_at N (path_loc q)) \<Longrightarrow> write_pc_ok N0 N t T d (dir_made stack)"
  by (cases stack) (auto simp: dirs_to_def dir_made_def)

lemma mkdir_makes:
  assumes "literal_path q" and "link_free (fs_nodes s) (path_loc q)" and "fs_mkdir s q = (s1, Inr u)"
  shows "is_dir_at (fs_nodes s1) (path_loc q)"
  using assms(3) lookup_lands [OF assms(1,2), of False]
  by (auto simp: fs_mkdir_def is_dir_at_def split: option.splits fs_lookup.splits)

lemma is_dir_lands:
  assumes "literal_path q" and "link_free (fs_nodes s) (path_loc q)" and "fs_is_dir s q"
  shows "is_dir_at (fs_nodes s) (path_loc q)"
  using assms(3) lookup_lands [OF assms(1,2), of True] by (auto simp: fs_is_dir_def split: fs_lookup.splits)

lemma make_dir_moves:
  assumes site: "writer_site N0 s t tmp T" and dirs: "dirs_to N0 t q stack"
  shows "writer_moves N0 s t T d (make_dir_step s q stack again)"
proof -
  from dirs have q: "literal_path q" "prefix (path_loc q) (butlast (path_loc t))" by (simp_all add: dirs_to_def)
  from site have ok: "fs_ok (fs_nodes s)" and ne: "path_loc t \<noteq> []" and free: "link_free (fs_nodes s) (path_loc t)"
    by (simp_all add: writer_site_def)
  have below: "strict_prefix l (path_loc t)" if "prefix l (path_loc q)" for l
    using strict_prefix_butlast [OF ne prefix_order.trans [OF that q(2)]] .
  from below [of "path_loc q"] have free: "link_free (fs_nodes s) (path_loc q)"
    by (intro link_free_prefix [OF free]) (simp add: strict_prefix_def)
  obtain s1 r where m: "fs_mkdir s q = (s1, r)" by (cases "fs_mkdir s q")
  note M = mkdir_grown [OF ok q(1) free m]
  have "file_delta N0 (path_loc t) T d pc' (fs_nodes s) (fs_nodes s1)" for pc'
    using M below site by (intro file_delta_grown [of _ _ "path_loc q"]) (simp_all add: writer_site_def)
  moreover have "write_pc_ok N0 (fs_nodes s1) t T d (snd (make_dir_step s q stack again)) \<and>
      fst (make_dir_step s q stack again) = s1 \<and> (\<forall>n. snd (make_dir_step s q stack again) \<noteq> Wrote (Inr n))"
  proof (cases r)
    case (Inr u)
    have "q \<noteq> []" using q(1) by (auto simp: literal_path_def is_absolute_not_Nil)
    with dir_made_ok [OF dirs mkdir_makes [OF q(1) free]] m Inr show ?thesis by (simp add: make_dir_step_def)
  next
    case (Inl e)
    have "q \<noteq> []" using q(1) by (auto simp: literal_path_def is_absolute_not_Nil)
    moreover have "dirs_to N0 t p (q # stack)" if "path_parent q = Some p" for p
      using dirs parent_literal(2) [OF q(1) that] q(2)
      by (auto simp: dirs_to_def intro: prefix_order.trans [OF prefixeq_butlast])
    ultimately show ?thesis using m Inl dirs by (auto simp: make_dir_step_def mkdir_error_def split: option.splits)
  qed
  ultimately show ?thesis using M by (simp add: writer_moves_def)
qed

lemma parent_mode_moves:
  assumes site: "writer_site N0 s t tmp T" and pc: "write_pc_ok N0 (fs_nodes s) t T d ParentMode"
  shows "writer_moves N0 s t T d (write_step t d tmp n s ParentMode)"
proof (cases "path_parent t")
  case None
  with site show ?thesis by (simp add: write_step_def writer_waits)
next
  case (Some q)
  from site have ok: "fs_ok (fs_nodes s)" and t: "literal_path t" and ne: "path_loc t \<noteq> []"
    and free: "link_free (fs_nodes s) (path_loc t)" by (simp_all add: writer_site_def)
  from parent_literal(2) [OF t Some] have q: "literal_path q" "path_loc q = butlast (path_loc t)" by blast+
  from strict_prefix_butlast [OF ne] q(2) have below: "strict_prefix (path_loc q) (path_loc t)" by simp
  then have free: "link_free (fs_nodes s) (path_loc q)"
    by (intro link_free_prefix [OF free]) (simp add: strict_prefix_def)
  from pc Some have dir: "is_dir_at (fs_nodes s) (path_loc q)" "N0 (path_loc q) = None" by simp_all
  obtain s1 r where c: "fs_set_permissions s q mode_755 = (s1, r)" by (cases "fs_set_permissions s q mode_755")
  note C = fs_set_permissions_at [OF ok q(1) free c]
  have "is_dir_at (fs_nodes s1) (path_loc q)"
    using c dir(1) lookup_lands [OF q(1) free, of True]
    by (auto simp: fs_set_permissions_def is_dir_at_def chmod_node_def split: option.splits fs_lookup.splits fs_node.splits)
  then have "file_delta N0 (path_loc t) T d pc' (fs_nodes s) (fs_nodes s1)" for pc'
    using C below dir unfolding file_delta_def by metis
  with C c Some show ?thesis
    by (cases r) (simp_all add: write_step_def writer_moves_def)
qed

subsection \<open>The temporary file\<close>

lemma fs_ok_rewrite: "fs_ok N \<Longrightarrow> N l = Some (RegFile x m) \<Longrightarrow> fs_ok (N(l \<mapsto> RegFile y m'))"
proof -
  assume ok: "fs_ok N" and l: "N l = Some (RegFile x m)"
  then have "l \<noteq> []" using fs_ok_root [OF ok] by (auto simp: is_dir_at_def)
  then obtain d c where dc: "l = d @ [c]" by (metis rev_exhaust)
  with fs_okD(1,2) [OF ok l] have "is_dir_at N d" "valid_name c" by auto
  with fs_ok_add [OF ok, of d c "RegFile y m'"] l dc show ?thesis by (simp add: is_dir_at_def)
qed

lemma opened_by_write: "fs_write_loc s p = Inr l \<Longrightarrow> fst (fs_write s p []) = set_node l (Some (file_with s l [])) s"
  by (simp add: fs_write_limited write_limit_def)

lemma open_tmp_moves:
  assumes site: "writer_site N0 s t tmp T"
  shows "writer_moves N0 s t T d (write_step t d tmp n s OpenTmp)"
proof (cases "fs_write_loc s tmp")
  case (Inl e)
  with site show ?thesis by (simp add: write_step_def writer_waits)
next
  case (Inr l)
  from site have ok: "fs_ok (fs_nodes s)" and p: "literal_path tmp" "path_loc tmp = T"
    and free: "link_free (fs_nodes s) T" by (simp_all add: writer_site_def)
  have l: "l = T"
    using Inr lookup_lands [OF p(1), of s True] free p(2)
    by (auto simp: fs_write_loc_def split: option.splits fs_lookup.splits fs_node.splits)
  let ?s = "set_node T (Some (file_with s T [])) s"
  obtain r where w: "fs_write s tmp [] = (?s, r)" using opened_by_write [OF Inr] l by (cases "fs_write s tmp []") auto
  from fs_write_at [OF ok p(1) _ w] free p(2) have "fs_ok (fs_nodes ?s)" by simp
  moreover have "file_delta N0 (path_loc t) T d pc' (fs_nodes s) (fs_nodes ?s)" for pc'
    by (rule file_delta_tmp) (simp_all add: is_link_at_def file_with_def)
  ultimately show ?thesis
    using Inr l by (simp add: write_step_def writer_moves_def file_with_def)
qed

lemma writing_moves:
  assumes site: "writer_site N0 s t tmp T" and pc: "write_pc_ok N0 (fs_nodes s) t T d (Writing l k)"
  shows "writer_moves N0 s t T d (write_step t d tmp n s (Writing l k))"
proof (cases "k < write_limit s tmp d")
  case True
  define k' where "k' = min (k + Suc n) (write_limit s tmp d)"
  from pc obtain m where m: "l = T" "fs_nodes s T = Some (RegFile (take k d) m)" by auto
  let ?s = "set_node T (Some (file_with s T (take k' d))) s"
  from site have "fs_ok (fs_nodes s)" by (simp add: writer_site_def)
  from fs_ok_rewrite [OF this m(2)] have "fs_ok (fs_nodes ?s)" by (simp add: file_with_def)
  moreover have "file_delta N0 (path_loc t) T d pc' (fs_nodes s) (fs_nodes ?s)" for pc'
    by (rule file_delta_tmp) (simp_all add: is_link_at_def file_with_def)
  ultimately show ?thesis
    using True m(1) by (simp add: write_step_def writer_moves_def file_with_def k'_def Let_def)
next
  case False
  moreover have "fs_fault s OpWrite tmp = None \<Longrightarrow> write_limit s tmp d = length d" by (simp add: write_limit_def)
  ultimately show ?thesis
    using site pc by (auto simp: write_step_def intro!: writer_waits split: option.splits)
qed

lemma tmp_mode_moves:
  assumes site: "writer_site N0 s t tmp T" and pc: "write_pc_ok N0 (fs_nodes s) t T d TmpMode"
  shows "writer_moves N0 s t T d (write_step t d tmp n s TmpMode)"
proof -
  from site have ok: "fs_ok (fs_nodes s)" and p: "literal_path tmp" "path_loc tmp = T"
    and free: "link_free (fs_nodes s) T" by (simp_all add: writer_site_def)
  obtain s1 r where c: "fs_set_permissions s tmp mode_644 = (s1, r)" by (cases "fs_set_permissions s tmp mode_644")
  from fs_set_permissions_at [OF ok p(1) _ c] free p(2) pc obtain m where C: "same_env s s1" "fs_ok (fs_nodes s1)"
    "\<forall>l. l \<noteq> T \<longrightarrow> fs_nodes s1 l = fs_nodes s l" "fs_nodes s1 T = Some (RegFile d m)" by auto
  then have "file_delta N0 (path_loc t) T d Install (fs_nodes s) (fs_nodes s1)"
    by (intro file_delta_tmp) (simp_all add: is_link_at_def)
  with C c show ?thesis by (simp add: write_step_def writer_moves_def)
qed

lemma discard_moves:
  assumes site: "writer_site N0 s t tmp T"
  shows "writer_moves N0 s t T d (write_step t d tmp n s (Discard e))"
proof -
  from site have ok: "fs_ok (fs_nodes s)" and p: "literal_path tmp" "path_loc tmp = T"
    and free: "link_free (fs_nodes s) T" by (simp_all add: writer_site_def)
  obtain s1 r where c: "fs_remove_file s tmp = (s1, r)" by (cases "fs_remove_file s tmp")
  have lands: "lands (fs_lookup s False tmp) T" using lookup_lands [OF p(1), of s False] free p(2) by simp
  note C = fs_remove_file_at [OF ok lands c]
  have "fs_nodes s1 T = fs_nodes s T \<or> fs_nodes s1 T = None"
    using c by (auto simp: fs_remove_file_def split: option.splits fs_lookup.splits if_splits)
  then have "\<not> is_link_at (fs_nodes s1) T" using link_freeD [OF free] by (auto simp: is_link_at_def)
  with C have "file_delta N0 (path_loc t) T d (Wrote (Inl e)) (fs_nodes s) (fs_nodes s1)"
    by (intro file_delta_tmp) simp_all
  with C c show ?thesis by (simp add: write_step_def writer_moves_def)
qed

subsection \<open>The rename\<close>

lemma rename_spares_dirs:
  "fs_rename s a b = (s1, Inr u) \<Longrightarrow> lands (fs_lookup s False a) A \<Longrightarrow> lands (fs_lookup s False b) B \<Longrightarrow>
     literal_path b \<Longrightarrow> fs_ok (fs_nodes s) \<Longrightarrow> \<not> is_dir_at (fs_nodes s) A \<Longrightarrow> \<not> is_dir_at (fs_nodes s) B"
  using lookup_result [of s b False]
  by (auto simp: fs_rename_def is_dir_at_def split: option.splits fs_lookup.splits if_splits)

lemma install_moves:
  assumes site: "writer_site N0 s t tmp T" and pc: "write_pc_ok N0 (fs_nodes s) t T d Install"
  shows "writer_moves N0 s t T d (write_step t d tmp n s Install)"
proof -
  let ?L = "path_loc t"
  from site have ok: "fs_ok (fs_nodes s)" and t: "literal_path t" and p: "literal_path tmp" "path_loc tmp = T"
    and free: "link_free (fs_nodes s) T" "link_free (fs_nodes s) ?L" and ne: "T \<noteq> ?L" by (simp_all add: writer_site_def)
  from pc obtain m where m: "fs_nodes s T = Some (RegFile d m)" by auto
  then have leaf: "\<not> is_dir_at (fs_nodes s) T" by (simp add: is_dir_at_def)
  obtain s1 r where c: "fs_rename s tmp t = (s1, r)" by (cases "fs_rename s tmp t")
  have lands: "lands (fs_lookup s False tmp) T" "lands (fs_lookup s False t) ?L"
    using lookup_lands [OF p(1), of s False] lookup_lands [OF t, of s False] free p(2) by simp_all
  from fs_rename_at [OF ok p(1) t, unfolded p(2), OF ne lands leaf c]
  have R: "same_env s s1" "fs_ok (fs_nodes s1)" "case r of Inl e \<Rightarrow> s1 = s
      | Inr u \<Rightarrow> fs_nodes s1 = (fs_nodes s)(?L := fs_nodes s T, T := None) \<and> fs_nodes s T \<noteq> None" by blast+
  show ?thesis
  proof (cases r)
    case (Inl e)
    with R c site show ?thesis by (simp add: write_step_def writer_waits)
  next
    case (Inr u)
    with R(3) have N: "fs_nodes s1 = (fs_nodes s)(?L := fs_nodes s T, T := None)" by simp
    have "\<not> is_dir_at (fs_nodes s) ?L" using rename_spares_dirs [OF _ lands t ok leaf] c Inr by blast
    then have "file_delta N0 ?L T d (Wrote (Inr k)) (fs_nodes s) (fs_nodes s1)" for k
      using ne m unfolding file_delta_def N by (auto simp: is_link_at_def)
    with R(1,2) c Inr N m ne show ?thesis by (simp add: write_step_def writer_moves_def)
  qed
qed

text \<open>All steps.\<close>

lemma write_step_moves:
  assumes site: "writer_site N0 s t tmp T" and pc: "write_pc_ok N0 (fs_nodes s) t T d pc" "\<forall>r. pc \<noteq> Wrote r"
  shows "writer_moves N0 s t T d (write_step t d tmp n s pc)"
proof (cases pc)
  case ParentExists
  have "dirs_to N0 t q []" if "path_parent t = Some q" "\<not> fs_exists s q" for q
  proof -
    from site have ok: "fs_ok (fs_nodes s)" and stat: "\<forall>p. fs_fault s OpStat p = None" and t: "literal_path t"
      and ne: "path_loc t \<noteq> []" and free: "link_free (fs_nodes s) (path_loc t)" by (simp_all add: writer_site_def)
    from parent_literal(2) [OF t that(1)] have q: "literal_path q" "path_loc q = butlast (path_loc t)"
      "path_loc q = [] \<or> last (path_segs q) = last (path_loc q)" by blast+
    from strict_prefix_butlast [OF ne] q(2) have below: "strict_prefix (path_loc q) (path_loc t)" by simp
    then have "\<not> is_link_at (fs_nodes s) (path_loc q)" using free by (simp add: link_free_def strict_prefix_def)
    with lookup_Found [OF ok q(1) _ _ q(3), of True] that(2) stat have "fs_nodes s (path_loc q) = None"
      by (cases "fs_nodes s (path_loc q)") (simp_all add: fs_exists_def)
    with site below q that(1) show ?thesis by (auto simp: dirs_to_def writer_site_def)
  qed
  with ParentExists site show ?thesis
    by (auto simp: write_step_def intro!: writer_waits split: option.splits)
next
  case (TestDir q stack e)
  with pc have dirs: "dirs_to N0 t q stack" by simp
  then have q: "literal_path q" "prefix (path_loc q) (butlast (path_loc t))" by (simp_all add: dirs_to_def)
  from site have "link_free (fs_nodes s) (path_loc q)"
    using q(2) by (auto simp: writer_site_def elim!: link_free_prefix intro: prefix_order.trans [OF _ prefixeq_butlast])
  with dirs TestDir site is_dir_lands [OF q(1), of s] show ?thesis
    by (auto simp: write_step_def mkdir_error_def intro!: writer_waits dir_made_ok)
qed (use assms make_dir_moves [OF site] parent_mode_moves [OF site] open_tmp_moves [OF site] writing_moves [OF site]
    tmp_mode_moves [OF site] install_moves [OF site] discard_moves [OF site] writer_waits [OF site]
    in \<open>auto simp: write_step_def\<close>)

lemma file_step_moves:
  assumes site: "writer_site N0 s (wp_canonical path) (tmp_path (wp_canonical path) aid) T"
    and pc: "write_pc_ok N0 (fs_nodes s) (wp_canonical path) T (bounded_str content) pc" "\<forall>r. pc \<noteq> Wrote r"
  shows "writer_moves N0 s (wp_canonical path) T (bounded_str content) (file_step (WriteJob path content aid) n s pc)"
proof -
  note stay = writer_waits [OF site]
  show ?thesis
    using write_step_moves [OF assms] pc(2)
    by (cases "(WriteJob path content aid, n, s, pc)" rule: file_step.cases)
      (auto simp: Let_def verify_stat_step_def exists_step_def stat_step_def job_refused_def
        split: sum.splits intro!: stay)
qed

section \<open>The invariant of all threads\<close>

text \<open>A finished write whose text is at its target.\<close>

definition installed :: "(nat \<Rightarrow> file_job) \<Rightarrow> files_state \<Rightarrow> location \<Rightarrow> bool" where
  "installed J c l \<longleftrightarrow>
     (\<exists>u d m n. job_loc (J u) = l \<and> job_text (J u) = Some d \<and>
        fs_nodes (fc_fs c) l = Some (RegFile d m) \<and> fc_pc c u = Wrote (Inr n))"

definition settled :: "fs_state \<Rightarrow> (nat \<Rightarrow> file_job) \<Rightarrow> files_state \<Rightarrow> location \<Rightarrow> bool" where
  "settled s0 J c l \<longleftrightarrow>
     fs_nodes (fc_fs c) l = fs_nodes s0 l \<or>
     (fs_nodes s0 l = None \<and> is_dir_at (fs_nodes (fc_fs c)) l \<and>
        (\<exists>u. job_text (J u) \<noteq> None \<and> strict_prefix l (job_loc (J u)))) \<or>
     (\<not> is_dir_at (fs_nodes s0) l \<and> installed J c l)"

text \<open>What a read returns: a prefix of one version, as long as the length of another allows.\<close>

definition read_of :: "(bytes \<Rightarrow> bool) \<Rightarrow> nat \<Rightarrow> file_read_result \<Rightarrow> bool" where
  "read_of V max_bytes r \<longleftrightarrow>
     (\<exists>d d'. V d \<and> V d' \<and> min (length d') max_bytes \<le> length d \<and>
        fr_content r = take (min (length d') max_bytes) d \<and>
        fr_bytes_returned r = word_of_nat (length (fr_content r)) \<and>
        fr_total_bytes r = word_of_nat (length d') \<and> fr_truncated r = (length d' > max_bytes))"

fun read_pc_ok :: "(bytes \<Rightarrow> bool) \<Rightarrow> nat \<Rightarrow> file_pc \<Rightarrow> bool" where
  "read_pc_ok V max_bytes (OpenTarget len) \<longleftrightarrow> (\<exists>d. V d \<and> length d = len)"
| "read_pc_ok V max_bytes (ReadTarget len d) \<longleftrightarrow> (\<exists>d'. V d' \<and> length d' = len) \<and> (V d \<or> d = [])"
| "read_pc_ok V max_bytes (Gave (Inr r)) \<longleftrightarrow> read_of V max_bytes r"
| "read_pc_ok V max_bytes _ \<longleftrightarrow> True"

definition job_pc_ok :: "fs_state \<Rightarrow> (nat \<Rightarrow> file_job) \<Rightarrow> files_state \<Rightarrow> nat \<Rightarrow> bool" where
  "job_pc_ok s0 J c t \<longleftrightarrow>
     (case J t of
        WriteJob path content aid \<Rightarrow>
          write_pc_ok (fs_nodes s0) (fs_nodes (fc_fs c)) (wp_canonical path) (tmp_loc (wp_canonical path) aid)
            (bounded_str content) (fc_pc c t)
      | ReadJob path max_bytes \<Rightarrow> read_pc_ok (version s0 J (job_loc (J t))) max_bytes (fc_pc c t))"

definition files_inv :: "fs_state \<Rightarrow> (nat \<Rightarrow> file_job) \<Rightarrow> files_state \<Rightarrow> bool" where
  "files_inv s0 J c \<longleftrightarrow>
     same_env s0 (fc_fs c) \<and> fs_ok (fs_nodes (fc_fs c)) \<and>
     (\<forall>q. is_link_at (fs_nodes (fc_fs c)) q \<longrightarrow> is_link_at (fs_nodes s0) q) \<and>
     (\<forall>l. l \<notin> tmp_locs J \<longrightarrow> settled s0 J c l) \<and> (\<forall>t. job_pc_ok s0 J c t) \<and>
     (\<forall>t n. job_text (J t) \<noteq> None \<and> fc_pc c t = Wrote (Inr n) \<longrightarrow> installed J c (job_loc (J t)))"

lemma files_inv_boot: "site_ok s J \<Longrightarrow> files_inv s J (fc_boot J s)"
  by (auto simp: files_inv_def fc_boot_def site_ok_def sound_fs_def settled_def job_pc_ok_def file_start_def
      split: file_job.splits)

subsection \<open>A reader's step\<close>

lemma settled_version:
  assumes "settled s0 J c l" and "fs_nodes (fc_fs c) l = Some (RegFile d m)"
  shows "version s0 J l d"
proof (cases "fs_nodes (fc_fs c) l = fs_nodes s0 l")
  case True
  with assms(2) have "fs_nodes s0 l = Some (RegFile d m)" by simp
  then show ?thesis by (simp add: version_def)
next
  case False
  with assms have "installed J c l" by (auto simp: settled_def is_dir_at_def)
  with assms(2) show ?thesis by (auto simp: installed_def version_def)
qed

lemma read_end_of:
  assumes "version s0 J l d'" and "version s0 J l d \<or> d = []"
    and "read_end s target max_bytes (length d') d = Inr r"
  shows "read_of (version s0 J l) max_bytes r"
proof -
  from assms(3) have r: "min (length d') max_bytes \<le> length d" "fr_content r = take (min (length d') max_bytes) d"
    "fr_bytes_returned r = word_of_nat (length (fr_content r))" "fr_total_bytes r = word_of_nat (length d')"
    "fr_truncated r = (length d' > max_bytes)"
    by (auto simp: read_end_def fs_read_exact_def result_simps from_utf8_def Let_def split: option.splits if_splits)
  from assms(2) show ?thesis
  proof
    assume "version s0 J l d"
    with assms(1) r show ?thesis unfolding read_of_def by blast
  next
    assume "d = []"
    with r have "min (length d') max_bytes \<le> length d'" "fr_content r = take (min (length d') max_bytes) d'" by auto
    with assms(1) r show ?thesis unfolding read_of_def by blast
  qed
qed

lemma read_step_ok:
  assumes job: "J t = ReadJob path max_bytes" and l: "settled s0 J c (job_loc (J t))"
    and p: "literal_path (wp_canonical path)" and free: "link_free (fs_nodes (fc_fs c)) (job_loc (J t))"
    and pc: "read_pc_ok (version s0 J (job_loc (J t))) max_bytes pc"
  shows "fst (file_step (J t) n (fc_fs c) pc) = fc_fs c \<and>
     read_pc_ok (version s0 J (job_loc (J t))) max_bytes (snd (file_step (J t) n (fc_fs c) pc))"
proof -
  let ?s = "fc_fs c" and ?p = "wp_canonical path" and ?V = "version s0 J (job_loc (J t))"
  have loc: "job_loc (J t) = path_loc ?p" by (simp add: job_loc_def job)
  note lands = lookup_lands [OF p free [unfolded loc]]
  have stat: "?V (file_data meta) \<and> node_len meta = length (file_data meta)"
    if "fs_lstat ?s ?p = Inr meta" "node_is_file meta" for meta
  proof -
    from that lands [of False] obtain d m where "fs_nodes ?s (path_loc ?p) = Some (RegFile d m)" "meta = RegFile d m"
      by (auto simp: fs_lstat_def ok_or_def node_is_file_def split: option.splits fs_lookup.splits fs_node.splits)
    with settled_version [OF l] loc show ?thesis by (simp add: node_len_def)
  qed
  have opened: "?V d \<or> d = []" if "fs_open_read ?s ?p = Inr d" for d
    using that lands [of True] settled_version [OF l] loc
    by (auto simp: fs_open_read_def split: option.splits fs_lookup.splits fs_node.splits)
  have gave: "read_pc_ok ?V max_bytes (Gave (read_end ?s ?p max_bytes (length d') d))"
    if "?V d'" "?V d \<or> d = []" for d d'
    using read_end_of [OF that] by (cases "read_end ?s ?p max_bytes (length d') d") simp_all
  show ?thesis
    using pc stat opened gave unfolding job
    by (cases "(ReadJob path max_bytes, n, ?s, pc)" rule: file_step.cases)
      (auto simp: Let_def verify_stat_step_def exists_step_def stat_step_def job_refused_def read_step_def
        split: sum.splits)
qed

subsection \<open>A writer's step\<close>

lemma file_deltaE:
  assumes "file_delta N0 L T d pc' N N'"
  obtains "N' l = N l" | "l = T" "\<not> is_link_at N' l"
    | "strict_prefix l L" "N0 l = None" "N l = None \<or> is_dir_at N l" "is_dir_at N' l"
    | m n where "l = L" "\<not> is_dir_at N l" "N' l = Some (RegFile d m)" "pc' = Wrote (Inr n)"
  using assms unfolding file_delta_def by (metis (no_types, lifting))

lemma write_pc_ok_mono:
  "write_pc_ok N0 N t T d pc \<Longrightarrow> N' T = N T \<Longrightarrow>
     (\<And>q. path_parent t = Some q \<Longrightarrow> is_dir_at N (path_loc q) \<Longrightarrow> is_dir_at N' (path_loc q)) \<Longrightarrow>
     write_pc_ok N0 N' t T d pc"
  by (cases "(N0, N, t, T, d, pc)" rule: write_pc_ok.cases) auto

lemma wrote_stays: "file_step job n s (Wrote r) = (s, Wrote r)" "file_step job n s (Gave r') = (s, Gave r')"
  by (cases job; simp add: write_step_def read_step_def)+

text \<open>The jobs of a sound site.\<close>

lemma site_job:
  assumes "site_ok s0 J" and "J t = WriteJob path content aid"
  shows "literal_path (wp_canonical path)" and "job_loc (J t) = path_loc (wp_canonical path)"
    and "literal_path (tmp_path (wp_canonical path) aid)"
    and "path_loc (tmp_path (wp_canonical path) aid) = tmp_loc (wp_canonical path) aid"
    and "tmp_loc (wp_canonical path) aid \<in> tmp_locs J" and "path_loc (wp_canonical path) \<noteq> []"
proof -
  show loc: "job_loc (J t) = path_loc (wp_canonical path)" by (simp add: assms(2) job_loc_def)
  from assms have "literal_path (wp_canonical (job_path (J t)))" unfolding site_ok_def by blast
  then show lit: "literal_path (wp_canonical path)" by (simp add: assms(2))
  from assms have "job_loc (J t) \<noteq> []" "fresh_action s0 aid" unfolding site_ok_def by blast+
  then show ne: "path_loc (wp_canonical path) \<noteq> []" by (simp add: loc)
  from \<open>fresh_action s0 aid\<close> have "CHR ''/'' \<notin> set aid" by (simp add: fresh_action_def)
  from tmp_path_literal [OF lit ne this]
  show "literal_path (tmp_path (wp_canonical path) aid)"
    "path_loc (tmp_path (wp_canonical path) aid) = tmp_loc (wp_canonical path) aid" by blast+
  show "tmp_loc (wp_canonical path) aid \<in> tmp_locs J"
    using assms(2) by (auto simp: tmp_locs_def intro!: exI [of _ t])
qed

lemma site_apart:
  assumes "site_ok s0 J" and "T \<in> tmp_locs J" and "prefix l (job_loc (J u))"
  shows "l \<noteq> T"
  using assms unfolding site_ok_def by blast

lemma inv_link_free:
  "files_inv s0 J c \<Longrightarrow> link_free (fs_nodes s0) l \<Longrightarrow> link_free (fs_nodes (fc_fs c)) l"
  unfolding files_inv_def link_free_def by blast

lemma settled_absent:
  "settled s0 J c l \<Longrightarrow> fs_nodes (fc_fs c) l = None \<Longrightarrow> fs_nodes s0 l = None"
  by (auto simp: settled_def installed_def)

lemma inv_writer_site:
  assumes site: "site_ok s0 J" and inv: "files_inv s0 J c" and job: "J t = WriteJob path content aid"
  shows "writer_site (fs_nodes s0) (fc_fs c) (wp_canonical path) (tmp_path (wp_canonical path) aid)
     (tmp_loc (wp_canonical path) aid)"
proof -
  let ?t = "wp_canonical path" and ?T = "tmp_loc (wp_canonical path) aid" and ?N = "fs_nodes (fc_fs c)"
  note J = site_job [OF site job]
  from site job have free0: "link_free (fs_nodes s0) (path_loc ?t)" and fresh: "fresh_action s0 aid"
    and stat: "\<forall>p. fs_fault s0 OpStat p = None"
    unfolding site_ok_def sound_fs_def by (metis J(2), blast, blast)
  have "link_free (fs_nodes s0) (butlast (path_loc ?t))"
    using link_free_prefix [OF free0 prefixeq_butlast] .
  then have "link_free (fs_nodes s0) ?T"
    using fresh by (simp add: tmp_loc_def link_free_snoc fresh_action_def)
  moreover have "fs_nodes s0 l = None" if "strict_prefix l (path_loc ?t)" "?N l = None" for l
  proof -
    from that(1) J(2) have "l \<notin> tmp_locs J" using site_apart [OF site, of _ l t] by (auto simp: strict_prefix_def)
    with inv have "settled s0 J c l" by (simp add: files_inv_def)
    from settled_absent [OF this that(2)] show ?thesis .
  qed
  moreover have "\<forall>p. fs_fault (fc_fs c) OpStat p = None"
    using inv stat same_env_fault [of s0 "fc_fs c"] by (simp add: files_inv_def)
  moreover have "fs_ok ?N" using inv by (simp add: files_inv_def)
  moreover have "?T \<noteq> path_loc ?t" by (rule tmp_loc_other)
  ultimately show ?thesis
    using J inv_link_free [OF inv free0] inv_link_free [OF inv, of ?T] unfolding writer_site_def by blast
qed

text \<open>What a step of one writer means for a location that is not a temporary file.\<close>

definition next_files :: "files_state \<Rightarrow> nat \<Rightarrow> fs_state \<Rightarrow> file_pc \<Rightarrow> files_state" where
  "next_files c t s pc = \<lparr>fc_fs = s, fc_pc = (fc_pc c)(t := pc)\<rparr>"

lemma next_files_simps [simp]:
  "fc_fs (next_files c t s pc) = s" "fc_pc (next_files c t s pc) = (fc_pc c)(t := pc)"
  by (simp_all add: next_files_def)

lemma installed_keep:
  assumes D: "file_delta N0 (job_loc (J t)) T d pc' (fs_nodes (fc_fs c)) (fs_nodes s')"
    and job: "job_text (J t) = Some d" and run: "\<forall>n. fc_pc c t \<noteq> Wrote (Inr n)" and T: "l \<noteq> T"
    and old: "installed J c l"
  shows "installed J (next_files c t s' pc') l"
proof -
  from old obtain u x m n where u: "job_loc (J u) = l" "job_text (J u) = Some x"
    "fs_nodes (fc_fs c) l = Some (RegFile x m)" "fc_pc c u = Wrote (Inr n)" by (auto simp: installed_def)
  with run have "u \<noteq> t" by auto
  from D show ?thesis
  proof (cases rule: file_deltaE [of _ _ _ _ _ _ _ l])
    case 1
    with u \<open>u \<noteq> t\<close> show ?thesis by (auto simp: installed_def)
  next
    case (4 m' n')
    with job show ?thesis by (auto simp: installed_def)
  qed (use u T in \<open>auto simp: is_dir_at_def\<close>)
qed

lemma settled_keep:
  assumes D: "file_delta (fs_nodes s0) (job_loc (J t)) T d pc' (fs_nodes (fc_fs c)) (fs_nodes s')"
    and job: "job_text (J t) = Some d" and run: "\<forall>n. fc_pc c t \<noteq> Wrote (Inr n)" and T: "l \<noteq> T"
    and old: "settled s0 J c l"
  shows "settled s0 J (next_files c t s' pc') l"
  using D
proof (cases rule: file_deltaE [of _ _ _ _ _ _ _ l])
  case 1
  with old installed_keep [where c = c and s' = s' and pc' = pc' and J = J and t = t, OF D job run T] show ?thesis
    by (auto simp: settled_def is_dir_at_def)
next
  case 3
  then show ?thesis using job unfolding settled_def by auto
next
  case (4 m n)
  then have "installed J (next_files c t s' pc') l" using job by (auto simp: installed_def)
  moreover have "\<not> is_dir_at (fs_nodes s0) l" using old 4(2) by (auto simp: settled_def is_dir_at_def)
  ultimately show ?thesis by (simp add: settled_def)
qed (use T in simp)

lemma dir_keep:
  assumes "file_delta N0 L T d pc' N N'" and "l \<noteq> T" and "is_dir_at N l"
  shows "is_dir_at N' l"
  using assms(1) by (cases rule: file_deltaE [of _ _ _ _ _ _ _ l]) (use assms(2,3) in \<open>auto simp: is_dir_at_def\<close>)

text \<open>The other writers do not notice.\<close>

lemma other_pc_keep:
  assumes site: "site_ok s0 J" and J: "J t = WriteJob path content aid" and other: "u \<noteq> t"
    and D: "file_delta N0 (job_loc (J t)) (tmp_loc (wp_canonical path) aid) d pc' (fs_nodes (fc_fs c)) (fs_nodes s')"
    and old: "job_pc_ok s0 J c u"
  shows "job_pc_ok s0 J (next_files c t s' pc') u"
proof (cases "J u")
  case (ReadJob p m)
  with old other show ?thesis by (simp add: job_pc_ok_def)
next
  case U: (WriteJob p ct a)
  let ?T = "tmp_loc (wp_canonical path) aid" and ?U = "tmp_loc (wp_canonical p) a"
  note Jt = site_job [OF site J] and Ju = site_job [OF site U]
  have "job_tmp (J t) = Some ?T" "job_tmp (J u) = Some ?U" by (simp_all add: J U)
  with site other have "?U \<noteq> ?T" unfolding site_ok_def by metis
  have apart: "\<not> prefix ?U (job_loc (J t))" using site_apart [OF site Ju(5)] by blast
  from D have same: "fs_nodes s' ?U = fs_nodes (fc_fs c) ?U"
    by (cases rule: file_deltaE [of _ _ _ _ _ _ _ ?U]) (use apart \<open>?U \<noteq> ?T\<close> in \<open>auto simp: strict_prefix_def\<close>)
  have "is_dir_at (fs_nodes s') (path_loc q)"
    if "path_parent (wp_canonical p) = Some q" "is_dir_at (fs_nodes (fc_fs c)) (path_loc q)" for q
  proof -
    from parent_literal(2) [OF Ju(1) that(1)] have "prefix (path_loc q) (job_loc (J u))"
      by (simp add: Ju(2) prefixeq_butlast)
    from dir_keep [OF D site_apart [OF site Jt(5) this] that(2)] show ?thesis .
  qed
  with old other same show ?thesis
    by (auto simp: job_pc_ok_def U intro: write_pc_ok_mono)
qed

lemma writer_preserves:
  assumes site: "site_ok s0 J" and inv: "files_inv s0 J c" and job: "J t = WriteJob path content aid"
    and run: "\<forall>r. fc_pc c t \<noteq> Wrote r" and step: "file_step (J t) n (fc_fs c) (fc_pc c t) = (s', pc')"
  shows "files_inv s0 J (next_files c t s' pc')"
proof -
  let ?T = "tmp_loc (wp_canonical path) aid" and ?N = "fs_nodes (fc_fs c)" and ?c = "next_files c t s' pc'"
  note J = site_job [OF site job]
  from inv have own: "write_pc_ok (fs_nodes s0) ?N (wp_canonical path) ?T (bounded_str content) (fc_pc c t)"
    unfolding files_inv_def job_pc_ok_def by (metis (no_types, lifting) job file_job.simps(5))
  from file_step_moves [OF inv_writer_site [OF site inv job] own run, of n] step job
  have M: "same_env (fc_fs c) s'" "fs_ok (fs_nodes s')"
    "write_pc_ok (fs_nodes s0) (fs_nodes s') (wp_canonical path) ?T (bounded_str content) pc'"
    "\<forall>n. pc' = Wrote (Inr n) \<longrightarrow> (\<exists>m. fs_nodes s' (job_loc (J t)) = Some (RegFile (bounded_str content) m))"
    and D: "file_delta (fs_nodes s0) (job_loc (J t)) ?T (bounded_str content) pc' ?N (fs_nodes s')"
    by (simp_all add: writer_moves_def job_loc_def)
  have words: "job_text (J t) = Some (bounded_str content)" by (simp add: job)
  have unfinished: "\<forall>n. fc_pc c t \<noteq> Wrote (Inr n)" using run by blast
  show ?thesis unfolding files_inv_def
  proof (intro conjI allI impI)
    show "same_env s0 (fc_fs ?c)" using inv M(1) by (auto simp: files_inv_def intro: same_env_trans)
    show "fs_ok (fs_nodes (fc_fs ?c))" using M(2) by simp
  next
    fix q assume link: "is_link_at (fs_nodes (fc_fs ?c)) q"
    from D have "is_link_at ?N q"
      by (cases rule: file_deltaE [of _ _ _ _ _ _ _ q])
        (use link in \<open>auto simp: is_link_at_def is_dir_at_def split: option.splits fs_node.splits\<close>)
    with inv show "is_link_at (fs_nodes s0) q" unfolding files_inv_def by blast
  next
    fix l assume l: "l \<notin> tmp_locs J"
    with J(5) have "l \<noteq> ?T" by blast
    moreover from inv l have "settled s0 J c l" by (simp add: files_inv_def)
    ultimately show "settled s0 J ?c l" by (rule settled_keep [where J = J and t = t and c = c, OF D words unfinished])
  next
    fix u
    from inv have "job_pc_ok s0 J c u" by (simp add: files_inv_def)
    with other_pc_keep [OF site job _ D, of u] M(3) job show "job_pc_ok s0 J ?c u"
      by (cases "u = t") (simp_all add: job_pc_ok_def)
  next
    fix u k assume u: "job_text (J u) \<noteq> None \<and> fc_pc ?c u = Wrote (Inr k)"
    have notmp: "job_loc (J u) \<noteq> ?T" by (rule site_apart [OF site J(5) prefix_order.refl])
    show "installed J ?c (job_loc (J u))"
    proof (cases "u = t")
      case False
      with u inv have "installed J c (job_loc (J u))" by (simp add: files_inv_def)
      with installed_keep [where J = J and t = t and c = c, OF D words unfinished notmp] show ?thesis .
    next
      case True
      with u M(4) words show ?thesis by (auto simp: installed_def)
    qed
  qed
qed

lemma reader_preserves:
  assumes site: "site_ok s0 J" and inv: "files_inv s0 J c" and job: "J t = ReadJob path max_bytes"
    and step: "file_step (J t) n (fc_fs c) (fc_pc c t) = (s', pc')"
  shows "files_inv s0 J (next_files c t s' pc')"
proof -
  have "job_loc (J t) \<notin> tmp_locs J" using site_apart [OF site _ prefix_order.refl] by blast
  with inv have l: "settled s0 J c (job_loc (J t))" by (simp add: files_inv_def)
  from site have "literal_path (wp_canonical (job_path (J t)))" "link_free (fs_nodes s0) (job_loc (J t))"
    unfolding site_ok_def by blast+
  then have p: "literal_path (wp_canonical path)" and free: "link_free (fs_nodes (fc_fs c)) (job_loc (J t))"
    using inv_link_free [OF inv] by (simp_all add: job)
  from inv have pc: "read_pc_ok (version s0 J (job_loc (J t))) max_bytes (fc_pc c t)"
    unfolding files_inv_def job_pc_ok_def by (metis (no_types, lifting) job file_job.simps(6))
  from read_step_ok [where J = J and t = t, OF job l p free pc, of n] step
  have R: "s' = fc_fs c" "read_pc_ok (version s0 J (job_loc (J t))) max_bytes pc'" by simp_all
  have inst: "installed J (next_files c t s' pc') k \<longleftrightarrow> installed J c k" for k
  proof -
    have "(job_text (J u) = Some d \<and> fc_pc (next_files c t s' pc') u = Wrote (Inr n)) \<longleftrightarrow>
        (job_text (J u) = Some d \<and> fc_pc c u = Wrote (Inr n))" for u d n
      by (cases "u = t") (simp_all add: job)
    then show ?thesis unfolding installed_def R(1) next_files_simps(1) by blast
  qed
  show ?thesis unfolding files_inv_def
  proof (intro conjI allI impI)
    fix u
    from inv have "job_pc_ok s0 J c u" by (simp add: files_inv_def)
    then show "job_pc_ok s0 J (next_files c t s' pc') u"
      using R job by (cases "u = t") (simp_all add: job_pc_ok_def split: file_job.splits)
  next
    fix l assume "l \<notin> tmp_locs J"
    with inv show "settled s0 J (next_files c t s' pc') l" by (simp add: files_inv_def settled_def inst [unfolded R(1)] R(1))
  next
    fix u k assume u: "job_text (J u) \<noteq> None \<and> fc_pc (next_files c t s' pc') u = Wrote (Inr k)"
    with job have "u \<noteq> t" by auto
    with inv u show "installed J (next_files c t s' pc') (job_loc (J u))" by (simp add: files_inv_def inst)
  qed (use inv R in \<open>simp_all add: files_inv_def\<close>)
qed

lemma files_inv_run: "site_ok s0 J \<Longrightarrow> files_inv s0 J c \<Longrightarrow> files_inv s0 J (fc_run J es c)"
proof (induction J es c rule: fc_run.induct)
  case (2 J t n es c)
  obtain s' pc' where step: "file_step (J t) n (fc_fs c) (fc_pc c t) = (s', pc')"
    by (cases "file_step (J t) n (fc_fs c) (fc_pc c t)")
  have "files_inv s0 J (next_files c t s' pc')"
  proof (cases "\<exists>r. fc_pc c t = Wrote r")
    case True
    then obtain r where r: "fc_pc c t = Wrote r" by blast
    with step wrote_stays(1) [of "J t" n "fc_fs c" r] have "s' = fc_fs c" "pc' = fc_pc c t"
      by (simp_all del: file_step.simps)
    then have "next_files c t s' pc' = c" by (simp add: next_files_def)
    with "2.prems"(2) show ?thesis by simp
  next
    case False
    show ?thesis
    proof (cases "J t")
      case (WriteJob path content aid)
      from writer_preserves [OF "2.prems" WriteJob _ step] False show ?thesis by blast
    next
      case (ReadJob path max_bytes)
      from reader_preserves [OF "2.prems" ReadJob step] show ?thesis .
    qed
  qed
  with "2.IH" [OF step [symmetric] refl "2.prems"(1)] step show ?case by (simp add: next_files_def)
qed simp

section \<open>A workspace with two writers and readers of one file\<close>

definition old_path :: workspace_path where
  "old_path = \<lparr>wp_canonical = ''/ws/alice/old.txt'', wp_relative = ''old.txt''\<rparr>"

definition sample_jobs :: "nat \<Rightarrow> file_job" where
  "sample_jobs t =
     (if t = 0 then WriteJob old_path (BoundedBytes ''brand new text'') ''id1''
      else if t = 2 then WriteJob old_path (BoundedBytes ''x'') ''id2''
      else ReadJob old_path 524288)"

lemma link_free_of_list:
  "list_all (\<lambda>(l, nd). \<not> node_is_symlink nd) nodes \<Longrightarrow> link_free (fs_nodes (fs_of_list nodes)) l"
  by (auto simp: link_free_def fs_of_list_def is_link_at_def list_all_iff node_is_symlink_def
      split: option.splits fs_node.splits if_splits dest!: map_of_SomeD)

lemma sample_site: "site_ok (fs_of_list alice_nodes) sample_jobs"
proof -
  let ?s = "fs_of_list alice_nodes"
  have lit: "literal_path ''/ws/alice/old.txt''" and loc: "path_loc ''/ws/alice/old.txt'' = [''ws'', ''alice'', ''old.txt'']"
    by code_simp+
  have fresh: "fresh_action ?s aid" if "CHR ''/'' \<notin> set aid" for aid
    by (rule fresh_action_of_list [OF _ that]) code_simp
  have "link_free (fs_nodes ?s) [''ws'', ''alice'', ''old.txt'']" by (rule link_free_of_list) code_simp
  with alice_facts(1) lit loc fresh show ?thesis
    by (auto simp: site_ok_def sample_jobs_def old_path_def job_loc_def tmp_locs_def tmp_loc_def
        split: if_splits)
qed

text \<open>
  The readers' schedule: thread 1 takes the length of the file, writer 0 runs, thread 1 reads on. A
  job is at \<open>Stat\<close> after ten steps here, and a write of 14 bytes in one piece ends after 17.
\<close>

definition sample_schedule :: "(nat \<times> nat) list" where
  "sample_schedule = replicate 11 (1, 0) @ replicate 17 (0, 99) @ replicate 2 (1, 0)"

definition sample_files :: "files_state" where
  "sample_files = fc_run sample_jobs sample_schedule (fc_boot sample_jobs (fs_of_list alice_nodes))"

lemma sample_files_run:
  "fc_pc sample_files 0 = Wrote (Inr 14)"
  "fc_pc sample_files 1 = Gave (Inr \<lparr>fr_content = ''brand ne'', fr_bytes_returned = 8, fr_total_bytes = 8,
     fr_truncated = False\<rparr>)"
  by code_simp+

section \<open>Properties\<close>

text \<open>C19: with any number of writes and reads interleaved at every call to the kernel, each entry that is
  no write's temporary file is at all times what it was at the start, or a new directory on the way
  to a write's target, or a regular file with the complete text of a finished write to it; and once
  a write to a location has finished, a complete text of a finished write stays there.\<close>

theorem concurrent_writes_atomic:
  assumes "site_ok s J" and "c = fc_run J es (fc_boot J s)"
  shows "(\<forall>l. l \<in> tmp_locs J \<or> fs_nodes (fc_fs c) l = fs_nodes s l \<or>
       (fs_nodes s l = None \<and> is_dir_at (fs_nodes (fc_fs c)) l \<and>
          (\<exists>u. job_text (J u) \<noteq> None \<and> strict_prefix l (job_loc (J u)))) \<or>
       (\<not> is_dir_at (fs_nodes s) l \<and> installed J c l)) \<and>
     (\<forall>t n. job_text (J t) = None \<or> fc_pc c t \<noteq> Wrote (Inr n) \<or> installed J c (job_loc (J t)))"
proof -
  from files_inv_run [OF assms(1) files_inv_boot [OF assms(1)], of es] assms(2) have "files_inv s J c" by simp
  then show ?thesis unfolding files_inv_def settled_def by blast
qed

text \<open>Two writers and a reader of one file, the first writer done.\<close>

theorem concurrent_writes_atomic_witness:
  "installed sample_jobs sample_files [''ws'', ''alice'', ''old.txt'']"
proof -
  from concurrent_writes_atomic [OF sample_site sample_files_def]
  have "job_text (sample_jobs 0) = None \<or> fc_pc sample_files 0 \<noteq> Wrote (Inr 14) \<or>
      installed sample_jobs sample_files (job_loc (sample_jobs 0))" by blast
  moreover have "job_loc (sample_jobs 0) = [''ws'', ''alice'', ''old.txt'']" by code_simp
  ultimately show ?thesis by (simp add: sample_files_run sample_jobs_def)
qed

text \<open>C26: a successful read interleaved with any writes returns a prefix of one version of the file, the
  old text or the complete text of one write, never a mixture of texts and never part of an
  unfinished write; but it is cut at the length of a version, which can be another one.\<close>

theorem concurrent_reads_versions:
  assumes "site_ok s J" and "J t = ReadJob path max_bytes"
    and "fc_pc (fc_run J es (fc_boot J s)) t = Gave (Inr r)"
  shows "\<exists>d d'. version s J (job_loc (J t)) d \<and> version s J (job_loc (J t)) d' \<and>
     min (length d') max_bytes \<le> length d \<and> fr_content r = take (min (length d') max_bytes) d \<and>
     fr_total_bytes r = word_of_nat (length d') \<and> fr_truncated r = (length d' > max_bytes)"
proof -
  from files_inv_run [OF assms(1) files_inv_boot [OF assms(1)], of es]
  have "job_pc_ok s J (fc_run J es (fc_boot J s)) t" by (simp add: files_inv_def)
  with assms(2,3) show ?thesis by (auto simp: job_pc_ok_def read_of_def)
qed

text \<open>The read of the new text at the old length, with no sign that it is cut.\<close>

theorem concurrent_reads_versions_witness:
  "\<exists>r d d'. fc_pc sample_files 1 = Gave (Inr r) \<and> fr_content r = ''brand ne'' \<and> \<not> fr_truncated r \<and>
     version (fs_of_list alice_nodes) sample_jobs [''ws'', ''alice'', ''old.txt''] d \<and>
     version (fs_of_list alice_nodes) sample_jobs [''ws'', ''alice'', ''old.txt''] d' \<and>
     fr_content r = take (min (length d') 524288) d"
proof -
  have job: "sample_jobs 1 = ReadJob old_path 524288" by (simp add: sample_jobs_def)
  have loc: "job_loc (sample_jobs 1) = [''ws'', ''alice'', ''old.txt'']" by code_simp
  from sample_files_run(2) obtain r where r: "fc_pc sample_files 1 = Gave (Inr r)" "fr_content r = ''brand ne''"
    "\<not> fr_truncated r" by simp
  from concurrent_reads_versions [OF sample_site job r(1) [unfolded sample_files_def]] r show ?thesis
    unfolding loc by blast
qed

text \<open>Steps of other threads never add to the steps a thread has left.\<close>

lemma job_ends:
  "pc_of_job (J t) (fc_pc c t) \<Longrightarrow>
     job_steps_left (J t) (fc_pc c t) \<le> length (filter (\<lambda>e. fst e = t) es) \<Longrightarrow>
     job_finished (fc_pc (fc_run J es c) t)"
proof (induction J es c rule: fc_run.induct)
  case (1 J c)
  then show ?case by (cases "fc_pc c t"; cases "J t") (simp_all add: job_steps_left_def job_finished_def)
next
  case (2 J u n es c)
  obtain s' pc' where step: "file_step (J u) n (fc_fs c) (fc_pc c u) = (s', pc')"
    by (cases "file_step (J u) n (fc_fs c) (fc_pc c u)")
  let ?c = "\<lparr>fc_fs = s', fc_pc = (fc_pc c)(u := pc')\<rparr>"
  have "pc_of_job (J t) (fc_pc ?c t) \<and> job_steps_left (J t) (fc_pc ?c t) \<le> length (filter (\<lambda>e. fst e = t) es)"
  proof (cases "u = t")
    case False
    with "2.prems" show ?thesis by simp
  next
    case u: True
    show ?thesis
    proof (cases "job_finished (fc_pc c t)")
      case True
      with step u finished_stays have "pc' = fc_pc c t" by simp
      with True "2.prems"(1) u show ?thesis
        by (cases "fc_pc c t") (simp_all add: job_finished_def job_steps_left_def)
    next
      case False
      from file_step_nearer [OF "2.prems"(1) False, of n "fc_fs c"] step u "2.prems"(2) show ?thesis
        by (simp add: nearer_def)
    qed
  qed
  with "2.IH" [OF step [symmetric] refl] step show ?case by simp
qed

text \<open>C39: file operations are wait-free. A write or a read ends after a number of its own steps that only
  its path and its text determine, whatever the other threads do to the files in between; no
  operation waits for another or starts again.\<close>

theorem file_ops_wait_free:
  assumes "file_bound (J t) \<le> length (filter (\<lambda>e. fst e = t) es)"
  shows "job_finished (fc_pc (fc_run J es (fc_boot J s)) t)"
  using job_ends [of J t "fc_boot J s" es] assms by (simp add: fc_boot_def file_bound_def)

text \<open>A read of a file of alice's ends within 88 steps, writers in between or not.\<close>

theorem file_ops_wait_free_witness:
  "job_finished (fc_pc (fc_run sample_jobs (concat (replicate 88 [(1, 0), (0, 5), (2, 1)]))
     (fc_boot sample_jobs (fs_of_list alice_nodes))) 1)"
proof (rule file_ops_wait_free)
  show "file_bound (sample_jobs 1) \<le>
      length (filter (\<lambda>e. fst e = (1 :: nat)) (concat (replicate 88 [(1, 0 :: nat), (0, 5), (2, 1)])))" by code_simp
qed

text \<open>The text it returns is not the beginning of the old text, nor the whole of any text.\<close>

theorem read_mixes_versions:
  "case fc_pc sample_files 1 of
     Gave (Inr r) \<Rightarrow> \<not> fr_truncated r \<and> fr_content r \<noteq> ''old text'' \<and>
       (\<forall>t \<in> {0, 2}. job_text (sample_jobs t) \<noteq> Some (fr_content r))
   | _ \<Rightarrow> False"
  unfolding sample_files_run(2) by (simp add: sample_jobs_def)

end
