(* ===== verification/Crash_Recovery.thy ===== *)
theory Crash_Recovery
  imports File_Concurrent Orphan_Cleanup Daemon_Main
begin

text \<open>
  A crash and the restart after it. The cleanup a starting daemon runs finds every temporary file
  below the workspace root; so however writes and reads were interleaved when the process died, the
  files are as if each write had either finished or not begun.
\<close>

section \<open>What is found\<close>

text \<open>A lister that reads every directory: no errors, and each entry is listed.\<close>

definition lists_all :: "lister \<Rightarrow> fs_state \<Rightarrow> bool" where
  "lists_all ls s \<longleftrightarrow>
     (\<forall>d l. fs_lookup s True d = Found l \<longrightarrow> is_dir_at (fs_nodes s) l \<longrightarrow>
        (\<exists>ns. ls s d = Inr (map Inr ns) \<and> (\<forall>n. n \<in> set ns \<longleftrightarrow> fs_nodes s (l @ [n]) \<noteq> None)))"

lemma lists_allD:
  assumes "lists_all ls s" and "fs_is_dir s d"
  obtains l ns where "fs_lookup s True d = Found l" "ls s d = Inr (map Inr ns)"
    "\<forall>n. n \<in> set ns \<longleftrightarrow> fs_nodes s (l @ [n]) \<noteq> None"
proof -
  from assms(2) obtain l where "fs_lookup s True d = Found l" "is_dir_at (fs_nodes s) l"
    by (auto simp: fs_is_dir_def split: fs_lookup.splits)
  with assms(1) that show ?thesis unfolding lists_all_def by blast
qed

lemma walk_entries_ok:
  assumes "\<forall>p. walk p \<noteq> None \<longrightarrow> (\<exists>ps. walk p = Some (Inr ps))"
  shows "walk_entries walk s dir (map Inr ns) rs \<noteq> None \<Longrightarrow> \<exists>ps. walk_entries walk s dir (map Inr ns) rs = Some (Inr ps)"
proof (induction ns arbitrary: rs)
  case (Cons n ns)
  show ?case
  proof (cases "fs_is_dir s (path_join dir n)")
    case True
    with Cons.prems obtain r where "walk (path_join dir n) = Some r" by (auto simp: Let_def split: option.splits)
    with assms obtain sub where "walk (path_join dir n) = Some (Inr sub)" by force
    with Cons True show ?thesis by (simp add: Let_def)
  next
    case False
    with Cons show ?thesis by (simp add: Let_def)
  qed
qed simp

lemma walkdir_ok:
  assumes "lists_all ls s"
  shows "walkdir k ls s dir \<noteq> None \<Longrightarrow> \<exists>ps. walkdir k ls s dir = Some (Inr ps)"
proof (induction k arbitrary: dir)
  case (Suc k)
  show ?case
  proof (cases "fs_is_dir s dir")
    case True
    from lists_allD [OF assms True] obtain ns where "ls s dir = Inr (map Inr ns)" by blast
    with True Suc walk_entries_ok [of "walkdir k ls s" s dir ns "[]"] show ?thesis by auto
  qed simp
qed simp

text \<open>What is collected on the way is kept, and each entry is collected or walked.\<close>

lemma walk_entries_keep:
  "walk_entries walk s dir es rs = Some (Inr ps) \<Longrightarrow> set rs \<subseteq> set ps"
proof (induction walk s dir es rs rule: walk_entries.induct)
  case (3 walk s dir n es rs)
  then show ?case by (fastforce simp: Let_def split: if_splits option.splits sum.splits)
qed auto

lemma walk_entries_finds:
  "walk_entries walk s dir es rs = Some (Inr ps) \<Longrightarrow> Inr n \<in> set es \<Longrightarrow>
     (if fs_is_dir s (path_join dir n)
      then \<exists>sub. walk (path_join dir n) = Some (Inr sub) \<and> set sub \<subseteq> set ps
      else path_join dir n \<in> set ps)"
proof (induction walk s dir es rs rule: walk_entries.induct)
  case (3 walk s dir m es rs)
  show ?case
  proof (cases "m = n")
    case True
    show ?thesis
    proof (cases "fs_is_dir s (path_join dir n)")
      case d: True
      with True "3.prems"(1) obtain sub where sub: "walk (path_join dir n) = Some (Inr sub)"
        "walk_entries walk s dir es (rs @ sub) = Some (Inr ps)"
        by (auto simp: Let_def split: option.splits sum.splits)
      with d walk_entries_keep [OF sub(2)] show ?thesis by auto
    next
      case False
      with True "3.prems"(1) have "walk_entries walk s dir es (rs @ [path_join dir n]) = Some (Inr ps)"
        by (simp add: Let_def)
      with False walk_entries_keep show ?thesis by fastforce
    qed
  next
    case False
    show ?thesis
    proof (cases "fs_is_dir s (path_join dir m)")
      case d: True
      with "3.prems"(1) obtain sub where sub: "walk (path_join dir m) = Some (Inr sub)"
        "walk_entries walk s dir es (rs @ sub) = Some (Inr ps)"
        by (auto simp: Let_def split: option.splits sum.splits)
      from "3.IH"(1) [OF refl d sub(1) refl sub(2)] "3.prems"(2) False show ?thesis by simp
    next
      case d: False
      with "3.prems"(1) have "walk_entries walk s dir es (rs @ [path_join dir m]) = Some (Inr ps)"
        by (simp add: Let_def)
      from "3.IH"(2) [OF refl d this] "3.prems"(2) False show ?thesis by simp
    qed
  qed
qed auto

text \<open>A path that spells its location without a trailing dot or separator is found by the kernel.\<close>

definition spells :: "string \<Rightarrow> location \<Rightarrow> bool" where
  "spells p l \<longleftrightarrow> literal_path p \<and> path_loc p = l \<and> (l = [] \<or> last (path_segs p) = last l)"

lemma spells_lookup:
  "spells p l \<Longrightarrow> fs_ok (fs_nodes s) \<Longrightarrow> fs_nodes s l = Some nd \<Longrightarrow> \<not> is_link_at (fs_nodes s) l \<Longrightarrow>
     fs_lookup s f p = Found l"
  using lookup_Found [of s p f] by (auto simp: spells_def)

lemma spells_join:
  assumes "spells p l" and "valid_name n"
  shows "spells (path_join p n) (l @ [n])"
proof -
  have n: "seg_names [n] = [n]" "''..'' \<notin> set (path_segs n)"
    using assms(2) by (auto simp: seg_names_Cons valid_name_segs valid_name_def)
  from assms(1) have "literal_path p" "path_loc p = l" by (simp_all add: spells_def)
  from join_literal [OF this(1) valid_name_rel [OF assms(2)] n(2)] this(2)
  have "literal_path (path_join p n)" "path_loc (path_join p n) = l @ [n]"
    by (simp_all add: valid_name_segs [OF assms(2)] n(1))
  with path_segs_join_name [OF assms(2), of p] show ?thesis by (auto simp: spells_def)
qed

text \<open>Every regular file below a directory is collected, under a path that spells its location.\<close>

lemma walkdir_finds:
  assumes ok: "fs_ok (fs_nodes s)" and stat: "\<forall>p. fs_fault s OpStat p = None" and all: "lists_all ls s"
  shows "walkdir k ls s dir = Some (Inr ps) \<Longrightarrow> spells dir l \<Longrightarrow> is_dir_at (fs_nodes s) l \<Longrightarrow>
     fs_nodes s (l @ n # r) = Some (RegFile d m) \<Longrightarrow> \<exists>q \<in> set ps. spells q (l @ n # r)"
proof (induction k arbitrary: dir l n r ps)
  case (Suc k)
  let ?q = "path_join dir n"
  from Suc.prems(3) obtain mode where "fs_nodes s l = Some (Directory mode)" by (blast dest: is_dir_at_Some)
  note found = spells_lookup [OF Suc.prems(2) ok this is_dir_not_link [OF Suc.prems(3)]]
  with stat Suc.prems(3) have dir: "fs_is_dir s dir" by (simp add: fs_is_dir_def)
  from all found [of True] Suc.prems(3) obtain ns where ns: "ls s dir = Inr (map Inr ns)"
    "\<forall>n. n \<in> set ns \<longleftrightarrow> fs_nodes s (l @ [n]) \<noteq> None" unfolding lists_all_def by blast
  with Suc.prems(1) dir have walk: "walk_entries (walkdir k ls s) s dir (map Inr ns) [] = Some (Inr ps)" by simp
  have names: "list_all valid_name (l @ n # r)" by (rule fs_okD(1) [OF ok Suc.prems(4)])
  then have q: "spells ?q (l @ [n])" by (intro spells_join [OF Suc.prems(2)]) simp
  have below: "is_dir_at (fs_nodes s) (l @ [n])" if "r \<noteq> []"
    using Suc.prems(4) that by (intro fs_ok_strict_prefix [OF ok, of "l @ n # r"]) (auto simp: strict_prefix_def)
  have ex: "fs_nodes s (l @ [n]) \<noteq> None"
    using Suc.prems(4) below by (cases "r = []") (auto dest: is_dir_at_Some)
  with ns have n: "Inr n \<in> set (map Inr ns :: (string + string) list)" by simp
  show ?case
  proof (cases r)
    case Nil
    with Suc.prems(4) have nd: "fs_nodes s (l @ [n]) = Some (RegFile d m)" by simp
    then have "fs_lookup s True ?q = Found (l @ [n])" by (intro spells_lookup [OF q ok]) (auto simp: is_link_at_def)
    with nd have "\<not> fs_is_dir s ?q" by (simp add: fs_is_dir_def is_dir_at_def)
    with walk_entries_finds [OF walk n] q Nil show ?thesis by auto
  next
    case (Cons n' r')
    then have sub: "is_dir_at (fs_nodes s) (l @ [n])" using below by simp
    then obtain mode' where "fs_nodes s (l @ [n]) = Some (Directory mode')" by (blast dest: is_dir_at_Some)
    from spells_lookup [OF q ok this is_dir_not_link [OF sub]] sub stat have "fs_is_dir s ?q" by (simp add: fs_is_dir_def)
    with walk_entries_finds [OF walk n] obtain ps' where ps': "walkdir k ls s ?q = Some (Inr ps')" "set ps' \<subseteq> set ps" by auto
    from Suc.IH [OF ps'(1) q sub, of n' r'] Suc.prems(4) Cons ps'(2) show ?thesis by auto
  qed
qed simp

section \<open>All orphans go\<close>

lemma remove_orphans_ok:
  "fs_ok (fs_nodes s) \<Longrightarrow> remove_orphans s ps c = (s', n) \<Longrightarrow> same_env s s' \<and> fs_ok (fs_nodes s')"
proof (induction ps arbitrary: s c)
  case (Cons p ps)
  obtain s1 r where rm: "fs_remove_file s p = (s1, r)" by (cases "fs_remove_file s p")
  have "same_env s s1 \<and> fs_ok (fs_nodes s1)"
  proof (cases "fs_lookup s False p")
    case (Found l)
    with fs_remove_file_at [OF Cons.prems(1) _ rm, of l] show ?thesis by simp
  qed (use rm Cons.prems(1) in \<open>auto simp: fs_remove_file_def split: option.splits\<close>)
  moreover have "same_env s1 s' \<and> fs_ok (fs_nodes s')" if "fs_ok (fs_nodes s1)" "is_orphan_name p"
    using Cons.IH [OF that(1)] Cons.prems(2) rm that(2) by (cases r) auto
  moreover have "same_env s s' \<and> fs_ok (fs_nodes s')" if "\<not> is_orphan_name p"
    using Cons.IH [OF Cons.prems(1)] Cons.prems(2) that by simp
  ultimately show ?case using same_env_trans by blast
qed simp

lemma remove_orphans_gone:
  assumes "spells q l" and "is_orphan_name q"
  shows "fs_ok (fs_nodes s) \<Longrightarrow> \<forall>p. fs_fault s OpRemove p = None \<Longrightarrow> q \<in> set ps \<Longrightarrow>
     \<forall>q \<in> set ps. \<exists>d name. q = path_join d name \<and> valid_name name \<Longrightarrow>
     (case fs_nodes s l of None \<Rightarrow> True | Some nd \<Rightarrow> \<exists>d m. nd = RegFile d m) \<Longrightarrow>
     remove_orphans s ps c = (s', n) \<Longrightarrow> fs_nodes s' l = None"
proof (induction ps arbitrary: s c)
  case (Cons p ps)
  show ?case
  proof (cases "fs_nodes s l")
    case None
    with remove_orphans_changes [OF Cons.prems(4,6), of l] show ?thesis by metis
  next
    case (Some nd)
    obtain s1 r where rm: "fs_remove_file s p = (s1, r)" by (cases "fs_remove_file s p")
    show ?thesis
    proof (cases "p = q")
      case True
      have "fs_lookup s False q = Found l" using Some Cons.prems(5)
        by (intro spells_lookup [OF assms(1) Cons.prems(1)]) (auto simp: is_link_at_def)
      with True rm Some Cons.prems(2,5) have s1: "s1 = set_node l None s" "r = Inr ()"
        by (auto simp: fs_remove_file_def is_dir_at_def)
      with True rm Cons.prems(6) assms(2) have "remove_orphans s1 ps (c + 1) = (s', n)" by simp
      from remove_orphans_changes [OF _ this, of l] Cons.prems(4) s1(1) show ?thesis by (metis fs_nodes_set_node fun_upd_same list.set_intros(2))
    next
      case False
      then have q: "q \<in> set ps" using Cons.prems(3) by simp
      have names: "\<forall>q \<in> set ps. \<exists>d name. q = path_join d name \<and> valid_name name" using Cons.prems(4) by simp
      show ?thesis
      proof (cases "is_orphan_name p")
        case skip: False
        with Cons.prems(6) have "remove_orphans s ps c = (s', n)" by simp
        from Cons.IH [OF Cons.prems(1,2) q names Cons.prems(5) this] show ?thesis .
      next
        case orphan: True
        with rm Cons.prems(6) obtain c' where rest: "remove_orphans s1 ps c' = (s', n)" by (auto split: sum.splits)
        obtain c1 n1 where one: "remove_orphans s [p] c1 = (s1, n1)" using rm orphan by (cases r) auto
        from remove_orphans_ok [OF Cons.prems(1) one] Cons.prems(2)
        have ok: "fs_ok (fs_nodes s1)" "\<forall>p. fs_fault s1 OpRemove p = None" using same_env_fault by auto
        have "case fs_nodes s1 l of None \<Rightarrow> True | Some nd \<Rightarrow> \<exists>d m. nd = RegFile d m"
          using fs_remove_file_changes [OF rm, of l] Cons.prems(5) by (cases "fs_nodes s1 l = fs_nodes s l") auto
        from Cons.IH [OF ok q names this rest] show ?thesis .
      qed
    qed
  qed
qed simp

lemma spells_orphan:
  assumes "spells q l" and "orphan_loc l"
  shows "is_orphan_name q"
  using assms path_file_name_literal [of q] by (auto simp: spells_def orphan_loc_def is_orphan_name_def)

section \<open>The restart\<close>

lemma cleanup_complete:
  assumes ok: "fs_ok (fs_nodes s)" and faults: "\<forall>p. fs_fault s OpStat p = None \<and> fs_fault s OpRemove p = None"
    and ls: "lists_names ls" "lists_all ls s" and height: "\<forall>l. fs_nodes s l \<noteq> None \<longrightarrow> length l \<le> h"
    and root: "spells root R" "is_dir_at (fs_nodes s) R" "last root \<noteq> CHR ''/''" and fuel: "41 * Suc h \<le> fuel"
  shows "\<exists>s' n. cleanup_orphan_temps fuel ls s root = Some (s', n) \<and>
     (\<forall>l d m. strict_prefix R l \<and> orphan_loc l \<longrightarrow> fs_nodes s' l \<noteq> Some (RegFile d m)) \<and>
     (\<forall>l. fs_nodes s' l = fs_nodes s l \<or> fs_nodes s' l = None \<and> orphan_loc l)"
proof -
  from root(1) have "root \<noteq> []" by (auto simp: spells_def literal_path_def is_absolute_def)
  from walk_ends [OF ls(1) height this root(3) fuel] walkdir_ok [OF ls(2)] obtain ps
    where ps: "walkdir fuel ls s root = Some (Inr ps)" by blast
  obtain s' n where rm: "remove_orphans s ps 0 = (s', n)" by (cases "remove_orphans s ps 0")
  from ps rm have run: "cleanup_orphan_temps fuel ls s root = Some (s', n)" by (simp add: cleanup_orphan_temps_def)
  note changes = cleanup_changes [OF ls(1) run]
  have "fs_nodes s' l \<noteq> Some (RegFile d m)" if l: "strict_prefix R l" "orphan_loc l" for l d m
  proof
    assume left: "fs_nodes s' l = Some (RegFile d m)"
    then have nd: "fs_nodes s l = Some (RegFile d m)" using changes [of l] by fastforce
    from l(1) obtain c r where split: "l = R @ c # r" by (auto elim: strict_prefixE')
    from walkdir_finds [OF ok _ ls(2) ps root(1,2) nd [unfolded split]] faults
    obtain q where q: "q \<in> set ps" "spells q l" unfolding split by blast
    have "\<forall>q \<in> set ps. \<exists>d name. q = path_join d name \<and> valid_name name" using walkdir_paths [OF ls(1) ps] by blast
    from remove_orphans_gone [OF q(2) spells_orphan [OF q(2) l(2)] ok _ q(1) this _ rm] faults nd left
    show False by simp
  qed
  with run changes show ?thesis by blast
qed

lemma tmp_orphan: "orphan_loc (tmp_loc p aid)"
proof -
  have "last (path_loc p) @ ''.ama.'' @ aid @ ''.tmp'' = last (path_loc p) @ ''.ama.'' @ (aid @ ''.tmp'')" by simp
  then show ?thesis unfolding orphan_loc_def tmp_loc_def by (auto simp: contains_str_iff ends_with_def)
qed

lemma tmp_locs_orphans:
  assumes "l \<in> tmp_locs J" and "\<forall>t. strict_prefix R (job_loc (J t))"
  shows "orphan_loc l" and "strict_prefix R l"
proof -
  from assms(1) obtain t path content aid where t: "J t = WriteJob path content aid" "l = tmp_loc (wp_canonical path) aid"
    by (auto simp: tmp_locs_def elim: job_tmp.elims)
  with tmp_orphan show "orphan_loc l" by simp
  from assms(2) t(1) have "strict_prefix R (path_loc (wp_canonical path))"
    by (metis job_loc_def file_job.sel(1))
  with t(2) tmp_loc_below show "strict_prefix R l" by simp
qed

text \<open>What a run of jobs has left at a location, for a daemon that starts on it.\<close>

definition recovered :: "fs_state \<Rightarrow> (nat \<Rightarrow> file_job) \<Rightarrow> fs_state \<Rightarrow> location \<Rightarrow> bool" where
  "recovered s J y l \<longleftrightarrow>
     fs_nodes y l = fs_nodes s l \<or>
     (fs_nodes s l = None \<and> is_dir_at (fs_nodes y) l \<and>
        (\<exists>u. job_text (J u) \<noteq> None \<and> strict_prefix l (job_loc (J u)))) \<or>
     (\<exists>u d m. job_loc (J u) = l \<and> job_text (J u) = Some d \<and> fs_nodes y l = Some (RegFile d m))"

lemma cleanup_recovers:
  assumes site: "site_ok s J" and c: "c = fc_run J es (fc_boot J s)"
    and y: "fs_nodes y = fs_nodes (fc_fs c)" "\<forall>p. fs_fault y OpStat p = None \<and> fs_fault y OpRemove p = None"
    and ls: "lists_names ls" "lists_all ls y" and height: "\<forall>l. fs_nodes y l \<noteq> None \<longrightarrow> length l \<le> h"
    and ws: "spells ws R" "is_dir_at (fs_nodes s) R" "last ws \<noteq> CHR ''/''" "\<forall>t. strict_prefix R (job_loc (J t))"
    and fuel: "41 * Suc h \<le> fuel"
  shows "\<exists>y' n. cleanup_orphan_temps fuel ls y ws = Some (y', n) \<and>
     (\<forall>l d m. l \<in> tmp_locs J \<or> strict_prefix R l \<and> orphan_loc l \<longrightarrow> fs_nodes y' l \<noteq> Some (RegFile d m)) \<and>
     (\<forall>l. orphan_loc l \<or> recovered s J y' l) \<and>
     (\<forall>t n. job_text (J t) = None \<or> fc_pc c t \<noteq> Wrote (Inr n) \<or> orphan_loc (job_loc (J t)) \<or>
        (\<exists>u d m. job_loc (J u) = job_loc (J t) \<and> job_text (J u) = Some d \<and>
           fs_nodes y' (job_loc (J t)) = Some (RegFile d m)))"
proof -
  from files_inv_run [OF site files_inv_boot [OF site], of es] c have inv: "files_inv s J c" by simp
  then have ok: "fs_ok (fs_nodes y)" and settled: "\<And>l. l \<notin> tmp_locs J \<Longrightarrow> settled s J c l"
    by (simp_all add: files_inv_def y(1))
  have "R \<notin> tmp_locs J" using tmp_locs_orphans(2) [OF _ ws(4)] by (auto simp: strict_prefix_def)
  from settled [OF this] ws(2) have "is_dir_at (fs_nodes y) R" by (auto simp: settled_def is_dir_at_def y(1))
  from cleanup_complete [OF ok y(2) ls height ws(1) this ws(3) fuel] obtain y' n
    where run: "cleanup_orphan_temps fuel ls y ws = Some (y', n)"
      and gone: "\<forall>l d m. strict_prefix R l \<and> orphan_loc l \<longrightarrow> fs_nodes y' l \<noteq> Some (RegFile d m)"
      and kept: "\<forall>l. fs_nodes y' l = fs_nodes y l \<or> fs_nodes y' l = None \<and> orphan_loc l" by blast
  have same: "fs_nodes y' l = fs_nodes (fc_fs c) l" if "\<not> orphan_loc l" for l using kept that y(1) by metis
  have "recovered s J y' l" if l: "\<not> orphan_loc l" for l
  proof -
    from l have "l \<notin> tmp_locs J" using tmp_locs_orphans(1) [OF _ ws(4)] by blast
    from settled [OF this] show ?thesis
      unfolding settled_def recovered_def installed_def is_dir_at_def same [OF l] by blast
  qed
  moreover have "\<exists>u d m. job_loc (J u) = job_loc (J t) \<and> job_text (J u) = Some d \<and>
      fs_nodes y' (job_loc (J t)) = Some (RegFile d m)"
    if "job_text (J t) \<noteq> None" "fc_pc c t = Wrote (Inr k)" "\<not> orphan_loc (job_loc (J t))" for t k
  proof -
    from inv that have "installed J c (job_loc (J t))" by (simp add: files_inv_def)
    then show ?thesis unfolding installed_def same [OF that(3)] by blast
  qed
  moreover have "fs_nodes y' l \<noteq> Some (RegFile d m)" if "l \<in> tmp_locs J" for l d m
    using gone tmp_locs_orphans [OF that ws(4)] by blast
  ultimately show ?thesis using run gone by blast
qed

section \<open>A concrete crash\<close>

text \<open>The listing of any tree whose entries have the given names.\<close>

definition scan :: "string list \<Rightarrow> lister" where
  "scan names s d =
     (case fs_lookup s True d of
        Found l \<Rightarrow> Inr (map Inr (filter (\<lambda>n. fs_nodes s (l @ [n]) \<noteq> None) names))
      | Absent l \<Rightarrow> Inl enoent
      | Bad e \<Rightarrow> Inl e)"

lemma scan_lists:
  "list_all valid_name names \<Longrightarrow> lists_names (scan names)"
  "\<forall>l n. fs_nodes s (l @ [n]) \<noteq> None \<longrightarrow> n \<in> set names \<Longrightarrow> lists_all (scan names) s"
  by (auto simp: lists_names_def lists_all_def scan_def list_all_iff split: fs_lookup.splits)

text \<open>Alice's workspace beside a configuration; the process dies after five bytes of the first writer's
  text.\<close>

definition crash_nodes :: "(location \<times> fs_node) list" where
  "crash_nodes = alice_nodes @ filter (\<lambda>(l, nd). hd l = ''config'') sample_boot_nodes"

lemma crash_site: "site_ok (fs_of_list crash_nodes) sample_jobs"
proof -
  let ?s = "fs_of_list crash_nodes"
  have sound: "sound_fs ?s" by (rule fs_ok_of_list) code_simp
  have lit: "literal_path ''/ws/alice/old.txt''" and loc: "path_loc ''/ws/alice/old.txt'' = [''ws'', ''alice'', ''old.txt'']"
    by code_simp+
  have fresh: "fresh_action ?s aid" if "CHR ''/'' \<notin> set aid" for aid
    by (rule fresh_action_of_list [OF _ that]) code_simp
  have "link_free (fs_nodes ?s) [''ws'', ''alice'', ''old.txt'']" by (rule link_free_of_list) code_simp
  with sound lit loc fresh show ?thesis
    by (auto simp: site_ok_def sample_jobs_def old_path_def job_loc_def tmp_locs_def tmp_loc_def
        split: if_splits)
qed

definition sample_crash :: files_state where
  "sample_crash = fc_run sample_jobs (replicate 14 (0, 4)) (fc_boot sample_jobs (fs_of_list crash_nodes))"

definition sample_names :: "string list" where
  "sample_names =
     [''etc'', ''ws'', ''alice'', ''old.txt'', ''old.txt.ama.id1.tmp'', ''old.txt.ama.id2.tmp'', ''config'',
      ''config.toml'', ''domains.toml'', ''intents.toml'', ''allowlist.toml'']"

definition restart_env :: start_env where
  "restart_env = sample_env\<lparr>se_lister := scan sample_names, se_fuel := 164\<rparr>"

lemma run_entries:
  assumes "files_inv s J c" and "fs_nodes (fc_fs c) l \<noteq> None"
  shows "fs_nodes s l \<noteq> None \<or> l \<in> tmp_locs J \<or> (\<exists>t. prefix l (job_loc (J t)))"
  using assms by (auto simp: files_inv_def settled_def installed_def strict_prefix_def)

lemma sample_crash_entries:
  assumes "fs_nodes (fc_fs sample_crash) l \<noteq> None"
  shows "length l \<le> 3 \<and> set l \<subseteq> set sample_names"
proof -
  have "files_inv (fs_of_list crash_nodes) sample_jobs sample_crash"
    unfolding sample_crash_def by (rule files_inv_run [OF crash_site files_inv_boot [OF crash_site]])
  from run_entries [OF this assms] consider "fs_nodes (fs_of_list crash_nodes) l \<noteq> None"
    | "l \<in> tmp_locs sample_jobs" | t where "prefix l (job_loc (sample_jobs t))" by blast
  then show ?thesis
  proof cases
    case 1
    then have "l = [] \<or> (\<exists>nd. (l, nd) \<in> set crash_nodes)"
      by (auto simp: fs_of_list_def split: if_splits dest: map_of_SomeD)
    then show ?thesis by (auto simp: crash_nodes_def alice_nodes_def sample_boot_nodes_def sample_names_def)
  next
    case 2
    then have "l \<in> {tmp_loc ''/ws/alice/old.txt'' ''id1'', tmp_loc ''/ws/alice/old.txt'' ''id2''}"
      by (auto simp: tmp_locs_def sample_jobs_def old_path_def split: if_splits)
    moreover have "tmp_loc ''/ws/alice/old.txt'' ''id1'' = [''ws'', ''alice'', ''old.txt.ama.id1.tmp'']"
      "tmp_loc ''/ws/alice/old.txt'' ''id2'' = [''ws'', ''alice'', ''old.txt.ama.id2.tmp'']" by code_simp+
    ultimately show ?thesis by (auto simp: sample_names_def)
  next
    case 3
    moreover have "job_loc (sample_jobs t) = path_loc ''/ws/alice/old.txt''"
      by (simp add: sample_jobs_def job_loc_def old_path_def)
    moreover have "path_loc ''/ws/alice/old.txt'' = [''ws'', ''alice'', ''old.txt'']" by code_simp
    ultimately have "prefix l [''ws'', ''alice'', ''old.txt'']" by simp
    then show ?thesis by (auto simp: sample_names_def prefix_Cons)
  qed
qed

section \<open>Properties\<close>

text \<open>C20: a crash loses nothing and leaves nothing. However writes and reads were interleaved when the
  process died, a start of the daemon on what is left ends, and if the configuration loads it leaves
  no temporary file below the workspace root; every entry without a temporary name is what it was
  before the writes, a new directory on the way to a target, or a file with the complete text of one
  write to it; and a write that was reported is still there, its own text or the text of another
  write, unless its target itself has a temporary name. A daemon that listens serves this tree.\<close>

theorem crash_recovered:
  assumes site: "site_ok s J" and c: "c = fc_run J es (fc_boot J s)"
    and y: "fs_nodes y = fs_nodes (fc_fs c)" "\<forall>p. fs_fault y OpStat p = None \<and> fs_fault y OpRemove p = None"
    and cfg: "load_config (se_toml E) (se_lister E) y ''config'' = Inr cfg"
    and ls: "lists_names (se_lister E)" "lists_all (se_lister E) y"
    and height: "\<forall>l. fs_nodes y l \<noteq> None \<longrightarrow> length l \<le> h" and fuel: "41 * Suc h \<le> se_fuel E"
    and ws: "spells (cf_workspace_root cfg) R" "is_dir_at (fs_nodes s) R" "last (cf_workspace_root cfg) \<noteq> CHR ''/''"
      "\<forall>t. strict_prefix R (job_loc (J t))"
  shows "\<exists>y' r. start_daemon E y = Some (y', r) \<and>
     (\<forall>l d m. l \<in> tmp_locs J \<or> strict_prefix R l \<and> orphan_loc l \<longrightarrow> fs_nodes y' l \<noteq> Some (RegFile d m)) \<and>
     (\<forall>l. orphan_loc l \<or> recovered s J y' l) \<and>
     (\<forall>t n. job_text (J t) = None \<or> fc_pc c t \<noteq> Wrote (Inr n) \<or> orphan_loc (job_loc (J t)) \<or>
        (\<exists>u d m. job_loc (J u) = job_loc (J t) \<and> job_text (J u) = Some d \<and>
           fs_nodes y' (job_loc (J t)) = Some (RegFile d m))) \<and>
     (case r of Inl e \<Rightarrow> True | Inr (addr, st) \<Rightarrow> st_fs st = y')"
proof -
  from cleanup_recovers [OF site c y ls height ws fuel] obtain y' n
    where run: "cleanup_orphan_temps (se_fuel E) (se_lister E) y (cf_workspace_root cfg) = Some (y', n)"
      and facts: "\<forall>l d m. l \<in> tmp_locs J \<or> strict_prefix R l \<and> orphan_loc l \<longrightarrow> fs_nodes y' l \<noteq> Some (RegFile d m)"
        "\<forall>l. orphan_loc l \<or> recovered s J y' l"
        "\<forall>t n. job_text (J t) = None \<or> fc_pc c t \<noteq> Wrote (Inr n) \<or> orphan_loc (job_loc (J t)) \<or>
          (\<exists>u d m. job_loc (J u) = job_loc (J t) \<and> job_text (J u) = Some d \<and>
             fs_nodes y' (job_loc (J t)) = Some (RegFile d m))" by blast
  have "\<exists>r. start_daemon E y = Some (y', r) \<and> (case r of Inl e \<Rightarrow> True | Inr (addr, st) \<Rightarrow> st_fs st = y')"
    by (simp add: start_daemon_def cfg run Let_def app_state_new_def split: option.split)
  with facts show ?thesis by blast
qed

text \<open>The torn temporary file is there after the crash, and gone after the restart.\<close>

theorem crash_recovered_witness:
  "fs_nodes (fc_fs sample_crash) [''ws'', ''alice'', ''old.txt.ama.id1.tmp''] = Some (RegFile ''brand'' 420) \<and>
   (\<exists>y' r. start_daemon restart_env (fc_fs sample_crash) = Some (y', r) \<and>
      (\<forall>d m. fs_nodes y' [''ws'', ''alice'', ''old.txt.ama.id1.tmp''] \<noteq> Some (RegFile d m)) \<and>
      recovered (fs_of_list crash_nodes) sample_jobs y' [''ws'', ''alice'', ''old.txt''])"
proof
  let ?s = "fs_of_list crash_nodes" and ?y = "fc_fs sample_crash"
  have "case load_config (se_toml restart_env) (se_lister restart_env) ?y ''config'' of
      Inl e \<Rightarrow> False | Inr cfg \<Rightarrow> cf_workspace_root cfg = ''/ws''" by code_simp
  then obtain cfg where cfg: "load_config (se_toml restart_env) (se_lister restart_env) ?y ''config'' = Inr cfg"
    and root: "cf_workspace_root cfg = ''/ws''" by (auto split: sum.splits)
  have faults: "\<forall>p. fs_fault ?y OpStat p = None \<and> fs_fault ?y OpRemove p = None"
  proof -
    have "files_inv ?s sample_jobs sample_crash"
      unfolding sample_crash_def by (rule files_inv_run [OF crash_site files_inv_boot [OF crash_site]])
    then have "same_env ?s ?y" by (simp add: files_inv_def)
    then show ?thesis using same_env_fault by (auto simp: fs_of_list_def)
  qed
  have lister: "se_lister restart_env = scan sample_names" and fuel: "41 * Suc 3 \<le> se_fuel restart_env"
    by (simp_all add: restart_env_def)
  have names: "lists_names (se_lister restart_env)" unfolding lister by (rule scan_lists(1)) code_simp
  have all: "lists_all (se_lister restart_env) ?y"
    unfolding lister using sample_crash_entries by (intro scan_lists(2)) fastforce
  have ws: "spells (cf_workspace_root cfg) [''ws'']" "is_dir_at (fs_nodes ?s) [''ws'']"
    "last (cf_workspace_root cfg) \<noteq> CHR ''/''" unfolding root by code_simp+
  have below: "\<forall>t. strict_prefix [''ws''] (job_loc (sample_jobs t))"
  proof
    fix t
    have "job_loc (sample_jobs t) = path_loc ''/ws/alice/old.txt''"
      by (simp add: sample_jobs_def job_loc_def old_path_def)
    moreover have "strict_prefix [''ws''] (path_loc ''/ws/alice/old.txt'')" by code_simp
    ultimately show "strict_prefix [''ws''] (job_loc (sample_jobs t))" by simp
  qed
  have "\<not> orphan_loc [''ws'', ''alice'', ''old.txt'']" and tmp: "orphan_loc [''ws'', ''alice'', ''old.txt.ama.id1.tmp'']"
    and tmp_below: "strict_prefix [''ws''] [''ws'', ''alice'', ''old.txt.ama.id1.tmp'']" by code_simp+
  with crash_recovered [OF crash_site sample_crash_def refl faults cfg names all _ fuel ws below] sample_crash_entries
  show "\<exists>y' r. start_daemon restart_env ?y = Some (y', r) \<and>
      (\<forall>d m. fs_nodes y' [''ws'', ''alice'', ''old.txt.ama.id1.tmp''] \<noteq> Some (RegFile d m)) \<and>
      recovered ?s sample_jobs y' [''ws'', ''alice'', ''old.txt'']" by blast
qed code_simp

text \<open>The exception is real. An agent may name a file as temporary files are named; the write is reported
  and the text is there, until the daemon starts again and deletes it.\<close>

theorem orphan_named_file_lost:
  "case new_with_agent (fs_of_list alice_nodes) ''notes.ama.v1.tmp'' ''/ws'' (Some ''alice'') of
     Inl e \<Rightarrow> False
   | Inr w \<Rightarrow>
       (case file_write (fs_of_list alice_nodes) w (BoundedBytes ''hi'') ''id1'' of (s1, r) \<Rightarrow>
          r = Inr 2 \<and> fs_nodes s1 [''ws'', ''alice'', ''notes.ama.v1.tmp''] = Some (RegFile ''hi'' 420) \<and>
          (case cleanup_orphan_temps 9 (scan (''notes.ama.v1.tmp'' # sample_names)) s1 ''/ws'' of
             None \<Rightarrow> False
           | Some (s2, n) \<Rightarrow> n = 1 \<and> fs_nodes s2 [''ws'', ''alice'', ''notes.ama.v1.tmp''] = None))"
  by code_simp

end
