(* ===== verification/Demo_Handoff.thy ===== *)
theory Demo_Handoff
  imports Config_Load Pipeline
begin

text \<open>
  The integration demo \<open>safa-core/examples/slime_public_proof.rs\<close>: it writes a configuration,
  prepares two requests up to the point where the pipeline would ask its authorizer, hands both to
  an external runner over TCP and checks what the runner wrote. The runner with its TCP port and
  egress file is the record \<open>runner\<close>, over a state of any type; environment variables, the
  temporary directory, the fresh identifier and the results of spawning are the record \<open>demo_env\<close>.
\<close>

section \<open>Handing over a request\<close>

definition prepare_handoff :: "action_request \<Rightarrow> ama_config \<Rightarrow> ama_error + string \<times> u64" where
  "prepare_handoff request cfg =
     rbind (validate_magnitude (rq_magnitude request)) (\<lambda>_.
     rbind (validate_field_exclusivity request) (\<lambda>_.
     rbind (map_action (rq_action request) (rq_magnitude request) cfg) (\<lambda>mapping.
     Inr (md_domain_id mapping, md_magnitude mapping))))"

definition crlf :: string where
  "crlf = [CHR 0x0D, CHR 0x0A]"

definition handoff_body :: "string \<Rightarrow> u64 \<Rightarrow> string" where
  "handoff_body domain magnitude =
     ''{'' @ [CHR 0x22] @ ''domain'' @ [CHR 0x22] @ '':'' @ [CHR 0x22] @ domain @ [CHR 0x22] @ '',''
       @ [CHR 0x22] @ ''magnitude'' @ [CHR 0x22] @ '':'' @ show_u64 magnitude @ ''}''"

definition handoff_request :: "string \<Rightarrow> u64 \<Rightarrow> string" where
  "handoff_request domain magnitude =
     (let body = handoff_body domain magnitude
      in ''POST /action HTTP/1.1'' @ crlf @ ''Host: 127.0.0.1'' @ crlf
           @ ''Content-Type: application/json'' @ crlf
           @ ''Content-Length: '' @ show_nat (length body) @ crlf @ crlf @ body)"

text \<open>One exchange with the runner, and its egress file.\<close>

record 'r runner =
  rn_exchange :: "'r \<Rightarrow> string \<Rightarrow> 'r \<times> (string + string)"
  rn_egress :: "'r \<Rightarrow> string + bytes"

definition post_to_slime :: "'r runner \<Rightarrow> 'r \<Rightarrow> string \<Rightarrow> u64 \<Rightarrow> 'r \<times> (string + string)" where
  "post_to_slime R r domain magnitude = rn_exchange R r (handoff_request domain magnitude)"

section \<open>Setting up\<close>

record 'r demo_env =
  de_port_open :: bool
  de_runner_dir_var :: "string option"
  de_manifest_dir :: string
  de_temp_dir :: string
  de_uuid :: string
  de_spawn :: "string \<Rightarrow> string \<Rightarrow> string + 'r"
  de_connects :: "nat \<Rightarrow> bool"
  de_try_wait :: "nat \<Rightarrow> string + string option"
  de_stderr :: string

text \<open>The third proper ancestor of a path, or none.\<close>

definition third_ancestor :: "string \<Rightarrow> string option" where
  "third_ancestor p = Option.bind (Option.bind (path_parent p) path_parent) path_parent"

definition slime_runner_dir :: "'r demo_env \<Rightarrow> fs_state \<Rightarrow> string + string" where
  "slime_runner_dir E s =
     (case de_runner_dir_var E of
        Some path \<Rightarrow>
          if fs_is_dir s path then Inr path
          else Inl (''SLIME_RUNNER_DIR does not exist: '' @ path)
      | None \<Rightarrow>
          (case third_ancestor (de_manifest_dir E) of
             None \<Rightarrow> Inl ''could not derive projects directory from CARGO_MANIFEST_DIR''
           | Some projects \<Rightarrow>
               (let derived = foldl path_join projects
                      [''slime-phase1b'', ''SLIME'', ''noncanon'', ''implementation_bundle'', ''slime-runner'']
                in if fs_is_dir s derived then Inr derived
                   else Inl (''could not find slime-runner at '' @ derived
                          @ ''; set SLIME_RUNNER_DIR explicitly''))))"

text \<open>The loop that waits for the runner's port: 40 attempts from \<open>k\<close> on.\<close>

fun await_runner :: "'r demo_env \<Rightarrow> nat \<Rightarrow> nat \<Rightarrow> string + unit" where
  "await_runner E k 0 = Inl ''timed out waiting for slime-runner on 127.0.0.1:8080''"
| "await_runner E k (Suc n) =
     (if de_connects E k then Inr ()
      else (case de_try_wait E k of
          Inl e \<Rightarrow> Inl e
        | Inr (Some status) \<Rightarrow>
            Inl (''slime-runner exited before becoming ready: '' @ status @ ''; stderr: '' @ de_stderr E)
        | Inr None \<Rightarrow> await_runner E (Suc k) n))"

definition runner_spawn :: "'r demo_env \<Rightarrow> string \<Rightarrow> string \<Rightarrow> string + 'r" where
  "runner_spawn E dir egress =
     rbind (de_spawn E dir egress) (\<lambda>r. rbind (await_runner E 0 40) (\<lambda>_. Inr r))"

text \<open>The guard kills and reaps the runner when it is dropped; only a runner that became ready has one.\<close>

datatype runner_event = RunnerStarted | RunnerKilled | RunnerReaped

definition runner_drop :: "runner_event list" where
  "runner_drop = [RunnerKilled, RunnerReaped]"

definition runner_events :: "'r demo_env \<Rightarrow> string \<Rightarrow> string \<Rightarrow> runner_event list" where
  "runner_events E dir egress =
     (case de_spawn E dir egress of
        Inl e \<Rightarrow> []
      | Inr r \<Rightarrow> RunnerStarted # (case await_runner E 0 40 of Inl e \<Rightarrow> [] | Inr u \<Rightarrow> runner_drop))"

definition text_lines :: "string list \<Rightarrow> string" where
  "text_lines ls = concat (map (\<lambda>l. CHR 0x0A # l) ls) @ [CHR 0x0A]"

definition in_quotes :: "string \<Rightarrow> string" where
  "in_quotes t = CHR 0x22 # t @ [CHR 0x22]"

definition config_text :: "string \<Rightarrow> string" where
  "config_text root =
     text_lines
       [''[safa]'', ''workspace_root = '' @ in_quotes root, ''bind_host = '' @ in_quotes ''127.0.0.1'',
        ''bind_port = 8787'', [], ''[slime]'', ''mode = '' @ in_quotes ''embedded'', ''max_capacity = 100'', [],
        ''[slime.domains.test]'', ''enabled = true'', ''max_magnitude_per_action = 20'', [],
        ''[slime.domains.unknown_demo]'', ''enabled = true'', ''max_magnitude_per_action = 20'']"

definition domains_text :: string where
  "domains_text =
     text_lines
       [''[meta]'', ''schema_version = '' @ in_quotes ''safa-domains-v1'', [], ''[domains.file_write]'',
        ''domain_id = '' @ in_quotes ''test'', ''max_payload_bytes = 1048576'',
        ''validator = '' @ in_quotes ''relative_workspace_path'', [], ''[domains.file_read]'',
        ''domain_id = '' @ in_quotes ''unknown.demo'',
        ''validator = '' @ in_quotes ''relative_workspace_path'']"

text \<open>Write the files in order; the first failure ends the demo.\<close>

fun write_files :: "fs_state \<Rightarrow> (string \<times> string) list \<Rightarrow> fs_state \<times> (string + unit)" where
  "write_files s [] = (s, Inr ())"
| "write_files s ((path, text) # rest) =
     (case fs_write s path text of
        (s1, Inl e) \<Rightarrow> (s1, Inl e)
      | (s1, Inr u) \<Rightarrow> write_files s1 rest)"

definition write_demo_config :: "fs_state \<Rightarrow> string \<Rightarrow> string \<Rightarrow> fs_state \<times> (string + unit)" where
  "write_demo_config s config_root workspace_root =
     (let escaped = replace_str workspace_root [CHR 0x5C] [CHR 0x5C, CHR 0x5C]
      in write_files s
           [(path_join config_root ''config.toml'', config_text escaped),
            (path_join config_root ''domains.toml'', domains_text),
            (path_join config_root ''intents.toml'',
               text_lines [''[meta]'', ''schema_version = '' @ in_quotes ''safa-intents-v1'']),
            (path_join config_root ''allowlist.toml'',
               text_lines [''[meta]'', ''schema_version = '' @ in_quotes ''safa-allowlist-v1''])])"

section \<open>The demo\<close>

definition from_le_bytes :: "bytes \<Rightarrow> u64" where
  "from_le_bytes bs = foldr (\<lambda>b acc. word_of_nat (of_char b) + 256 * acc) bs 0"

definition demo_request :: "string \<Rightarrow> string \<Rightarrow> u64 \<Rightarrow> string option \<Rightarrow> action_request" where
  "demo_request action target magnitude payload =
     \<lparr>rq_adapter = ''integration-demo'', rq_action = action, rq_target = target, rq_magnitude = magnitude,
      rq_dry_run = False, rq_method = None, rq_payload = payload, rq_args = None\<rparr>"

definition status_text :: "string \<Rightarrow> string" where
  "status_text v = ''{'' @ in_quotes ''status'' @ '':'' @ in_quotes v @ ''}''"

text \<open>What the runner answered and wrote, checked step by step; the result is the final egress size.\<close>

definition check_runner :: "'r runner \<Rightarrow> 'r \<Rightarrow> string \<times> u64 \<Rightarrow> string \<times> u64 \<Rightarrow> string + nat" where
  "check_runner R r allowed denied =
     (let (r1, answer1) = post_to_slime R r (fst allowed) (snd allowed) in
      rbind answer1 (\<lambda>allowed_response.
      if \<not> contains_str allowed_response (status_text ''AUTHORIZED'') then
        Inl (''expected AUTHORIZED, got: '' @ allowed_response)
      else
      rbind (rn_egress R r1) (\<lambda>effect.
      if length effect \<noteq> 32 then
        Inl (''expected one 32-byte authorized effect, got '' @ show_nat (length effect) @ '' bytes'')
      else
      (let observed_domain = from_le_bytes (take 8 effect);
           observed_magnitude = from_le_bytes (take 8 (drop 8 effect)) in
       if observed_domain \<noteq> 0 \<or> observed_magnitude \<noteq> snd allowed then
         Inl (''unexpected authorized effect: domain_id='' @ show_u64 observed_domain
                @ '', magnitude='' @ show_u64 observed_magnitude)
       else
       (let (r2, answer2) = post_to_slime R r1 (fst denied) (snd denied) in
        rbind answer2 (\<lambda>denied_response.
        if \<not> contains_str denied_response (status_text ''IMPOSSIBLE'') then
          Inl (''expected IMPOSSIBLE, got: '' @ denied_response)
        else
        rbind (rn_egress R r2) (\<lambda>final_effect.
        if length final_effect \<noteq> 32 then
          Inl (''impossible path should not append egress data; observed ''
                 @ show_nat (length final_effect) @ '' bytes'')
        else Inr (length final_effect))))))))"

definition demo_handoffs :: "ama_config \<Rightarrow> ama_error + (string \<times> u64) \<times> (string \<times> u64)" where
  "demo_handoffs cfg =
     rbind (prepare_handoff (demo_request ''file_write'' ''allowed.txt'' 7 (Some ''proof'')) cfg) (\<lambda>allowed.
     rbind (prepare_handoff (demo_request ''file_read'' ''denied.txt'' 3 None) cfg) (\<lambda>denied.
     Inr (allowed, denied)))"

definition demo_main ::
  "'r demo_env \<Rightarrow> 'r runner \<Rightarrow> toml_reader \<Rightarrow> lister \<Rightarrow> fs_state \<Rightarrow> fs_state \<times> (string + nat)" where
  "demo_main E R T ls s =
     (if de_port_open E then
        (s, Inl (''127.0.0.1:8080 is already in use; stop the existing service ''
               @ ''before running this demo''))
      else (case slime_runner_dir E s of
        Inl e \<Rightarrow> (s, Inl e)
      | Inr dir \<Rightarrow>
          (let temp_root = path_join (de_temp_dir E) (''safa-slime-proof-'' @ de_uuid E);
               workspace_root = path_join temp_root ''workspace'';
               config_root = path_join temp_root ''config'';
               egress_file = path_join temp_root ''egress.bin''
           in case fs_create_dir_all s workspace_root of
                (s1, Inl e) \<Rightarrow> (s1, Inl e)
              | (s1, Inr _) \<Rightarrow>
                  (case fs_create_dir_all s1 config_root of
                     (s2, Inl e) \<Rightarrow> (s2, Inl e)
                   | (s2, Inr _) \<Rightarrow>
                       (case write_demo_config s2 config_root workspace_root of
                          (s3, Inl e) \<Rightarrow> (s3, Inl e)
                        | (s3, Inr _) \<Rightarrow>
                            (s3,
                             rbind (map_err ama_error_display (load_config T ls s3 config_root)) (\<lambda>cfg.
                             rbind (map_err ama_error_display (demo_handoffs cfg)) (\<lambda>(allowed, denied).
                             rbind (runner_spawn E dir egress_file) (\<lambda>r.
                             check_runner R r allowed denied)))))))))"

section \<open>What the demo shows\<close>

text \<open>The handoff is what the pipeline would ask its authorizer: whenever the pipeline gets as far as
  the authorizer, the demo hands over the same domain and magnitude; and it refuses no such request.\<close>

theorem handoff_matches_pipeline:
  "case prepare_handoff rq cfg of
     Inl e \<Rightarrow> \<forall>p. prepare H s rq cfg aid \<noteq> Inr p
   | Inr (d, m) \<Rightarrow> \<forall>act md. prepare H s rq cfg aid = Inr (act, md) \<longrightarrow> md_domain_id md = d \<and> md_magnitude md = m"
  by (auto simp: prepare_handoff_def prepare_def rbind_def split: sum.splits prod.splits)

lemma check_runner_ok:
  "check_runner R r allowed denied = Inr n \<Longrightarrow>
     \<exists>r1 a r2 b eff fin. post_to_slime R r (fst allowed) (snd allowed) = (r1, Inr a) \<and>
       contains_str a (status_text ''AUTHORIZED'') \<and> rn_egress R r1 = Inr eff \<and> length eff = 32 \<and>
       from_le_bytes (take 8 eff) = 0 \<and> from_le_bytes (take 8 (drop 8 eff)) = snd allowed \<and>
       post_to_slime R r1 (fst denied) (snd denied) = (r2, Inr b) \<and>
       contains_str b (status_text ''IMPOSSIBLE'') \<and> rn_egress R r2 = Inr fin \<and> length fin = 32 \<and> n = 32"
  by (auto simp: check_runner_def result_simps Let_def split: prod.splits if_splits)

text \<open>A runner that never becomes ready is left running: the demo gives up without killing it.\<close>

lemma await_times_out:
  "\<forall>i. \<not> de_connects E i \<and> de_try_wait E i = Inr None \<Longrightarrow>
     await_runner E k n = Inl ''timed out waiting for slime-runner on 127.0.0.1:8080''"
  by (induction E k n rule: await_runner.induct) simp_all

theorem runner_left_running:
  assumes "de_spawn E dir egress = Inr r" and "\<forall>i. \<not> de_connects E i \<and> de_try_wait E i = Inr None"
  shows "runner_spawn E dir egress = Inl ''timed out waiting for slime-runner on 127.0.0.1:8080'' \<and>
     runner_events E dir egress = [RunnerStarted]"
  using assms(1) await_times_out [OF assms(2), of 0 40]
  by (simp add: runner_spawn_def runner_events_def result_simps del: await_runner.simps)

end
