(* ===== verification/Test_Server.thy ===== *)
theory Test_Server
  imports Router Agent_Config
begin

text \<open>
  The configurations of the test servers at the end of \<open>safa-daemon/src/server.rs\<close>, which the
  integration tests run against. They are built directly, past the checks of the boot: they have
  the shape of a loaded configuration, and satisfy its invariant only for capacities the boot
  would accept.
\<close>

definition test_policies :: "(string, domain_policy) hmap" where
  "test_policies = [(''fs.write.workspace'', \<lparr>dp_enabled = True, dp_max_magnitude = 1000\<rparr>)]"

definition test_agent :: "string \<times> u64 \<times> u64 \<Rightarrow> agent_config" where
  "test_agent spec =
     (case spec of (agent_id, capacity, rate_limit) \<Rightarrow>
       \<lparr>ac_agent_id = agent_id, ac_max_capacity = capacity, ac_rate_limit_per_window = rate_limit,
        ac_rate_limit_window_secs = 60, ac_domain_policies = test_policies, ac_secret = None\<rparr>)"

definition test_config :: "string \<Rightarrow> (string \<times> u64 \<times> u64) list \<Rightarrow> ama_config" where
  "test_config workspace specs =
     (let agents = hm_collect (map (\<lambda>spec. (fst spec, test_agent spec)) specs)
      in \<lparr>cf_workspace_root = workspace, cf_bind_host = ''127.0.0.1'', cf_bind_port = 8787,
          cf_log_level = ''info'', cf_log_output = ''stderr'', cf_slime_mode = ''embedded'',
          cf_max_capacity = foldl (\<lambda>mx (_, capacity, _). if capacity > mx then capacity else mx) 0 specs,
          cf_domain_policies = test_policies,
          cf_domain_mappings =
            [(''file_write'', \<lparr>dm_domain_id = ''fs.write.workspace'', dm_max_payload_bytes = Some 1048576,
                              dm_validator = None, dm_requires_intent = False\<rparr>)],
          cf_intents = [], cf_allowlist = [], cf_agents = agents,
          cf_default_agent_id = (if hm_len agents = 1 then Some (hd (hm_keys agents)) else None),
          cf_boot_hashes = \<lparr>bh_config = ''test'', bh_domains = ''test'', bh_intents = ''test'',
                            bh_allowlist = ''test'', bh_agents = ''test''\<rparr>\<rparr>)"

definition test_server_config :: "string \<Rightarrow> ama_config" where
  "test_server_config workspace = test_config workspace [(''default'', 10000, 60)]"

definition test_capacity_config :: "string \<Rightarrow> u64 \<Rightarrow> ama_config" where
  "test_capacity_config workspace max_capacity = test_config workspace [(''default'', max_capacity, 60)]"

lemma test_agents_single:
  "cf_agents (test_config ws [(aid, cap, lim)]) = [(aid, test_agent (aid, cap, lim))]"
  by (simp add: test_config_def hm_collect_def hm_insert_def Let_def)

text \<open>The server with a given capacity is one the boot would accept only from capacity 1000 on, the
  magnitude its only policy allows; the tests also use smaller ones.\<close>

theorem test_capacity_bootable:
  "wf_agents U (cf_agents (test_capacity_config ws cap)) \<longleftrightarrow> 1000 \<le> cap"
proof -
  have "str_chars ''default'' = map of_char ''default''" by (rule str_chars_ascii) simp
  then have id: "list_all (agent_id_char U) (str_chars ''default'')"
    by (simp add: agent_id_char_def is_alphanumeric_def ascii_alphanumeric_def)
  have "0 < cap" if "1000 \<le> cap" using that by (simp add: word_le_nat_alt word_less_nat_alt)
  with id show ?thesis
    unfolding test_capacity_config_def wf_agents_def test_agents_single
    by (auto simp: test_agent_def wf_agent_def test_policies_def wf_policy_def hm_wf_def hmap_simps)
qed

end
