(* ===== verification/Unit_Tests.thy ===== *)
theory Unit_Tests
  imports Manifest
begin

text \<open>
  The unit tests inside \<open>identity.rs\<close> and \<open>manifest.rs\<close>, each as the condition it asserts, with
  theorems that say under which circumstances it passes. A test that calls \<open>now()\<close> twice reads the
  clock twice, so it takes two readings; subtraction and addition of times panic on overflow.
\<close>

section \<open>Identity binding\<close>

definition test_secret :: string where
  "test_secret = ''a]3kf9$mZp!wL2xR7vN8qB4cY6hT0jDs''"

definition test_agent_name :: string where
  "test_agent_name = ''test-agent''"

definition test_body :: bytes where
  "test_body = ''{\"action\":\"file_write\",\"target\":\"test.txt\",\"magnitude\":1}''"

definition tampered_body :: bytes where
  "tampered_body = ''{\"action\":\"shell_exec\",\"target\":\"rm -rf /\",\"magnitude\":1}''"

definition wrong_secret :: string where
  "wrong_secret = ''wrong-secret-that-is-long-enough!''"

text \<open>The call all tests of verification end in.\<close>

definition test_verify ::
  "crypto \<Rightarrow> string option \<Rightarrow> string option \<Rightarrow> bytes \<Rightarrow> u64 \<Rightarrow> identity_error + unit" where
  "test_verify X ts sig body now = verify_identity X test_secret test_agent_name ts sig body now"

definition test_sign :: "crypto \<Rightarrow> string \<Rightarrow> string" where
  "test_sign X ts = compute_signature X test_secret test_agent_name ts test_body"

definition test_valid_signature :: "crypto \<Rightarrow> u64 \<Rightarrow> u64 \<Rightarrow> bool" where
  "test_valid_signature X n1 n2 =
     (let ts = show_u64 n1 in is_ok (test_verify X (Some ts) (Some (test_sign X ts)) test_body n2))"

definition test_wrong_secret :: "crypto \<Rightarrow> u64 \<Rightarrow> u64 \<Rightarrow> bool" where
  "test_wrong_secret X n1 n2 =
     (let ts = show_u64 n1; sig = compute_signature X wrong_secret test_agent_name ts test_body
      in test_verify X (Some ts) (Some sig) test_body n2 = Inl SignatureMismatch)"

definition test_tampered_body :: "crypto \<Rightarrow> u64 \<Rightarrow> u64 \<Rightarrow> bool" where
  "test_tampered_body X n1 n2 =
     (let ts = show_u64 n1
      in test_verify X (Some ts) (Some (test_sign X ts)) tampered_body n2 = Inl SignatureMismatch)"

definition test_expired_timestamp :: "crypto \<Rightarrow> u64 \<Rightarrow> u64 \<Rightarrow> bool" where
  "test_expired_timestamp X n1 n2 \<longleftrightarrow>
     unat n1 \<ge> unat timestamp_tolerance_secs + 10 \<and>
     (let old_ts = show_u64 (n1 - timestamp_tolerance_secs - 10)
      in test_verify X (Some old_ts) (Some (test_sign X old_ts)) test_body n2 = Inl ExpiredTimestamp)"

definition test_future_timestamp :: "crypto \<Rightarrow> u64 \<Rightarrow> u64 \<Rightarrow> bool" where
  "test_future_timestamp X n1 n2 \<longleftrightarrow>
     unat n1 + unat timestamp_tolerance_secs + 10 < 2 ^ 64 \<and>
     (let future_ts = show_u64 (n1 + timestamp_tolerance_secs + 10)
      in test_verify X (Some future_ts) (Some (test_sign X future_ts)) test_body n2 = Inl ExpiredTimestamp)"

definition test_missing_timestamp :: "crypto \<Rightarrow> u64 \<Rightarrow> bool" where
  "test_missing_timestamp X n =
     (test_verify X None (Some ''deadbeef'') test_body n = Inl MissingTimestamp)"

definition test_missing_signature :: "crypto \<Rightarrow> u64 \<Rightarrow> u64 \<Rightarrow> bool" where
  "test_missing_signature X n1 n2 =
     (test_verify X (Some (show_u64 n1)) None test_body n2 = Inl MissingSignature)"

definition test_invalid_hex_signature :: "crypto \<Rightarrow> u64 \<Rightarrow> u64 \<Rightarrow> bool" where
  "test_invalid_hex_signature X n1 n2 =
     (test_verify X (Some (show_u64 n1)) (Some ''not-hex-zzzz'') test_body n2 = Inl InvalidSignatureFormat)"

definition test_invalid_timestamp_format :: "crypto \<Rightarrow> u64 \<Rightarrow> bool" where
  "test_invalid_timestamp_format X n =
     (test_verify X (Some ''not-a-number'') (Some ''deadbeef'') test_body n = Inl InvalidTimestamp)"

definition test_signature_deterministic :: "crypto \<Rightarrow> bool" where
  "test_signature_deterministic X =
     (let sig1 = test_sign X ''1711000000''; sig2 = test_sign X ''1711000000'' in sig1 = sig2)"

definition test_different_agents_different_signatures :: "crypto \<Rightarrow> bool" where
  "test_different_agents_different_signatures X =
     (let sig_a = compute_signature X test_secret ''agent-a'' ''1711000000'' test_body;
          sig_b = compute_signature X test_secret ''agent-b'' ''1711000000'' test_body
      in sig_a \<noteq> sig_b)"

definition test_timestamp_at_boundary_accepted :: "crypto \<Rightarrow> u64 \<Rightarrow> u64 \<Rightarrow> bool" where
  "test_timestamp_at_boundary_accepted X n1 n2 \<longleftrightarrow>
     unat n1 \<ge> unat timestamp_tolerance_secs \<and>
     (let boundary_ts = show_u64 (n1 - timestamp_tolerance_secs)
      in is_ok (test_verify X (Some boundary_ts) (Some (test_sign X boundary_ts)) test_body n2))"

text \<open>
  The circumstances: the second reading is not before the first, and at most \<open>d\<close> seconds after
  it; the clock stands far from both ends of its range.
\<close>

definition clock_ok :: "nat \<Rightarrow> u64 \<Rightarrow> u64 \<Rightarrow> bool" where
  "clock_ok d n1 n2 \<longleftrightarrow>
     310 \<le> unat n1 \<and> unat n1 \<le> unat n2 \<and> unat n2 \<le> unat n1 + d \<and> unat n1 + 310 < 2 ^ 64"

text \<open>What the tests expect of the hash functions: the tags they compare differ.\<close>

definition tags_differ :: "crypto \<Rightarrow> string \<Rightarrow> bool" where
  "tags_differ X ts \<longleftrightarrow>
     (let msg = (\<lambda>a b. build_signing_message a ts (body_hash X b)) in
      hmac_sha256 X wrong_secret (msg test_agent_name test_body) \<noteq>
        hmac_sha256 X test_secret (msg test_agent_name test_body) \<and>
      hmac_sha256 X test_secret (msg test_agent_name test_body) \<noteq>
        hmac_sha256 X test_secret (msg test_agent_name tampered_body) \<and>
      hmac_sha256 X test_secret (msg ''agent-a'' test_body) \<noteq>
        hmac_sha256 X test_secret (msg ''agent-b'' test_body))"

lemma window_test:
  "abs_diff n w > timestamp_tolerance_secs \<longleftrightarrow> unat w + 300 < unat n \<or> unat n + 300 < unat w"
  by (auto simp: word_less_nat_alt unat_abs_diff timestamp_tolerance_secs_def)

text \<open>Verification of a signed text, by the age of its timestamp.\<close>

lemma test_verify_signed:
  assumes "hex_ok X"
  shows "test_verify X (Some (show_u64 w)) (Some (compute_signature X secret aid (show_u64 w) body)) body' n =
     (if unat w + 300 < unat n \<or> unat n + 300 < unat w then Inl ExpiredTimestamp
      else if hmac_sha256 X secret (build_signing_message aid (show_u64 w) (body_hash X body)) =
              hmac_sha256 X test_secret (build_signing_message test_agent_name (show_u64 w) (body_hash X body'))
           then Inr () else Inl SignatureMismatch)"
  using assms window_test [of n w]
  by (auto simp: test_verify_def verify_identity_def result_simps compute_signature_def hex_ok_def Let_def)

lemma unat_minus_small: "unat b \<le> unat (a :: u64) \<Longrightarrow> unat (a - b) = unat a - unat b"
  by (simp add: unat_sub word_le_nat_alt)

theorem identity_tests_pass:
  assumes "hex_ok X" and "hex_decode X ''not-hex-zzzz'' = None" and "clock_ok 9 n1 n2"
    and "tags_differ X (show_u64 n1)" and "tags_differ X ''1711000000''"
  shows "test_valid_signature X n1 n2 \<and> test_wrong_secret X n1 n2 \<and> test_tampered_body X n1 n2 \<and>
     test_expired_timestamp X n1 n2 \<and> test_future_timestamp X n1 n2 \<and> test_missing_timestamp X n1 \<and>
     test_missing_signature X n1 n2 \<and> test_invalid_hex_signature X n1 n2 \<and>
     test_invalid_timestamp_format X n1 \<and> test_signature_deterministic X \<and>
     test_different_agents_different_signatures X"
proof (intro conjI)
  note V = test_verify_signed [OF assms(1)]
  note clock = assms(3) [unfolded clock_ok_def] and tags = assms(4,5) [unfolded tags_differ_def Let_def]
  show "test_valid_signature X n1 n2"
    using clock by (simp add: test_valid_signature_def test_sign_def V)
  show "test_wrong_secret X n1 n2" and "test_tampered_body X n1 n2"
    using clock tags by (simp_all add: test_wrong_secret_def test_tampered_body_def test_sign_def V)
  have "unat (n1 - timestamp_tolerance_secs - 10) = unat n1 - 310"
    using clock unat_minus_small [of 310 n1] by (simp add: timestamp_tolerance_secs_def)
  then show "test_expired_timestamp X n1 n2"
    using clock by (simp add: test_expired_timestamp_def test_sign_def V timestamp_tolerance_secs_def) linarith
  have tol: "unat timestamp_tolerance_secs = 300" by (simp add: timestamp_tolerance_secs_def)
  have plus: "n1 + timestamp_tolerance_secs + 10 = n1 + 310" by (simp add: timestamp_tolerance_secs_def)
  have "unat (n1 + 310) = unat n1 + 310" using clock by (subst unat_plus_simple [THEN iffD1]) (auto simp: word_le_nat_alt unat_word_ariths)
  then show "test_future_timestamp X n1 n2"
    using clock tol by (simp add: test_future_timestamp_def test_sign_def V plus)
  have "\<not> timestamp_tolerance_secs < abs_diff n2 n1" using clock by (simp add: window_test)
  then show "test_missing_signature X n1 n2" and "test_invalid_hex_signature X n1 n2"
    using assms(2)
    by (simp_all add: test_missing_signature_def test_invalid_hex_signature_def test_verify_def
        verify_identity_def ok_or_def)
  show "test_missing_timestamp X n1"
    by (simp add: test_missing_timestamp_def test_verify_def verify_identity_def ok_or_def)
  have "parse_u64 ''not-a-number'' = None" by code_simp
  then show "test_invalid_timestamp_format X n1"
    by (simp add: test_invalid_timestamp_format_def test_verify_def verify_identity_def ok_or_def)
  show "test_signature_deterministic X" by (simp add: test_signature_deterministic_def)
  show "test_different_agents_different_signatures X"
    using tags assms(1)
    by (simp add: test_different_agents_different_signatures_def compute_signature_def Let_def hex_ok_def)
      (metis option.inject)
qed

text \<open>The boundary test passes only if the clock does not tick between its two readings: the first
  instant after the boundary is refused.\<close>

theorem boundary_test_flaky:
  assumes "hex_ok X" and "clock_ok d n1 n2"
  shows "test_timestamp_at_boundary_accepted X n1 n2 \<longleftrightarrow> n2 = n1"
proof -
  have "unat (n1 - timestamp_tolerance_secs) = unat n1 - 300"
    using assms(2) unat_minus_small [of timestamp_tolerance_secs n1]
    by (simp add: clock_ok_def timestamp_tolerance_secs_def)
  with assms(2) show ?thesis
    by (auto simp: test_timestamp_at_boundary_accepted_def test_sign_def test_verify_signed [OF assms(1)]
        clock_ok_def timestamp_tolerance_secs_def word_unat_eq_iff)
qed

text \<open>The circumstances can hold: a coding of texts that refuses what it did not encode.\<close>

definition strict_crypto :: crypto where
  "strict_crypto = toy_crypto\<lparr>hex_encode := (\<lambda>b. CHR ''0'' # b),
     hex_decode := (\<lambda>s. case s of c # b \<Rightarrow> if c = CHR ''0'' then Some b else None | [] \<Rightarrow> None)\<rparr>"

theorem identity_tests_run:
  "test_valid_signature strict_crypto 1711000000 1711000001 \<and>
   test_expired_timestamp strict_crypto 1711000000 1711000001 \<and>
   \<not> test_timestamp_at_boundary_accepted strict_crypto 1711000000 1711000001"
proof -
  have ok: "hex_ok strict_crypto" by (simp add: hex_ok_def strict_crypto_def)
  have clock: "clock_ok 9 1711000000 1711000001" by (simp add: clock_ok_def)
  have dec: "hex_decode strict_crypto ''not-hex-zzzz'' = None" by (simp add: strict_crypto_def)
  have tags: "tags_differ strict_crypto ts" for ts
    by (simp add: tags_differ_def Let_def strict_crypto_def toy_crypto_def build_signing_message_def
        body_hash_def wrong_secret_def test_secret_def test_agent_name_def test_body_def tampered_body_def)
  show ?thesis
    using identity_tests_pass [OF ok dec clock tags tags] boundary_test_flaky [OF ok clock] by simp
qed

section \<open>The public manifest\<close>

text \<open>
  \<open>test_agent\<close> of \<open>manifest.rs\<close>. Of the tests, the two that look at the printed text
  (\<open>test_manifest_never_leaks_secret\<close> and \<open>test_manifest_serializes_cleanly\<close>) rest on the format
  of \<open>serde_json\<close> alone and are not here; that the text cannot depend on the secret is
  \<open>manifest_public_only\<close>.
\<close>

definition manifest_test_agent :: "bool \<Rightarrow> agent_config" where
  "manifest_test_agent with_secret =
     \<lparr>ac_agent_id = ''test-agent'', ac_max_capacity = 100000, ac_rate_limit_per_window = 60,
      ac_rate_limit_window_secs = 60,
      ac_domain_policies =
        hm_insert ''http.request'' \<lparr>dp_enabled = True, dp_max_magnitude = 500\<rparr>
          (hm_insert ''fs.write.workspace'' \<lparr>dp_enabled = True, dp_max_magnitude = 1000\<rparr> []),
      ac_secret = (if with_secret then Some ''a]3kf9$mZp!wL2xR7vN8qB4cY6hT0jDs'' else None)\<rparr>"

definition test_manifest_from_config :: "crypto \<Rightarrow> (json \<Rightarrow> string) \<Rightarrow> bool" where
  "test_manifest_from_config X print =
     (let m = from_agent_config X print (manifest_test_agent False)
      in pm_schema_version m = ''safa-manifest-v1'' \<and> pm_agent_id m = ''test-agent'' \<and>
         \<not> pm_identity_bound m \<and> pm_max_capacity m = 100000 \<and> length (pm_domains m) = 2 \<and>
         pm_manifest_hash m \<noteq> [])"

definition test_manifest_hash_deterministic :: "crypto \<Rightarrow> (json \<Rightarrow> string) \<Rightarrow> bool" where
  "test_manifest_hash_deterministic X print =
     (let config = manifest_test_agent True; m1 = from_agent_config X print config;
          m2 = from_agent_config X print config
      in pm_manifest_hash m1 = pm_manifest_hash m2)"

definition test_manifest_hash_changes_with_config :: "crypto \<Rightarrow> (json \<Rightarrow> string) \<Rightarrow> bool" where
  "test_manifest_hash_changes_with_config X print =
     (let config_a = manifest_test_agent True;
          config_b = (manifest_test_agent True)\<lparr>ac_max_capacity := 50000\<rparr>
      in pm_manifest_hash (from_agent_config X print config_a) \<noteq>
         pm_manifest_hash (from_agent_config X print config_b))"

definition test_manifest_hash_changes_with_identity_binding :: "crypto \<Rightarrow> (json \<Rightarrow> string) \<Rightarrow> bool" where
  "test_manifest_hash_changes_with_identity_binding X print =
     (let config_bound = manifest_test_agent True; config_unbound = manifest_test_agent False
      in pm_manifest_hash (from_agent_config X print config_bound) \<noteq>
         pm_manifest_hash (from_agent_config X print config_unbound))"

definition test_domains_sorted_in_manifest :: "crypto \<Rightarrow> (json \<Rightarrow> string) \<Rightarrow> bool" where
  "test_domains_sorted_in_manifest X print =
     (let keys = map fst (pm_domains (from_agent_config X print (manifest_test_agent False)))
      in keys ! 0 = ''fs.write.workspace'' \<and> keys ! 1 = ''http.request'')"

text \<open>What the tests expect of printing and hashing: no empty hash, and different hashes for the
  canonical texts of configurations a client can tell apart.\<close>

definition hash_separates :: "crypto \<Rightarrow> (json \<Rightarrow> string) \<Rightarrow> agent_config list \<Rightarrow> bool" where
  "hash_separates X print cs \<longleftrightarrow>
     (\<forall>c \<in> set cs. sha256_hex X (print (hashing_json (hashable_of c))) \<noteq> [] \<and>
        (\<forall>c' \<in> set cs. hashable_of c \<noteq> hashable_of c' \<longrightarrow>
           sha256_hex X (print (hashing_json (hashable_of c))) \<noteq>
           sha256_hex X (print (hashing_json (hashable_of c')))))"

lemma pm_hash: "pm_manifest_hash (from_agent_config X print c) = sha256_hex X (print (hashing_json (hashable_of c)))"
  by (simp add: from_agent_config_def Let_def)

lemma manifest_test_domains:
  "map fst (manifest_domains (manifest_test_agent b)) = [''fs.write.workspace'', ''http.request'']"
  by (simp add: manifest_domains_def manifest_test_agent_def btree_collect_def hm_collect_def
      hm_insert_def sort_key_def less_eq_char_def list_less_def list_le_def)

theorem manifest_tests_pass:
  assumes "hash_separates X print [manifest_test_agent False, manifest_test_agent True,
             (manifest_test_agent True)\<lparr>ac_max_capacity := 50000\<rparr>]"
  shows "test_manifest_from_config X print \<and> test_manifest_hash_deterministic X print \<and>
     test_manifest_hash_changes_with_config X print \<and>
     test_manifest_hash_changes_with_identity_binding X print \<and>
     test_domains_sorted_in_manifest X print"
proof (intro conjI)
  have two: "length (manifest_domains (manifest_test_agent False)) = 2"
    using arg_cong [OF manifest_test_domains [of False], of length] by simp
  show "test_manifest_from_config X print"
    using assms two
    by (simp add: test_manifest_from_config_def pm_hash hash_separates_def Let_def)
      (simp add: from_agent_config_def manifest_schema_version_def manifest_test_agent_def Let_def)
  show "test_manifest_hash_deterministic X print"
    by (simp add: test_manifest_hash_deterministic_def)
  have "hashable_of (manifest_test_agent True) \<noteq>
      hashable_of ((manifest_test_agent True)\<lparr>ac_max_capacity := 50000\<rparr>)"
    by (simp add: hashable_of_def manifest_test_agent_def)
  with assms show "test_manifest_hash_changes_with_config X print"
    by (simp add: test_manifest_hash_changes_with_config_def pm_hash hash_separates_def Let_def)
  have "hashable_of (manifest_test_agent True) \<noteq> hashable_of (manifest_test_agent False)"
    by (simp add: hashable_of_def manifest_test_agent_def)
  with assms show "test_manifest_hash_changes_with_identity_binding X print"
    by (simp add: test_manifest_hash_changes_with_identity_binding_def pm_hash hash_separates_def Let_def)
  show "test_domains_sorted_in_manifest X print"
    by (simp add: test_domains_sorted_in_manifest_def from_agent_config_def Let_def manifest_test_domains)
qed

end
