(* ===== verification/Slime_Concurrent.thy ===== *)
theory Slime_Concurrent
  imports Slime
begin

text \<open>
  The compare-and-exchange loop of \<open>P0Authorizer::try_reserve\<close> under interference: any
  number of threads share one counter, each atomic access is one step, and
  \<open>compare_exchange_weak\<close> may fail although the value is the expected one. The ghost
  \<open>cas_log\<close> records every call's verdict at the step that decides it.
\<close>

datatype cas_pc =
    Idle
  | AtLoad string u64
  | AtExchange string u64 u64
  | Returned slime_verdict

record cas_state =
  cas_auth :: p0_authorizer
  cas_pcs :: "nat \<Rightarrow> cas_pc"
  cas_log :: "(string \<times> u64 \<times> slime_verdict) list"

definition decide :: "nat \<Rightarrow> string \<Rightarrow> u64 \<Rightarrow> slime_verdict \<Rightarrow> cas_state \<Rightarrow> cas_state" where
  "decide i d m v s =
     s\<lparr>cas_pcs := (cas_pcs s)(i := Returned v), cas_log := cas_log s @ [(d, m, v)]\<rparr>"

inductive cas_step :: "cas_state \<Rightarrow> nat \<Rightarrow> cas_state \<Rightarrow> bool" where
  refuse: "cas_pcs s i = Idle \<Longrightarrow> check_policy (cas_auth s) d m = Inl v \<Longrightarrow>
     cas_step s i (decide i d m v s)"
| enter: "cas_pcs s i = Idle \<Longrightarrow> check_policy (cas_auth s) d m = Inr p \<Longrightarrow>
     cas_step s i (s\<lparr>cas_pcs := (cas_pcs s)(i := AtLoad d m)\<rparr>)"
| load: "cas_pcs s i = AtLoad d m \<Longrightarrow>
     cas_step s i (s\<lparr>cas_pcs := (cas_pcs s)(i := AtExchange d m (pa_capacity (cas_auth s)))\<rparr>)"
| deny: "cas_pcs s i = AtExchange d m cur \<Longrightarrow>
     admit cur m (pa_max_capacity (cas_auth s)) = None \<Longrightarrow>
     cas_step s i (decide i d m VImpossible s)"
| exchange: "cas_pcs s i = AtExchange d m cur \<Longrightarrow>
     admit cur m (pa_max_capacity (cas_auth s)) = Some new \<Longrightarrow>
     pa_capacity (cas_auth s) = cur \<Longrightarrow>
     cas_step s i ((decide i d m VAuthorized s)\<lparr>cas_auth := (cas_auth s)\<lparr>pa_capacity := new\<rparr>\<rparr>)"
| retry: "cas_pcs s i = AtExchange d m cur \<Longrightarrow>
     admit cur m (pa_max_capacity (cas_auth s)) = Some new \<Longrightarrow>
     cas_step s i (s\<lparr>cas_pcs := (cas_pcs s)(i := AtLoad d m)\<rparr>)"
| again: "cas_pcs s i = Returned v \<Longrightarrow>
     cas_step s i (s\<lparr>cas_pcs := (cas_pcs s)(i := Idle)\<rparr>)"

definition cas_init :: "p0_authorizer \<Rightarrow> cas_state" where
  "cas_init a = \<lparr>cas_auth = a, cas_pcs = (\<lambda>_. Idle), cas_log = []\<rparr>"

inductive cas_reach :: "p0_authorizer \<Rightarrow> cas_state \<Rightarrow> bool" for a where
  start: "cas_reach a (cas_init a)"
| step: "cas_reach a s \<Longrightarrow> cas_step s i t \<Longrightarrow> cas_reach a t"

section \<open>The invariant\<close>

text \<open>
  The log replayed sequentially from the initial authorizer gives the recorded verdicts and
  the current one; a loaded value is never above the counter; a thread past the policy check
  was admitted by it.
\<close>

definition log_request :: "string \<times> u64 \<times> slime_verdict \<Rightarrow> string \<times> u64" where
  "log_request e = (case e of (d, m, v) \<Rightarrow> (d, m))"

definition log_verdict :: "string \<times> u64 \<times> slime_verdict \<Rightarrow> slime_verdict" where
  "log_verdict e = (case e of (d, m, v) \<Rightarrow> v)"

fun pc_ok :: "p0_authorizer \<Rightarrow> cas_pc \<Rightarrow> bool" where
  "pc_ok a (AtLoad d m) = policy_admits a d m"
| "pc_ok a (AtExchange d m cur) = (policy_admits a d m \<and> cur \<le> pa_capacity a)"
| "pc_ok a _ = True"

definition cas_inv :: "p0_authorizer \<Rightarrow> cas_state \<Rightarrow> bool" where
  "cas_inv a s \<longleftrightarrow>
     p0.run a (map log_request (cas_log s)) = (map log_verdict (cas_log s), cas_auth s) \<and>
     capacity_ok (cas_auth s) \<and>
     (\<forall>i. pc_ok (cas_auth s) (cas_pcs s i))"

lemma run_snoc:
  "p0.run a (reqs @ [(d, m)]) =
     (let (vs, b) = p0.run a reqs; (v, c) = try_reserve b d m in (vs @ [v], c))"
  by (induction a reqs rule: p0.run.induct) (auto simp: Let_def split: prod.splits)

lemma try_reserve_denied:
  "\<not> policy_admits a d m \<or> admit (pa_capacity a) m (pa_max_capacity a) = None \<Longrightarrow>
     try_reserve a d m = (VImpossible, a)"
  using check_policy_Inr [of a d m] check_policy_Inl [of a d m]
  by (auto simp: try_reserve_def split: sum.splits)

lemma try_reserve_admitted:
  "policy_admits a d m \<Longrightarrow> admit (pa_capacity a) m (pa_max_capacity a) = Some n \<Longrightarrow>
     try_reserve a d m = (VAuthorized, a\<lparr>pa_capacity := n\<rparr>)"
  using check_policy_Inr [of a d m] by (auto simp: try_reserve_def)

text \<open>Once a value was too full for a request, every larger one is.\<close>

lemma admit_None_mono: "cur \<le> c \<Longrightarrow> admit cur m mx = None \<Longrightarrow> admit c m mx = None"
  by (auto simp: admit_None_iff word_le_nat_alt)

lemma policy_admits_capacity [simp]:
  "policy_admits (a\<lparr>pa_capacity := n\<rparr>) d m = policy_admits a d m"
  by (simp add: policy_admits_def)

lemma pc_ok_capacity: "pc_ok a pc \<Longrightarrow> pa_capacity a \<le> n \<Longrightarrow> pc_ok (a\<lparr>pa_capacity := n\<rparr>) pc"
  by (cases pc) auto

lemma cas_inv_init: "capacity_ok a \<Longrightarrow> cas_inv a (cas_init a)"
  by (simp add: cas_inv_def cas_init_def)

lemma cas_inv_decide:
  assumes "cas_inv a s" and "try_reserve (cas_auth s) d m = (v, b)"
    and "capacity_ok b" and "\<And>pc. pc_ok (cas_auth s) pc \<Longrightarrow> pc_ok b pc"
  shows "cas_inv a ((decide i d m v s)\<lparr>cas_auth := b\<rparr>)"
  using assms by (auto simp: cas_inv_def decide_def run_snoc log_request_def log_verdict_def Let_def)

lemma cas_inv_denied:
  assumes "cas_inv a s" and "try_reserve (cas_auth s) d m = (v, cas_auth s)"
  shows "cas_inv a (decide i d m v s)"
proof -
  have "cas_inv a ((decide i d m v s)\<lparr>cas_auth := cas_auth s\<rparr>)"
    using assms by (intro cas_inv_decide) (auto simp: cas_inv_def)
  then show ?thesis by (simp add: decide_def)
qed

lemma cas_inv_step: "cas_step s i t \<Longrightarrow> cas_inv a s \<Longrightarrow> cas_inv a t"
proof (induction rule: cas_step.induct)
  case (refuse s i d m v)
  then have "try_reserve (cas_auth s) d m = (v, cas_auth s)" by (simp add: try_reserve_def)
  with refuse show ?case by (blast intro: cas_inv_denied)
next
  case (enter s i d m p)
  then have "policy_admits (cas_auth s) d m" using check_policy_Inr by blast
  with enter show ?case by (simp add: cas_inv_def)
next
  case (load s i d m)
  then have "pc_ok (cas_auth s) (AtLoad d m)" by (metis cas_inv_def)
  with load show ?case by (simp add: cas_inv_def)
next
  case (deny s i d m cur)
  then have "pc_ok (cas_auth s) (AtExchange d m cur)" by (metis cas_inv_def)
  with deny admit_None_mono have "try_reserve (cas_auth s) d m = (VImpossible, cas_auth s)"
    by (auto intro: try_reserve_denied)
  with deny show ?case by (blast intro: cas_inv_denied)
next
  case (exchange s i d m cur new)
  then have "pc_ok (cas_auth s) (AtExchange d m cur)" by (metis cas_inv_def)
  with exchange have r: "try_reserve (cas_auth s) d m = (VAuthorized, (cas_auth s)\<lparr>pa_capacity := new\<rparr>)"
    by (auto intro: try_reserve_admitted)
  from exchange admit_unat [of cur m "pa_max_capacity (cas_auth s)" new]
  have "pa_capacity (cas_auth s) \<le> new" and "capacity_ok ((cas_auth s)\<lparr>pa_capacity := new\<rparr>)"
    by (auto simp: word_le_nat_alt capacity_ok_def)
  with exchange r show ?case by (intro cas_inv_decide pc_ok_capacity)
next
  case (retry s i d m cur new)
  then have "pc_ok (cas_auth s) (AtExchange d m cur)" by (metis cas_inv_def)
  with retry show ?case by (simp add: cas_inv_def)
next
  case (again s i v)
  then show ?case by (simp add: cas_inv_def)
qed

lemma cas_reach_inv: "cas_reach a s \<Longrightarrow> capacity_ok a \<Longrightarrow> cas_inv a s"
  by (induction rule: cas_reach.induct) (auto intro: cas_inv_init cas_inv_step)

text \<open>A thread running alone finishes its call in two steps, with the sequential verdict.\<close>

lemma cas_alone:
  assumes "cas_pcs s i = AtLoad d m" and "policy_admits (cas_auth s) d m"
  obtains t u where "cas_step s i t" and "cas_step t i u"
    and "cas_pcs u i = Returned (check_only (cas_auth s) d m)"
    and "cas_auth u = snd (try_reserve (cas_auth s) d m)"
proof -
  let ?cur = "pa_capacity (cas_auth s)" and ?max = "pa_max_capacity (cas_auth s)"
  let ?t = "s\<lparr>cas_pcs := (cas_pcs s)(i := AtExchange d m ?cur)\<rparr>"
  have t: "cas_step s i ?t" by (rule cas_step.load [OF assms(1)])
  show ?thesis
  proof (cases "admit ?cur m ?max")
    case None
    then have "cas_step ?t i (decide i d m VImpossible ?t)" by (intro cas_step.deny) auto
    from that [OF t this] try_reserve_denied [OF disjI2 [OF None]] show ?thesis
      by (simp add: decide_def flip: try_reserve_fst)
  next
    case (Some new)
    then have "cas_step ?t i ((decide i d m VAuthorized ?t)\<lparr>cas_auth := (cas_auth ?t)\<lparr>pa_capacity := new\<rparr>\<rparr>)"
      by (intro cas_step.exchange) auto
    from that [OF t this] try_reserve_admitted [OF assms(2) Some] show ?thesis
      by (simp add: decide_def flip: try_reserve_fst)
  qed
qed

section \<open>Properties\<close>

text \<open>C10: concurrent reservations are linearizable. In every state any number of threads can
  reach by interleaving their loads, exchanges (weak ones failing at will) and retries, the
  verdicts given so far are those the sequential \<open>try_reserve\<close> gives to the calls in the order
  of their decisions, the shared counter is the one it leaves, and the sum granted is within
  the capacity.\<close>

theorem reservations_linearizable:
  assumes "cas_reach (p0_new cap doms session) s"
  shows "p0.run (p0_new cap doms session) (map log_request (cas_log s)) =
           (map log_verdict (cas_log s), cas_auth s) \<and>
         p0.granted (map log_request (cas_log s)) (map log_verdict (cas_log s)) \<le> unat cap"
  using cas_reach_inv [OF assms capacity_ok_new]
    p0.run_bounded [OF capacity_ok_new, of cap doms session "map log_request (cas_log s)"]
  by (auto simp: cas_inv_def capacity_used_def capacity_max_def p0_new_def)

text \<open>Two threads load the same counter; one wins the exchange, the other's stale request is denied
  after it reloads.\<close>

theorem reservations_linearizable_witness:
  "\<exists>s. cas_reach (p0_new 5 [(''fs'', \<lparr>dp_enabled = True, dp_max_magnitude = 5\<rparr>)] ''s'') s \<and>
       cas_log s = [(''fs'', 3, VAuthorized), (''fs'', 4, VImpossible)] \<and>
       p0.granted (map log_request (cas_log s)) (map log_verdict (cas_log s)) \<le> 5"
proof -
  let ?a = "p0_new 5 [(''fs'', \<lparr>dp_enabled = True, dp_max_magnitude = 5\<rparr>)] ''s''"
  note defs = p0_new_def hm_collect_def hm_insert_def check_policy_def hm_get_def
    admit_def checked_add_def cas_init_def decide_def
  have pol: "check_policy ?a ''fs'' 3 = Inr \<lparr>dp_enabled = True, dp_max_magnitude = 5\<rparr>"
    "check_policy ?a ''fs'' 4 = Inr \<lparr>dp_enabled = True, dp_max_magnitude = 5\<rparr>"
    by (simp_all add: defs)
  define s0 where "s0 = cas_init ?a"
  define s1 where "s1 = s0\<lparr>cas_pcs := (cas_pcs s0)(0 := AtLoad ''fs'' 3)\<rparr>"
  define s2 where "s2 = s1\<lparr>cas_pcs := (cas_pcs s1)(1 := AtLoad ''fs'' 4)\<rparr>"
  define s3 where "s3 = s2\<lparr>cas_pcs := (cas_pcs s2)(0 := AtExchange ''fs'' 3 (pa_capacity (cas_auth s2)))\<rparr>"
  define s4 where "s4 = s3\<lparr>cas_pcs := (cas_pcs s3)(1 := AtExchange ''fs'' 4 (pa_capacity (cas_auth s3)))\<rparr>"
  define s5 where "s5 = (decide 0 ''fs'' 3 VAuthorized s4)\<lparr>cas_auth := (cas_auth s4)\<lparr>pa_capacity := 3\<rparr>\<rparr>"
  define s6 where "s6 = s5\<lparr>cas_pcs := (cas_pcs s5)(1 := AtLoad ''fs'' 4)\<rparr>"
  define s7 where "s7 = s6\<lparr>cas_pcs := (cas_pcs s6)(1 := AtExchange ''fs'' 4 (pa_capacity (cas_auth s6)))\<rparr>"
  define s8 where "s8 = decide 1 ''fs'' 4 VImpossible s7"
  note steps = s0_def s1_def s2_def s3_def s4_def s5_def s6_def s7_def s8_def
  have r0: "cas_reach ?a s0" unfolding s0_def by (rule cas_reach.start)
  have r1: "cas_reach ?a s1" unfolding s1_def
    by (rule cas_reach.step [OF r0 cas_step.enter [of _ _ _ _ "\<lparr>dp_enabled = True, dp_max_magnitude = 5\<rparr>"]])
      (use pol in \<open>simp_all add: s0_def cas_init_def\<close>)
  have r2: "cas_reach ?a s2" unfolding s2_def
    by (rule cas_reach.step [OF r1 cas_step.enter [of _ _ _ _ "\<lparr>dp_enabled = True, dp_max_magnitude = 5\<rparr>"]])
      (use pol in \<open>simp_all add: s0_def s1_def cas_init_def\<close>)
  have r3: "cas_reach ?a s3" unfolding s3_def
    by (rule cas_reach.step [OF r2 cas_step.load]) (simp add: steps cas_init_def)
  have r4: "cas_reach ?a s4" unfolding s4_def
    by (rule cas_reach.step [OF r3 cas_step.load]) (simp add: steps cas_init_def)
  have r5: "cas_reach ?a s5" unfolding s5_def
    by (rule cas_reach.step [OF r4 cas_step.exchange [of _ _ _ _ 0]]) (simp_all add: steps defs)
  have r6: "cas_reach ?a s6" unfolding s6_def
    by (rule cas_reach.step [OF r5 cas_step.retry [of _ _ _ _ 0 4]]) (simp_all add: steps defs)
  have r7: "cas_reach ?a s7" unfolding s7_def
    by (rule cas_reach.step [OF r6 cas_step.load]) (simp add: steps cas_init_def)
  have r8: "cas_reach ?a s8" unfolding s8_def
    by (rule cas_reach.step [OF r7 cas_step.deny [of _ _ _ _ 3]]) (simp_all add: steps defs)
  have "cas_log s8 = [(''fs'', 3, VAuthorized), (''fs'', 4, VImpossible)]"
    by (simp add: steps decide_def cas_init_def)
  with r8 reservations_linearizable [OF r8] show ?thesis by auto
qed

text \<open>No reservation waits for another thread: once past the policy check, a thread that
  runs by itself decides within two atomic steps, and decides as \<open>check_only\<close> would.\<close>

theorem reservation_progress:
  assumes "cas_reach a s" and "capacity_ok a" and "cas_pcs s i = AtLoad d m"
  shows "\<exists>t u. cas_step s i t \<and> cas_step t i u \<and>
     cas_pcs u i = Returned (check_only (cas_auth s) d m) \<and>
     cas_auth u = snd (try_reserve (cas_auth s) d m)"
proof -
  from cas_reach_inv [OF assms(1,2)] assms(3) have "pc_ok (cas_auth s) (AtLoad d m)"
    by (metis cas_inv_def)
  then have "policy_admits (cas_auth s) d m" by simp
  from cas_alone [OF assms(3) this] show ?thesis by metis
qed

theorem reservation_progress_witness:
  "\<exists>s t u. cas_pcs s 0 = AtLoad ''fs'' 3 \<and> cas_step s 0 t \<and> cas_step t 0 u \<and>
     cas_pcs u 0 = Returned VAuthorized"
proof -
  let ?p = "\<lparr>dp_enabled = True, dp_max_magnitude = 5\<rparr>"
  let ?a = "p0_new 5 [(''fs'', ?p)] ''s''"
  let ?s = "(cas_init ?a)\<lparr>cas_pcs := (cas_pcs (cas_init ?a))(0 := AtLoad ''fs'' 3)\<rparr>"
  have v: "check_only ?a ''fs'' 3 = VAuthorized"
    by (simp add: check_only_def check_policy_def p0_new_def hm_collect_def hm_insert_def hm_get_def
        admit_def checked_add_def)
  have "check_policy ?a ''fs'' 3 = Inr ?p"
    by (simp add: check_policy_def p0_new_def hm_collect_def hm_insert_def hm_get_def)
  then have "cas_reach ?a ?s"
    by (intro cas_reach.step [OF cas_reach.start cas_step.enter]) (simp_all add: cas_init_def)
  from reservation_progress [OF this capacity_ok_new, of 0 "''fs''" 3] v show ?thesis
    by (force simp: cas_init_def)
qed

end
