(* ===== verification/Spec2Isabelle.thy ===== *)
theory Spec2Isabelle
  imports Daemon_Accounts Daemon_Rates Daemon_Provenance Daemon_Confinement Crash_Recovery
    Demo_Handoff Test_Server Unit_Tests Slime_Concurrent
begin

text \<open>
  SAFA, a local HTTP daemon that performs actions for software agents after an authorizer has
  granted them, as Isabelle functions with the theorems that make it correct. The program is the
  crate \<open>safa-core\<close> (the pipeline and everything it uses) and the crate \<open>safa-daemon\<close> (the HTTP
  server around it); file names below are relative to \<open>src/safa-core/src\<close> unless they start with
  \<open>safa-daemon\<close> or \<open>safa-core\<close>.

  \<^bold>\<open>How the program works.\<close> At boot the daemon loads a directory of TOML files into one
  immutable configuration, removes temporary files an earlier run may have left in the workspace,
  builds its state and listens on the loopback address. A POST to \<open>/ama/action\<close> passes the
  content type check and the body limit; its agent is resolved, its signature verified if the
  agent has a secret, the agent's rate limit and the idempotency cache consulted. The request that
  owns its idempotency key runs the pipeline: magnitude and fields are checked, the request becomes
  a typed action, the action is mapped to a domain, the agent's authorizer reserves capacity, an
  actuator writes or reads a file, runs a program or sends an HTTP request, and an audit entry is
  made. The answer is cached under the key, and a proof record with the hash of the agent's public
  policy is stored.

  \<^bold>\<open>Theories.\<close>
  \<^item> \<open>Safa_Prelude\<close>: results as sums with \<open>rbind\<close>, the collections of rewrite rules
    (\<open>result_simps\<close>). \<open>Hash_Map\<close>: hash maps as association lists with distinct
    keys, whose order stands for the arbitrary iteration order; the interface of a map as a locale
    and its interpretation. \<open>Rust_Str\<close>: the string methods the code uses, on UTF-8 bytes.
    \<open>Unix_Path\<close>: \<open>std::path\<close> on Unix.
  \<^item> \<open>Errors\<close> (\<open>errors.rs\<close>, and JSON values), \<open>Config_Types\<close> (the types of \<open>config.rs\<close>), \<open>Agent_Config\<close>
    (\<open>AgentConfig::from_toml_str\<close>, \<open>load_agent_configs\<close>), \<open>Config_Load\<close>
    (\<open>AmaConfig::load\<close>, check by check).
  \<^item> \<open>Filesystem\<close>: a tree of directories, files and links with the system calls the code makes,
    each of which may fail. \<open>Newtypes\<close> (\<open>newtypes.rs\<close>: the smart constructors of paths, URLs,
    arguments, intents), \<open>Schema\<close> (\<open>schema.rs\<close>, \<open>canonical.rs\<close>, \<open>mapper.rs\<close>).
  \<^item> \<open>Slime\<close> (\<open>slime.rs\<close>: the authorizer, its trait as the locale \<open>slime_authorizer\<close>) and
    \<open>Slime_Concurrent\<close> (its compare-and-exchange loop under interleaving). \<open>Idempotency\<close>
    (\<open>idempotency.rs\<close> with its contract as a locale) and \<open>Idempotency_Concurrent\<close> (handlers
    interleaved at the cache's shard operations).
  \<^item> \<open>Proof_Store\<close> (\<open>audit.rs\<close>), \<open>Identity\<close> (\<open>identity.rs\<close>), \<open>Manifest\<close> (\<open>manifest.rs\<close>).
  \<^item> \<open>Actuator_File\<close>, \<open>Actuator_Shell\<close>, \<open>Actuator_Http\<close> (\<open>actuator/*.rs\<close>), \<open>Pipeline\<close>
    (\<open>pipeline.rs\<close>).
  \<^item> \<open>Server\<close> (the handlers of \<open>safa-daemon/src/server.rs\<close>), \<open>Router\<close> (its routing table and
    histories of requests), \<open>Daemon_Main\<close> (\<open>safa-daemon/src/main.rs\<close>), \<open>Test_Server\<close> (the
    configurations of the test servers), \<open>Unit_Tests\<close> (the tests inside \<open>identity.rs\<close> and
    \<open>manifest.rs\<close>, with the circumstances under which they pass), \<open>Demo_Handoff\<close>
    (\<open>safa-core/examples/slime_public_proof.rs\<close>).
  \<^item> \<open>Daemon_Concurrent\<close>: the same handlers cut at their accesses to shared state, as steps of 8
    slots that interleave, with handlers dropped at an await and the shutdown signal; every step is
    a step of \<open>Idempotency_Concurrent\<close> or leaves the cache alone. \<open>Daemon_Sequential\<close>: a handler
    alone does what \<open>Server\<close> says. \<open>Daemon_Interleaved\<close>: what holds of every interleaving;
    \<open>Daemon_Confinement\<close>: what it does to the file system; \<open>Daemon_Accounts\<close>: reservations, audit
    entries and answers add up; \<open>Daemon_Rates\<close>: rate limits;
    \<open>Daemon_Provenance\<close>: whose requests the reservations belong to.
  \<^item> \<open>File_Steps\<close>: \<open>file_write\<close> and \<open>file_read\<close> cut at their calls to the kernel; alone they are
    \<open>Actuator_File\<close>'s functions. \<open>File_Concurrent\<close>: any number of them interleaved.
    \<open>Crash_Recovery\<close>: the process dies at any point of that, and the next start cleans up.
  \<^item> Proofs about the file system: \<open>Fs_Walk\<close> (resolving paths), \<open>Fs_Calls\<close> (what one call
    changes), \<open>File_Confinement\<close> (what the whole write changes), \<open>File_Safety\<close> (the properties
    of reading and writing), \<open>Orphan_Cleanup\<close>, \<open>Workspace_Isolation\<close> (through the pipeline),
    \<open>Daemon_Files\<close> (over the daemon's life, requests served one after another).

  \<^bold>\<open>Correspondence.\<close> A struct is a record, an enum a datatype, \<open>u64\<close> a 64-bit word with
  Rust's wrapping or checked arithmetic written out, \<open>Result\<close> a sum with the error on the left.
  Texts are lists of bytes; a Rust \<open>char\<close> is a code point. Functions have the names of the code,
  with the struct as a prefix where two structs share a method's name. A function that changes
  state takes the state first and returns it changed; effects on the world (files written,
  requests sent, processes started, signalled and reaped) are returned as a list of \<open>effect\<close>.
  Every clock reading and every fresh identifier of a call is an argument (\<open>reading\<close>).

  \<^bold>\<open>What the groups of lemmas show.\<close> Safety of execution: an action has effects at most once per
  key within the time to live, only with passed checks and a granted reservation, only with a valid
  signature where one is required; also when handlers interleave, the first of these as long as none
  removes a key it does not own. Capacity: granted magnitudes add up to the counter and never exceed the limit, also
  under interleaving, where the loop refines the atomic reservation and a thread running alone
  decides in two steps. Concurrency: a handler alone computes the sequential model's answer, every
  handler can finish by its own steps, the cache overshoots its limit by at most 7, and after a
  shutdown signal the calls in progress can be answered and no other starts; in no stretch shorter
  than its window do more than twice an agent's limit of calls pass. Files: writes and
  reads stay below the agent's root, a crash leaves the old or the new file, what is written is
  read back, concurrent writes leave whole texts (a concurrent read can be cut at another text's
  length), a restart after a crash removes every temporary file and loses no reported write, agents
  are isolated, and over a whole life of the daemon, handlers interleaved, nothing outside the
  workspace root changes but removed orphans.
  Network and processes: what is requested, accepted, started and killed. Records: the hashes bind
  what they hash, the audit trail accounts for every reservation whose handler was not dropped,
  also when handlers interleave, every request is answered, in progress or dropped, and the proof
  store is bounded. Configuration: exactly which agents are accepted, and that a loaded
  configuration is well formed. Termination: the cleanup ends on every finite tree, a file
  operation within a number of its own steps.

  \<^bold>\<open>Bounds and fuel.\<close> Path resolution follows at most \<open>max_links\<close> = 40 links, as Linux does;
  its recursion is justified by that count and the length of the path. The walk of the cleanup
  takes fuel for its depth; in a tree of height \<open>h\<close>, 41 * (h + 1) is enough
  (\<open>cleanup_terminates\<close>), because every link on the way uses up one of the 40.
  \<open>await_runner\<close> has the 40 attempts of the source. All other recursion is structural or has
  its measure.

  \<^bold>\<open>Parameters.\<close> The TOML reader with the code serde derives, SHA-256, HMAC and hex, the JSON
  printer and parser, UUIDs, Unicode tables beyond ASCII, DNS, TLS and HTTP transport, URL parsing,
  the process table, directory listings, the answers axum and tower give by themselves, the demo's
  runner. Hypotheses on them are named in the theorems: \<open>picks\<close> (the key evicted from a map is
  one of its keys), \<open>lists_names\<close> (listings give proper file names), \<open>lists_all\<close> (they
  are complete), \<open>sound_fs\<close> (the tree is a tree, and \<open>stat\<close> does not fail on its own), \<open>fresh_action\<close> (no link is named like the
  temporary file of a fresh action identifier), \<open>literal_path\<close> (the configured root is absolute
  and without \<open>..\<close>), \<open>plain_workspace\<close> (agents' directories are not reached through links).

  \<^bold>\<open>Not modelled.\<close> Atomic in the interleaved model are one access to a map or a lock, the
  reservation's loop (atomic by \<open>Slime_Concurrent\<close>), the checks of the pipeline, and one file
  operation with its checks. How file operations on several threads interleave between calls to
  the kernel is \<open>File_Concurrent\<close>, for jobs with given paths; other processes are
  outside the model. A crash is the death of the process: what the kernel has accepted stays (the
  code does not call \<open>fsync\<close>, and a loss of power is outside the model). The deadline
  and the loss of a client are the one event \<open>Abandon\<close>, possible at any await; when
  they occur is up to tower and tokio, and a request dropped while it waits for a slot has no
  event. Fairness of the scheduler is not stated: the liveness theorems say what a handler's own
  steps achieve. How \<open>tracing\<close> prints the fields \<open>log_audit\<close> gives it is
  left out; the pipeline returns the entries. The Windows and non-Unix branches, the response
  structs no code uses, and the module lists (\<open>lib.rs\<close>,
  \<open>actuator/mod.rs\<close>) have no counterpart. JSON objects are printed by a parameter,
  which may sort their keys. A panic of an \<open>unwrap\<close> on a poisoned lock or a header
  value has no branch.

  \<^bold>\<open>What the model found.\<close> Beside the properties, a few theorems state behaviour that is not what
  the code or its documents intend: \<open>remove_after_full_double_owner\<close>, \<open>private_ipv6_gaps\<close>,
  \<open>dot_target_replaces_root\<close>, \<open>cleanup_leaves_workspace\<close>, \<open>shell_escapes_agent_root\<close>,
  \<open>later_output_lost\<close>, \<open>shipped_readonly_rejected\<close>, \<open>failure_misreported\<close>,
  \<open>test_capacity_bootable\<close>, \<open>dropped_call_untraced\<close>, \<open>read_mixes_versions\<close>, \<open>boundary_test_flaky\<close>,
  \<open>orphan_named_file_lost\<close>, \<open>runner_left_running\<close>.
\<close>

end
